(* ===== verification/Prelude.thy ===== *)
theory Prelude
  imports Main "HOL-Library.Word" "HOL-Library.Multiset"
begin

text \<open>
  What the components share: the machine types, the result type of code that can leave a
  function in more than one way, the little-endian byte representation of machine words,
  memory as a byte list with checked accesses, and generic lemmas on lists and words.
\<close>

unbundle bit_operations_syntax

type_synonym byte = "8 word"
type_synonym u16 = "16 word"
type_synonym u32 = "32 word"
type_synonym u64 = "64 word"

named_theorems word_bits \<open>bitwise reading of shifts, masks and concatenations\<close>
named_theorems run_simps \<open>unfolding of the result type's sequencing\<close>

section \<open>Results of C++ code\<close>

text \<open>
  A call returns a value and the new state (\<open>Ret\<close>), leaves by a C++ exception
  (\<open>Raise\<close>, with its message), ends the process through \<open>exit\<close> (\<open>Exited\<close>, with
  the state at that moment), waits for input that never comes (\<open>Blocked\<close>), or runs into
  undefined behaviour (\<open>Fault\<close>: a write or a read outside the object it is made for, a
  call through a null pointer).
\<close>

datatype ('s, 'a) res = Ret 'a 's | Raise string 's | Exited 's | Blocked 's | Fault

primrec bnd :: "('s, 'a) res \<Rightarrow> ('a \<Rightarrow> 's \<Rightarrow> ('s, 'b) res) \<Rightarrow> ('s, 'b) res" where
  "bnd (Ret a s) f = f a s"
| "bnd (Raise e s) f = Raise e s"
| "bnd (Exited s) f = Exited s"
| "bnd (Blocked s) f = Blocked s"
| "bnd Fault f = Fault"

declare bnd.simps [run_simps]

lemma bnd_assoc [run_simps]: "bnd (bnd m f) g = bnd m (\<lambda>a s. bnd (f a s) g)"
  by (cases m) simp_all

lemma bnd_Ret_right [simp]: "bnd m Ret = m"
  by (cases m) simp_all

lemma bnd_eq_Ret:
  "bnd m f = Ret b t \<longleftrightarrow> (\<exists>a s. m = Ret a s \<and> f a s = Ret b t)"
  by (cases m) simp_all

lemma bnd_eq_Fault:
  "bnd m f = Fault \<longleftrightarrow> m = Fault \<or> (\<exists>a s. m = Ret a s \<and> f a s = Fault)"
  by (cases m) simp_all

section \<open>Bytes and words\<close>

primrec le_bytes :: "nat \<Rightarrow> 'a::len word \<Rightarrow> byte list" where
  "le_bytes 0 w = []"
| "le_bytes (Suc n) w = ucast w # le_bytes n (drop_bit 8 w)"

primrec le_word :: "byte list \<Rightarrow> 'a::len word" where
  "le_word [] = 0"
| "le_word (b # bs) = ucast b OR push_bit 8 (le_word bs)"

lemma length_le_bytes [simp]: "length (le_bytes n w) = n"
  by (induction n arbitrary: w) simp_all

lemma bit_ucast_byte [word_bits]:
  fixes w :: "'a::len word"
  shows "bit (ucast w :: 'b::len word) i \<longleftrightarrow> i < LENGTH('b) \<and> bit w i"
  by (simp add: bit_simps)

lemma le_word_le_bytes_bit:
  "bit (le_word (le_bytes n w) :: 'a::len word) i \<longleftrightarrow> i < 8 * n \<and> bit (w :: 'a::len word) i"
proof (induction n arbitrary: w i)
  case 0
  then show ?case by simp
next
  case (Suc n)
  have len: "bit w i \<Longrightarrow> i < LENGTH('a)" for i
    by (rule bit_imp_le_length)
  have "bit (le_word (le_bytes (Suc n) w) :: 'a word) i \<longleftrightarrow>
      (i < LENGTH('a) \<and> i < 8 \<and> bit w i) \<or>
      (8 \<le> i \<and> i < LENGTH('a) \<and> i - 8 < 8 * n \<and> bit w (8 + (i - 8)))"
    by (auto simp: bit_simps Suc.IH len)
  also have "\<dots> \<longleftrightarrow> i < 8 * Suc n \<and> bit w i"
    by (cases "i < 8") (auto dest: len)
  finally show ?case .
qed

text \<open>A word survives the trip through its bytes when there are enough of them.\<close>

lemma le_word_le_bytes:
  fixes w :: "'a::len word"
  assumes "LENGTH('a) \<le> 8 * n"
  shows "le_word (le_bytes n w) = w"
  by (rule bit_word_eqI) (use assms in \<open>auto simp: le_word_le_bytes_bit\<close>)

lemma le_bytes_32 [simp]: "le_word (le_bytes 4 w) = (w :: u32)"
  by (rule le_word_le_bytes) simp

section \<open>Lists\<close>

lemma nth_update_if: "xs[i := x] ! j = (if i = j \<and> j < length xs then x else xs ! j)"
  by (cases "i < length xs") (auto simp: nth_list_update list_update_beyond)

lemma count_list_pos [simp]: "0 < count_list xs x \<longleftrightarrow> x \<in> set xs"
  by (metis count_list_0_iff neq0_conv)

lemma map_update_same: "f y = f (xs ! i) \<Longrightarrow> map f (xs[i := y]) = map f xs"
  by (rule nth_equalityI) (auto simp: nth_update_if)

lemma mset_concat_snoc_at:
  "i < length xss \<Longrightarrow> mset (concat (xss[i := xss ! i @ [x]])) = mset (concat xss) + {#x#}"
  by (induction xss arbitrary: i) (auto split: nat.split)

lemma sum_list_update_mset:
  "i < length xs \<Longrightarrow> sum_list (map f (xs[i := y])) + f (xs ! i) = sum_list (map f xs) + (f y :: 'b multiset)"
proof (induction xs arbitrary: i)
  case (Cons x xs)
  then show ?case by (cases i) (auto simp: add_ac)
qed simp

text \<open>\<open>splice_at m off bs\<close> stores the bytes \<open>bs\<close> at offset \<open>off\<close> of the memory \<open>m\<close>.\<close>

definition splice_at :: "'a list \<Rightarrow> nat \<Rightarrow> 'a list \<Rightarrow> 'a list" where
  "splice_at m off bs = take off m @ bs @ drop (off + length bs) m"

definition seg :: "nat \<Rightarrow> nat \<Rightarrow> 'a list \<Rightarrow> 'a list" where
  "seg lo n xs = take n (drop lo xs)"

lemma sum_list_update_nat:
  "i < length xs \<Longrightarrow> (\<Sum>x \<leftarrow> xs[i := y]. f x) + f (xs ! i) = (\<Sum>x \<leftarrow> xs. f x) + (f y :: nat)"
  by (induction xs arbitrary: i) (auto split: nat.splits)

lemma sum_list_update_less:
  assumes "i < length xs" "f y < f (xs ! i)"
  shows "(\<Sum>x \<leftarrow> xs[i := y]. f x :: nat) < (\<Sum>x \<leftarrow> xs. f x)"
  using assms by (induction xs arbitrary: i) (auto split: nat.splits)

lemma length_splice_at [simp]:
  "off + length bs \<le> length m \<Longrightarrow> length (splice_at m off bs) = length m"
  by (simp add: splice_at_def)

lemma length_slice [simp]: "lo + n \<le> length xs \<Longrightarrow> length (seg lo n xs) = n"
  by (simp add: seg_def)

lemma seg_0_length [simp]: "seg 0 (length xs) xs = xs"
  by (simp add: seg_def)

lemma seg_splice_same:
  "off + length bs \<le> length m \<Longrightarrow> n = length bs \<Longrightarrow> seg off n (splice_at m off bs) = bs"
  by (simp add: seg_def splice_at_def)

lemma seg_splice_before:
  "lo + n \<le> off \<Longrightarrow> off + length bs \<le> length m \<Longrightarrow>
   seg lo n (splice_at m off bs) = seg lo n m"
  by (auto simp: seg_def splice_at_def drop_take min_def)

lemma seg_slice: "i + k \<le> n \<Longrightarrow> seg i k (seg lo n xs) = seg (lo + i) k xs"
  by (simp add: seg_def drop_take min_def add.commute)

lemma seg_append_split: "seg lo (n + k) xs = seg lo n xs @ seg (lo + n) k xs"
  unfolding seg_def by (simp only: take_add drop_drop add.commute [of lo])

end
