(* ===== verification/Hash_Little.thy ===== *)
theory Hash_Little
  imports Prelude
begin

text \<open>
  The key hash of the PHISH library (\<^verbatim>\<open>src/phish/hashlittle.cpp\<close>): the function reads the
  key in one of three ways, chosen by the alignment of its address. Memory is a function from
  addresses to bytes, so the aligned reads that run past the end of the key read real bytes.
  \<open>hash_spec\<close> is the reference: twelve-byte blocks of three little-endian words, the last
  block padded with zero bytes. The lemmas show that the three readings agree with it.
\<close>

section \<open>Mixing\<close>

type_synonym abc = "u32 \<times> u32 \<times> u32"

definition rot :: "u32 \<Rightarrow> nat \<Rightarrow> u32" where
  "rot x k = push_bit k x OR drop_bit (32 - k) x"

definition mix :: "abc \<Rightarrow> abc" where
  "mix = (\<lambda>(a, b, c).
     let a = a - c; a = a XOR rot c 4;  c = c + b;
         b = b - a; b = b XOR rot a 6;  a = a + c;
         c = c - b; c = c XOR rot b 8;  b = b + a;
         a = a - c; a = a XOR rot c 16; c = c + b;
         b = b - a; b = b XOR rot a 19; a = a + c;
         c = c - b; c = c XOR rot b 4;  b = b + a
     in (a, b, c))"

text \<open>\<open>final\<close> is the source's name of the last mixing step.\<close>

definition final_mix :: "abc \<Rightarrow> abc" where
  "final_mix = (\<lambda>(a, b, c).
     let c = c XOR b; c = c - rot b 14;
         a = a XOR c; a = a - rot c 11;
         b = b XOR a; b = b - rot a 25;
         c = c XOR b; c = c - rot b 16;
         a = a XOR c; a = a - rot c 4;
         b = b XOR a; b = b - rot a 14;
         c = c XOR b; c = c - rot b 24
     in (a, b, c))"

text \<open>The steps of \<open>mix\<close> undone in reverse order, to show that it loses nothing.\<close>

definition unmix :: "abc \<Rightarrow> abc" where
  "unmix = (\<lambda>(a, b, c).
     let b = b - a; c = c XOR rot b 4;  c = c + b;
         a = a - c; b = b XOR rot a 19; b = b + a;
         c = c - b; a = a XOR rot c 16; a = a + c;
         b = b - a; c = c XOR rot b 8;  c = c + b;
         a = a - c; b = b XOR rot a 6;  b = b + a;
         c = c - b; a = a XOR rot c 4;  a = a + c
     in (a, b, c))"

section \<open>The three readings of the key\<close>

type_synonym memory = "nat \<Rightarrow> byte"

definition rd8 :: "memory \<Rightarrow> nat \<Rightarrow> u32" where
  "rd8 m p = ucast (m p)"

definition rd16 :: "memory \<Rightarrow> nat \<Rightarrow> u32" where
  "rd16 m p = le_word [m p, m (p + 1)]"

definition rd32 :: "memory \<Rightarrow> nat \<Rightarrow> u32" where
  "rd32 m p = le_word [m p, m (p + 1), m (p + 2), m (p + 3)]"

definition shl :: "u32 \<Rightarrow> nat \<Rightarrow> u32" where
  "shl x n = push_bit n x"

text \<open>Aligned to four bytes: 32-bit chunks, the last ones masked.\<close>

fun blocks32 :: "memory \<Rightarrow> nat \<Rightarrow> nat \<Rightarrow> abc \<Rightarrow> nat \<times> nat \<times> abc" where
  "blocks32 m k n (a, b, c) =
     (if 12 < n
      then blocks32 m (k + 12) (n - 12)
             (mix (a + rd32 m k, b + rd32 m (k + 4), c + rd32 m (k + 8)))
      else (k, n, a, b, c))"

definition last32 :: "memory \<Rightarrow> nat \<Rightarrow> nat \<Rightarrow> abc \<Rightarrow> abc" where
  "last32 m k n = (\<lambda>(a, b, c).
     let k0 = rd32 m k; k1 = rd32 m (k + 4); k2 = rd32 m (k + 8) in
     if n = 12 then (a + k0, b + k1, c + k2)
     else if n = 11 then (a + k0, b + k1, c + (k2 AND 0xffffff))
     else if n = 10 then (a + k0, b + k1, c + (k2 AND 0xffff))
     else if n = 9 then (a + k0, b + k1, c + (k2 AND 0xff))
     else if n = 8 then (a + k0, b + k1, c)
     else if n = 7 then (a + k0, b + (k1 AND 0xffffff), c)
     else if n = 6 then (a + k0, b + (k1 AND 0xffff), c)
     else if n = 5 then (a + k0, b + (k1 AND 0xff), c)
     else if n = 4 then (a + k0, b, c)
     else if n = 3 then (a + (k0 AND 0xffffff), b, c)
     else if n = 2 then (a + (k0 AND 0xffff), b, c)
     else if n = 1 then (a + (k0 AND 0xff), b, c)
     else (a, b, c))"

text \<open>Aligned to two bytes: 16-bit chunks, the last odd byte on its own.\<close>

fun blocks16 :: "memory \<Rightarrow> nat \<Rightarrow> nat \<Rightarrow> abc \<Rightarrow> nat \<times> nat \<times> abc" where
  "blocks16 m k n (a, b, c) =
     (if 12 < n
      then blocks16 m (k + 12) (n - 12)
             (mix (a + (rd16 m k + shl (rd16 m (k + 2)) 16),
                   b + (rd16 m (k + 4) + shl (rd16 m (k + 6)) 16),
                   c + (rd16 m (k + 8) + shl (rd16 m (k + 10)) 16)))
      else (k, n, a, b, c))"

definition last16 :: "memory \<Rightarrow> nat \<Rightarrow> nat \<Rightarrow> abc \<Rightarrow> abc" where
  "last16 m k n = (\<lambda>(a, b, c).
     let a4 = a + (rd16 m k + shl (rd16 m (k + 2)) 16);
         b8 = b + (rd16 m (k + 4) + shl (rd16 m (k + 6)) 16)
     in
     if n = 12 then (a4, b8, c + (rd16 m (k + 8) + shl (rd16 m (k + 10)) 16))
     else if n = 11 then (a4, b8, c + shl (rd8 m (k + 10)) 16 + rd16 m (k + 8))
     else if n = 10 then (a4, b8, c + rd16 m (k + 8))
     else if n = 9 then (a4, b8, c + rd8 m (k + 8))
     else if n = 8 then (a4, b8, c)
     else if n = 7 then (a4, b + shl (rd8 m (k + 6)) 16 + rd16 m (k + 4), c)
     else if n = 6 then (a4, b + rd16 m (k + 4), c)
     else if n = 5 then (a4, b + rd8 m (k + 4), c)
     else if n = 4 then (a4, b, c)
     else if n = 3 then (a + shl (rd8 m (k + 2)) 16 + rd16 m k, b, c)
     else if n = 2 then (a + rd16 m k, b, c)
     else if n = 1 then (a + rd8 m k, b, c)
     else (a, b, c))"

text \<open>Any alignment: one byte at a time; the cases of the last switch fall through.\<close>

fun blocks8 :: "memory \<Rightarrow> nat \<Rightarrow> nat \<Rightarrow> abc \<Rightarrow> nat \<times> nat \<times> abc" where
  "blocks8 m k n (a, b, c) =
     (if 12 < n
      then blocks8 m (k + 12) (n - 12)
             (mix (a + rd8 m k + shl (rd8 m (k + 1)) 8 + shl (rd8 m (k + 2)) 16
                     + shl (rd8 m (k + 3)) 24,
                   b + rd8 m (k + 4) + shl (rd8 m (k + 5)) 8 + shl (rd8 m (k + 6)) 16
                     + shl (rd8 m (k + 7)) 24,
                   c + rd8 m (k + 8) + shl (rd8 m (k + 9)) 8 + shl (rd8 m (k + 10)) 16
                     + shl (rd8 m (k + 11)) 24))
      else (k, n, a, b, c))"

definition last8 :: "memory \<Rightarrow> nat \<Rightarrow> nat \<Rightarrow> abc \<Rightarrow> abc" where
  "last8 m k n = (\<lambda>(a, b, c).
     let c = (if 12 \<le> n then c + shl (rd8 m (k + 11)) 24 else c);
         c = (if 11 \<le> n then c + shl (rd8 m (k + 10)) 16 else c);
         c = (if 10 \<le> n then c + shl (rd8 m (k + 9)) 8 else c);
         c = (if 9 \<le> n then c + rd8 m (k + 8) else c);
         b = (if 8 \<le> n then b + shl (rd8 m (k + 7)) 24 else b);
         b = (if 7 \<le> n then b + shl (rd8 m (k + 6)) 16 else b);
         b = (if 6 \<le> n then b + shl (rd8 m (k + 5)) 8 else b);
         b = (if 5 \<le> n then b + rd8 m (k + 4) else b);
         a = (if 4 \<le> n then a + shl (rd8 m (k + 3)) 24 else a);
         a = (if 3 \<le> n then a + shl (rd8 m (k + 2)) 16 else a);
         a = (if 2 \<le> n then a + shl (rd8 m (k + 1)) 8 else a);
         a = (if 1 \<le> n then a + rd8 m k else a)
     in (a, b, c))"

definition hash_init :: "nat \<Rightarrow> u32 \<Rightarrow> abc" where
  "hash_init n initval =
     (let i = 0xdeadbeef + of_nat n + initval in (i, i, i))"

definition hash_finish :: "(nat \<Rightarrow> nat \<Rightarrow> abc \<Rightarrow> abc) \<Rightarrow> nat \<times> nat \<times> abc \<Rightarrow> u32" where
  "hash_finish tail_fn = (\<lambda>(k, n, s).
     if n = 0 then snd (snd s) else snd (snd (final_mix (tail_fn k n s))))"

text \<open>\<open>little\<close> is the macro \<open>HASH_LITTLE_ENDIAN\<close>.\<close>

definition hashlittle :: "bool \<Rightarrow> memory \<Rightarrow> nat \<Rightarrow> nat \<Rightarrow> u32 \<Rightarrow> u32" where
  "hashlittle little m key n initval =
     (let s = hash_init n initval in
      if little \<and> key mod 4 = 0 then hash_finish (last32 m) (blocks32 m key n s)
      else if little \<and> key mod 2 = 0 then hash_finish (last16 m) (blocks16 m key n s)
      else hash_finish (last8 m) (blocks8 m key n s))"

section \<open>The reference: zero-padded blocks of little-endian words\<close>

definition add_block :: "byte list \<Rightarrow> abc \<Rightarrow> abc" where
  "add_block bs = (\<lambda>(a, b, c).
     let p = bs @ replicate (12 - length bs) 0 in
     (a + le_word (seg 0 4 p), b + le_word (seg 4 4 p), c + le_word (seg 8 4 p)))"

fun hash_blocks :: "byte list \<Rightarrow> abc \<Rightarrow> u32" where
  "hash_blocks bs s =
     (if bs = [] then snd (snd s)
      else if length bs \<le> 12 then snd (snd (final_mix (add_block bs s)))
      else hash_blocks (drop 12 bs) (mix (add_block (take 12 bs) s)))"

definition hash_spec :: "byte list \<Rightarrow> u32 \<Rightarrow> u32" where
  "hash_spec bs initval = hash_blocks bs (hash_init (length bs) initval)"

definition mem_bytes :: "memory \<Rightarrow> nat \<Rightarrow> nat \<Rightarrow> byte list" where
  "mem_bytes m p n = map m [p..<p + n]"

section \<open>The readings agree\<close>

text \<open>One line of the macro, and its inverse; the six lines of \<open>mix\<close> rotate the roles.\<close>

definition mix_line :: "nat \<Rightarrow> abc \<Rightarrow> abc" where
  "mix_line k = (\<lambda>(x, y, z). ((x - z) XOR rot z k, y, z + y))"

definition unmix_line :: "nat \<Rightarrow> abc \<Rightarrow> abc" where
  "unmix_line k = (\<lambda>(x, y, z). ((x XOR rot (z - y) k) + (z - y), y, z - y))"

definition turn :: "abc \<Rightarrow> abc" where
  "turn = (\<lambda>(x, y, z). (y, z, x))"

definition unturn :: "abc \<Rightarrow> abc" where
  "unturn = (\<lambda>(x, y, z). (z, x, y))"

lemma unmix_line_mix_line [simp]: "unmix_line k (mix_line k s) = s"
  by (cases s) (simp add: mix_line_def unmix_line_def xor.assoc)

lemma unturn_turn [simp]: "unturn (turn s) = s"
  by (cases s) (simp add: turn_def unturn_def)

lemma mix_lines:
  "mix s = turn (mix_line 4 (turn (mix_line 19 (turn (mix_line 16 (turn (mix_line 8
             (turn (mix_line 6 (turn (mix_line 4 s)))))))))))"
  unfolding mix_def mix_line_def turn_def Let_def split_def fst_conv snd_conv ..

lemma unmix_lines:
  "unmix s = unmix_line 4 (unturn (unmix_line 6 (unturn (unmix_line 8 (unturn (unmix_line 16
             (unturn (unmix_line 19 (unturn (unmix_line 4 (unturn s)))))))))))"
  unfolding unmix_def unmix_line_def unturn_def Let_def split_def fst_conv snd_conv ..

lemma unmix_mix: "unmix (mix s) = s"
  by (simp add: mix_lines unmix_lines)

lemma le_word_plus: "(ucast b :: u32) + push_bit 8 w = ucast b OR push_bit 8 w"
  for b :: byte
  by (rule disjunctive_add_eq_or, rule bit_word_eqI) (auto simp: bit_simps dest: bit_imp_le_length)

lemma push_bit_plus: "push_bit n (x + y) = push_bit n x + push_bit n (y :: u32)"
  by (simp add: push_bit_eq_mult algebra_simps)

lemma le_word_Cons_add: "le_word (b # bs) = ucast b + push_bit 8 (le_word bs :: u32)"
  by (simp add: le_word_plus)

lemmas le_word_sum = le_word_Cons_add le_word.simps(1) push_bit_plus push_bit_push_bit

lemma le_word_bit:
  "bit (le_word bs :: u32) i \<longleftrightarrow> i < 32 \<and> i div 8 < length bs \<and> bit (bs ! (i div 8)) (i mod 8)"
proof (induction bs arbitrary: i)
  case Nil
  then show ?case by simp
next
  case (Cons b bs)
  show ?case
  proof (cases "i < 8")
    case True
    then show ?thesis by (auto simp: bit_simps dest: bit_imp_le_length)
  next
    case False
    then have "i div 8 = Suc ((i - 8) div 8)" "i mod 8 = (i - 8) mod 8"
      by (simp_all add: le_div_geq le_mod_geq)
    with False show ?thesis
      using Cons.IH [of "i - 8"] by (auto simp: bit_simps dest: bit_imp_le_length)
  qed
qed

lemma mask_le_word:
  assumes "n \<le> length bs" "n \<le> 4"
  shows "(le_word bs :: u32) AND mask (8 * n) = le_word (take n bs)"
proof (rule bit_word_eqI)
  fix i assume "i < LENGTH(32)"
  have "i < 8 * n \<longleftrightarrow> i div 8 < n" by auto
  then show "bit ((le_word bs :: u32) AND mask (8 * n)) i \<longleftrightarrow> bit (le_word (take n bs) :: u32) i"
    using assms \<open>i < LENGTH(32)\<close> by (auto simp: bit_simps le_word_bit)
qed

lemma masks: "(0xff :: u32) = mask (8 * 1)" "(0xffff :: u32) = mask (8 * 2)"
    "(0xffffff :: u32) = mask (8 * 3)"
  by (simp_all add: mask_eq_exp_minus_1)

lemma rd32_masked:
  "rd32 m p AND 0xff = rd8 m p"
  "rd32 m p AND 0xffff = rd16 m p"
  "rd32 m p AND 0xffffff = le_word [m p, m (p + 1), m (p + 2)]"
  unfolding rd32_def rd16_def rd8_def masks
  by (simp_all only: mask_le_word [of 1] mask_le_word [of 2] mask_le_word [of 3] list.size)
    (simp_all add: eval_nat_numeral)

lemma mem_bytes_Suc: "mem_bytes m p (Suc n) = m p # mem_bytes m (Suc p) n"
  by (simp add: mem_bytes_def upt_rec)

lemma mem_bytes_0 [simp]: "mem_bytes m p 0 = []"
  by (simp add: mem_bytes_def)

lemma length_mem_bytes [simp]: "length (mem_bytes m p n) = n"
  by (simp add: mem_bytes_def)

lemma le_12_cases:
  assumes "0 < n" "n \<le> (12 :: nat)"
  obtains "n = 1" | "n = 2" | "n = 3" | "n = 4" | "n = 5" | "n = 6"
    | "n = 7" | "n = 8" | "n = 9" | "n = 10" | "n = 11" | "n = 12"
  using assms by (fastforce simp: eval_nat_numeral le_Suc_eq)

lemmas block_eval = add_block_def Let_def seg_def mem_bytes_Suc eval_nat_numeral

lemma last8_add_block:
  assumes "0 < n" "n \<le> 12"
  shows "last8 m k n s = add_block (mem_bytes m k n) s"
  using assms
  by (cases s; cases rule: le_12_cases)
    (simp_all add: block_eval last8_def rd8_def shl_def le_word_sum add_ac del: le_word.simps(2))

lemma rd_eqs:
  "rd8 m p = le_word [m p]"
  "rd16 m p + shl (rd8 m q) 16 = le_word [m p, m (p + 1), m q]"
  "shl (rd8 m q) 16 + rd16 m p = le_word [m p, m (p + 1), m q]"
  "rd16 m p + shl (rd16 m q) 16 = le_word [m p, m (p + 1), m q, m (q + 1)]"
  by (simp_all add: rd8_def rd16_def shl_def le_word_sum add_ac del: le_word.simps(2))

lemma last16_add_block:
  assumes "0 < n" "n \<le> 12"
  shows "last16 m k n s = add_block (mem_bytes m k n) s"
  using assms
  by (cases s; cases rule: le_12_cases)
    (simp_all add: block_eval last16_def rd16_def rd8_def shl_def le_word_sum add_ac
      del: le_word.simps(2))

lemma last32_add_block:
  assumes "0 < n" "n \<le> 12"
  shows "last32 m k n s = add_block (mem_bytes m k n) s"
  using assms
  by (cases s; cases rule: le_12_cases)
    (simp_all add: block_eval last32_def rd32_masked del: le_word.simps(2),
     simp_all add: rd32_def rd16_def rd8_def le_word_sum add_ac eval_nat_numeral
       del: le_word.simps(2))

lemma mix_args_12:
  "add_block (mem_bytes m k 12) (a, b, c) =
     (a + rd32 m k, b + rd32 m (k + 4), c + rd32 m (k + 8))"
  "add_block (mem_bytes m k 12) (a, b, c) =
     (a + (rd16 m k + shl (rd16 m (k + 2)) 16),
      b + (rd16 m (k + 4) + shl (rd16 m (k + 6)) 16),
      c + (rd16 m (k + 8) + shl (rd16 m (k + 10)) 16))"
  "add_block (mem_bytes m k 12) (a, b, c) =
     (a + rd8 m k + shl (rd8 m (k + 1)) 8 + shl (rd8 m (k + 2)) 16 + shl (rd8 m (k + 3)) 24,
      b + rd8 m (k + 4) + shl (rd8 m (k + 5)) 8 + shl (rd8 m (k + 6)) 16
        + shl (rd8 m (k + 7)) 24,
      c + rd8 m (k + 8) + shl (rd8 m (k + 9)) 8 + shl (rd8 m (k + 10)) 16
        + shl (rd8 m (k + 11)) 24)"
  using last32_add_block [of 12 m k "(a, b, c)"] last16_add_block [of 12 m k "(a, b, c)"]
    last8_add_block [of 12 m k "(a, b, c)"]
  by (simp_all add: last32_def last16_def last8_def Let_def add_ac)

text \<open>One turn of each loop adds the same block, so the loops agree.\<close>

lemma blocks32_step:
  "12 < n \<Longrightarrow> blocks32 m k n s = blocks32 m (k + 12) (n - 12) (mix (add_block (mem_bytes m k 12) s))"
  by (cases s, hypsubst, subst blocks32.simps, simp only: mix_args_12(1) if_True)

lemma blocks16_step:
  "12 < n \<Longrightarrow> blocks16 m k n s = blocks16 m (k + 12) (n - 12) (mix (add_block (mem_bytes m k 12) s))"
  by (cases s, hypsubst, subst blocks16.simps, simp only: mix_args_12(2) if_True)

lemma blocks8_step:
  "12 < n \<Longrightarrow> blocks8 m k n s = blocks8 m (k + 12) (n - 12) (mix (add_block (mem_bytes m k 12) s))"
  by (cases s, hypsubst, subst blocks8.simps, simp only: mix_args_12(3) if_True)

lemma blocks_stop:
  "\<not> 12 < n \<Longrightarrow> blocks32 m k n s = (k, n, s)"
  "\<not> 12 < n \<Longrightarrow> blocks16 m k n s = (k, n, s)"
  "\<not> 12 < n \<Longrightarrow> blocks8 m k n s = (k, n, s)"
  by (cases s; simp)+

declare blocks32.simps [simp del] blocks16.simps [simp del] blocks8.simps [simp del]
  hash_blocks.simps [simp del]

lemma blocks_agree: "blocks32 m k n s = blocks8 m k n s \<and> blocks16 m k n s = blocks8 m k n s"
proof (induction n arbitrary: k s rule: less_induct)
  case (less n)
  show ?case
    by (cases "12 < n") (simp_all add: less blocks32_step blocks16_step blocks8_step blocks_stop)
qed

lemma take_mem_bytes: "i \<le> n \<Longrightarrow> take i (mem_bytes m k n) = mem_bytes m k i"
  by (simp add: mem_bytes_def take_map)

lemma drop_mem_bytes: "drop i (mem_bytes m k n) = mem_bytes m (k + i) (n - i)"
  by (cases "i \<le> n") (simp_all add: mem_bytes_def drop_map)

lemma mem_bytes_eq_Nil [simp]: "mem_bytes m k n = [] \<longleftrightarrow> n = 0"
  by (metis length_0_conv length_mem_bytes)

lemma last_agree:
  assumes "0 < n" "n \<le> 12"
  shows "last32 m k n s = last8 m k n s" "last16 m k n s = last8 m k n s"
  by (use assms in \<open>simp_all add: last32_add_block last16_add_block last8_add_block\<close>)

lemma hash_blocks_small:
  assumes "n \<le> 12" and "\<And>s. 0 < n \<Longrightarrow> tail_fn k n s = last8 m k n s"
  shows "hash_finish tail_fn (k, n, s) = hash_blocks (mem_bytes m k n) s"
  by (use assms in \<open>subst hash_blocks.simps, auto simp: hash_finish_def last8_add_block\<close>)

lemma hash_finish_blocks8:
  assumes "\<And>k n s. 0 < n \<Longrightarrow> n \<le> 12 \<Longrightarrow> tail_fn k n s = last8 m k n s"
  shows "hash_finish tail_fn (blocks8 m k n s) = hash_blocks (mem_bytes m k n) s"
proof (induction n arbitrary: k s rule: less_induct)
  case (less n)
  show ?case
  proof (cases "12 < n")
    case True
    with less show ?thesis
      by (subst hash_blocks.simps) (simp add: take_mem_bytes drop_mem_bytes blocks8_step)
  next
    case False
    with assms show ?thesis
      by (simp add: blocks_stop(3) hash_blocks_small)
  qed
qed

lemma hash_by_alignment:
  "hash_finish (last32 m) (blocks32 m k n s) = hash_blocks (mem_bytes m k n) s"
  "hash_finish (last16 m) (blocks16 m k n s) = hash_blocks (mem_bytes m k n) s"
  "hash_finish (last8 m) (blocks8 m k n s) = hash_blocks (mem_bytes m k n) s"
  by (simp_all add: blocks_agree hash_finish_blocks8 last_agree)

lemma hashlittle_hash_spec:
  "hashlittle little m key n initval = hash_spec (mem_bytes m key n) initval"
  by (simp add: hashlittle_def hash_spec_def hash_by_alignment Let_def)

section \<open>Properties\<close>

text \<open>
  C19: The three code paths of \<^verbatim>\<open>hashlittle\<close>, for keys aligned to four bytes, to two
  bytes and not at all, compute the same function of the key's bytes: blocks of twelve bytes
  added and mixed, the last one padded with zeros.
\<close>

theorem hashlittle_alignment_independent:
  "hashlittle little m key n initval = hash_spec (mem_bytes m key n) initval"
  by (rule hashlittle_hash_spec)

text \<open>C32: The mixing step between two blocks loses nothing: different states stay different.\<close>

theorem mix_injective: "inj mix"
  by (rule inj_on_inverseI [of _ unmix]) (rule unmix_mix)

end
