(* ===== verification/Std_Map.thy ===== *)
theory Std_Map
  imports Prelude
begin

text \<open>
  \<^verbatim>\<open>std::map\<close> as its sequence of entries in key order, which is the order the code's
  iterators visit: \<open>mput\<close> is \<open>m[k] = v\<close>, \<open>mfind\<close> the lookup, \<open>mcount\<close> the
  \<open>count\<close> test, \<open>merase\<close> the erase by key, \<open>mat\<close> the \<open>m[k]\<close> that default-constructs.
  The locale \<open>dictionary\<close> is the contract its clients use.
\<close>

type_synonym ('k, 'v) smap = "('k \<times> 'v) list"

abbreviation mfind :: "('k, 'v) smap \<Rightarrow> 'k \<Rightarrow> 'v option" where
  "mfind \<equiv> map_of"

definition mcount :: "('k, 'v) smap \<Rightarrow> 'k \<Rightarrow> bool" where
  "mcount m k \<longleftrightarrow> mfind m k \<noteq> None"

fun mput :: "'k::linorder \<Rightarrow> 'v \<Rightarrow> ('k, 'v) smap \<Rightarrow> ('k, 'v) smap" where
  "mput k v [] = [(k, v)]"
| "mput k v ((a, b) # m) =
     (if k = a then (k, v) # m
      else if k < a then (k, v) # (a, b) # m
      else (a, b) # mput k v m)"

definition merase :: "'k \<Rightarrow> ('k, 'v) smap \<Rightarrow> ('k, 'v) smap" where
  "merase k m = filter (\<lambda>e. fst e \<noteq> k) m"

definition mat :: "'v \<Rightarrow> ('k, 'v) smap \<Rightarrow> 'k \<Rightarrow> 'v" where
  "mat d m k = (case mfind m k of None \<Rightarrow> d | Some v \<Rightarrow> v)"

definition mkeys :: "('k, 'v) smap \<Rightarrow> 'k list" where
  "mkeys m = map fst m"

definition msorted :: "('k::linorder, 'v) smap \<Rightarrow> bool" where
  "msorted m \<longleftrightarrow> sorted_wrt (<) (mkeys m)"

section \<open>The contract\<close>

locale dictionary =
  fixes emp :: "'m"
    and put :: "'k \<Rightarrow> 'v \<Rightarrow> 'm \<Rightarrow> 'm"
    and del :: "'k \<Rightarrow> 'm \<Rightarrow> 'm"
    and find :: "'m \<Rightarrow> 'k \<Rightarrow> 'v option"
  assumes find_emp: "find emp k = None"
    and find_put: "find (put k v m) k' = (if k' = k then Some v else find m k')"
    and find_del: "find (del k m) k' = (if k' = k then None else find m k')"
begin

lemma find_put_same: "find (put k v m) k = Some v"
  by (simp add: find_put)

lemma find_put_other: "k' \<noteq> k \<Longrightarrow> find (put k v m) k' = find m k'"
  by (simp add: find_put)

lemma find_del_put: "find (del k (put k v m)) k' = find (del k m) k'"
  by (simp add: find_del find_put)

lemma find_fold_put:
  "find (fold (\<lambda>k. put k v) ks m) k' = (if k' \<in> set ks then Some v else find m k')"
  by (induction ks arbitrary: m) (auto simp: find_put)

end

lemma mfind_mput: "mfind (mput k v m) k' = (if k' = k then Some v else mfind m k')"
  by (induction k v m rule: mput.induct) auto

lemma mfind_merase: "mfind (merase k m) k' = (if k' = k then None else mfind m k')"
  by (induction m) (auto simp: merase_def)

interpretation smap: dictionary "[]" mput merase mfind
  by unfold_locales (simp_all add: mfind_mput mfind_merase)

lemma mput_mput [simp]: "mput k v (mput k w m) = mput k v m"
  by (induction k w m rule: mput.induct) auto

declare smap.find_put [simp] smap.find_del [simp]

section \<open>Order of the entries\<close>

lemma mkeys_simps [simp]: "mkeys [] = []" "mkeys (e # m) = fst e # mkeys m"
  by (simp_all add: mkeys_def)

lemma set_mkeys_mput [simp]: "set (mkeys (mput k v m)) = insert k (set (mkeys m))"
  by (induction k v m rule: mput.induct) (auto simp: mkeys_def)

lemma set_mkeys_merase [simp]: "set (mkeys (merase k m)) = set (mkeys m) - {k}"
  by (auto simp: mkeys_def merase_def)

lemma msorted_Nil [simp]: "msorted []"
  by (simp add: msorted_def mkeys_def)

lemma msorted_Cons:
  "msorted ((k, v) # m) \<longleftrightarrow> (\<forall>k' \<in> set (mkeys m). k < k') \<and> msorted m"
  by (simp add: msorted_def mkeys_def)

lemma msorted_mput: "msorted m \<Longrightarrow> msorted (mput k v m)"
  by (induction k v m rule: mput.induct) (auto simp: msorted_Cons)

lemma msorted_merase: "msorted m \<Longrightarrow> msorted (merase k m)"
proof (induction m)
  case (Cons e m)
  obtain a b where "e = (a, b)" by (cases e)
  moreover have "set (mkeys (merase k m)) \<subseteq> set (mkeys m)" by auto
  moreover have "merase k (e # m) = (if fst e = k then merase k m else e # merase k m)"
    by (simp add: merase_def)
  ultimately show ?case using Cons by (auto simp: msorted_Cons)
qed (simp add: merase_def)

lemma mfind_None_iff: "mfind m k = None \<longleftrightarrow> k \<notin> set (mkeys m)"
  by (simp add: map_of_eq_None_iff mkeys_def)

lemma mcount_iff: "mcount m k \<longleftrightarrow> k \<in> set (mkeys m)"
  by (simp add: mcount_def mfind_None_iff)

lemma msorted_distinct: "msorted m \<Longrightarrow> distinct (mkeys m)"
  by (simp add: msorted_def strict_sorted_iff)

lemma mfind_in_set: "mfind m k = Some v \<Longrightarrow> (k, v) \<in> set m"
  by (rule map_of_SomeD)

lemma in_set_mfind: "msorted m \<Longrightarrow> (k, v) \<in> set m \<Longrightarrow> mfind m k = Some v"
  by (metis map_of_is_SomeI mkeys_def msorted_distinct)

lemma msorted_ext:
  assumes "msorted m" "msorted m'" "\<And>k. mfind m k = mfind m' k"
  shows "m = m'"
proof -
  have "set (mkeys m) = set (mkeys m')"
    using assms(3) by (metis mfind_None_iff subsetI subset_antisym)
  then have "mkeys m = mkeys m'"
    using assms(1,2) by (metis msorted_def strict_sorted_equal)
  moreover have "map snd m = map snd m'"
    by (rule nth_equalityI)
      (use assms calculation in \<open>auto simp: mkeys_def dest!: arg_cong [where f = length],
        metis assms(3) calculation length_map map_of_eq_Some_iff mkeys_def msorted_distinct
          nth_map nth_mem option.inject prod.collapse\<close>)
  ultimately show ?thesis
    unfolding mkeys_def by (metis zip_map_fst_snd)
qed

lemma mat_mput [simp]: "mat d (mput k v m) k' = (if k' = k then v else mat d m k')"
  by (simp add: mat_def)

end
