(* ===== verification/Text_Stream.thy ===== *)
theory Text_Stream
  imports Prelude "HOL-Library.Char_ord" "HOL-Library.List_Lexorder"
begin

text \<open>
  What the code uses of the C++ streams: \<open>operator<<\<close> on integers
  (\<open>string_cast\<close> of \<^verbatim>\<open>phish-bait-common.h\<close>), and \<open>operator>>\<close> on an
  \<open>istringstream\<close> for integers and words. A stream is the text that is left and the fail
  bit; a failed stream leaves the target unchanged, as does one with no characters left, and
  text that is no number stores 0.
\<close>

section \<open>Decimal output\<close>

definition digit_char :: "nat \<Rightarrow> char" where
  "digit_char d = char_of (48 + d)"

fun show_nat :: "nat \<Rightarrow> string" where
  "show_nat n = (if n < 10 then [digit_char n] else show_nat (n div 10) @ [digit_char (n mod 10)])"

declare show_nat.simps [simp del]

definition string_cast :: "int \<Rightarrow> string" where
  "string_cast i = (if i < 0 then CHR ''-'' # show_nat (nat (- i)) else show_nat (nat i))"

section \<open>Input\<close>

type_synonym istream = "string \<times> bool"

definition is_space :: "char \<Rightarrow> bool" where
  "is_space c \<longleftrightarrow> c = CHR '' '' \<or> (9 \<le> (of_char c :: nat) \<and> (of_char c :: nat) \<le> 13)"

definition is_digit :: "char \<Rightarrow> bool" where
  "is_digit c \<longleftrightarrow> 48 \<le> (of_char c :: nat) \<and> (of_char c :: nat) \<le> 57"

definition digit_val :: "char \<Rightarrow> nat" where
  "digit_val c = of_char c - 48"

definition read_digits :: "string \<Rightarrow> nat" where
  "read_digits = foldl (\<lambda>n c. 10 * n + digit_val c) 0"

definition clamp_int :: "int \<Rightarrow> int" where
  "clamp_int i = max (- (2 ^ 31)) (min (2 ^ 31 - 1) i)"

text \<open>\<open>stream >> x\<close> for an \<open>int x\<close> that holds \<open>old\<close>: white space, a sign, digits.\<close>

definition get_int :: "int \<Rightarrow> istream \<Rightarrow> int \<times> istream" where
  "get_int old st =
     (let t = dropWhile is_space (fst st) in
      if snd st \<or> t = [] then (old, (t, True))
      else
        let neg = (hd t = CHR ''-'');
            u = (if hd t = CHR ''-'' \<or> hd t = CHR ''+'' then tl t else t);
            ds = takeWhile is_digit u; rest = dropWhile is_digit u;
            i = (if neg then - int (read_digits ds) else int (read_digits ds))
        in if ds = [] then (0, (rest, True))
           else (clamp_int i, (rest, clamp_int i \<noteq> i)))"

text \<open>The same for an \<open>uint64_t\<close>, where a minus sign negates modulo \<open>2 ^ 64\<close>.\<close>

definition get_u64 :: "u64 \<Rightarrow> istream \<Rightarrow> u64 \<times> istream" where
  "get_u64 old st =
     (let t = dropWhile is_space (fst st) in
      if snd st \<or> t = [] then (old, (t, True))
      else
        let neg = (hd t = CHR ''-'');
            u = (if hd t = CHR ''-'' \<or> hd t = CHR ''+'' then tl t else t);
            ds = takeWhile is_digit u; rest = dropWhile is_digit u;
            n = read_digits ds
        in if ds = [] then (0, (rest, True))
           else if 2 ^ 64 \<le> n then (- 1, (rest, True))
           else (if neg then - of_nat n else of_nat n, (rest, False)))"

text \<open>\<open>stream >> s\<close> for a string.\<close>

definition get_word :: "string \<Rightarrow> istream \<Rightarrow> string \<times> istream" where
  "get_word old st =
     (let t = dropWhile is_space (fst st) in
      if snd st \<or> t = [] then (old, (t, True))
      else (takeWhile (\<lambda>c. \<not> is_space c) t, (dropWhile (\<lambda>c. \<not> is_space c) t, False)))"

lemma get_word_shrinks:
  assumes "get_word old st = (w, st')" "\<not> snd st'"
  shows "length (fst st') < length (fst st)"
proof -
  let ?t = "dropWhile is_space (fst st)"
  have "?t \<noteq> []" and st': "fst st' = dropWhile (\<lambda>c. \<not> is_space c) ?t"
    using assms by (auto simp: get_word_def Let_def split: if_splits)
  then obtain c cs where c: "?t = c # cs" "\<not> is_space c"
    by (cases ?t) (auto dest: dropWhile_eq_Cons_conv [THEN iffD1])
  then have "length (fst st') \<le> length cs"
    by (simp add: st' length_dropWhile_le)
  also have "\<dots> < length ?t" by (simp add: c)
  also have "\<dots> \<le> length (fst st)" by (rule length_dropWhile_le)
  finally show ?thesis .
qed

text \<open>The loop \<open>while(true) { stream >> w; if(!stream) break; ws.push_back(w); }\<close>\<close>

function get_words :: "istream \<Rightarrow> string list" where
  "get_words st =
     (let (w, st') = get_word [] st in if snd st' then [] else w # get_words st')"
  by pat_completeness auto

termination
  by (relation "measure (\<lambda>st. length (fst st))") (simp, metis get_word_shrinks in_measure)

declare get_words.simps [simp del]

section \<open>Round trips\<close>

lemma of_char_digit: "d < 10 \<Longrightarrow> (of_char (digit_char d) :: nat) = 48 + d"
  by (simp add: digit_char_def)

lemma digit_char_digit [simp]: "d < 10 \<Longrightarrow> is_digit (digit_char d)"
  by (simp add: is_digit_def of_char_digit)

lemma digit_val_digit_char [simp]: "d < 10 \<Longrightarrow> digit_val (digit_char d) = d"
  by (simp add: digit_val_def of_char_digit)

lemma digit_not_space: "is_digit c \<Longrightarrow> \<not> is_space c"
  by (auto simp: is_digit_def is_space_def)

lemma digit_not_sign: "is_digit c \<Longrightarrow> c \<noteq> CHR ''-'' \<and> c \<noteq> CHR ''+''"
  by (auto simp: is_digit_def)

lemma show_nat_digits: "c \<in> set (show_nat n) \<Longrightarrow> is_digit c"
  by (induction n rule: show_nat.induct) (subst (asm) show_nat.simps, auto split: if_splits)

lemma show_nat_not_Nil [simp]: "show_nat n \<noteq> []"
  by (subst show_nat.simps) simp

lemma read_digits_snoc: "read_digits (ds @ [c]) = 10 * read_digits ds + digit_val c"
  by (simp add: read_digits_def)

lemma read_digits_show_nat [simp]: "read_digits (show_nat n) = n"
proof (induction n rule: show_nat.induct)
  case (1 n)
  show ?case
  proof (cases "n < 10")
    case True
    then show ?thesis by (subst show_nat.simps) (simp add: read_digits_def)
  next
    case False
    with 1 show ?thesis by (subst show_nat.simps) (simp add: read_digits_snoc)
  qed
qed

lemma string_cast_chars:
  "c \<in> set (string_cast i) \<Longrightarrow> is_digit c \<or> c = CHR ''-''"
  by (auto simp: string_cast_def dest: show_nat_digits split: if_splits)

lemma minus_not_space [simp]: "\<not> is_space (CHR ''-'')"
  by (simp add: is_space_def)

lemma string_cast_no_space: "c \<in> set (string_cast i) \<Longrightarrow> \<not> is_space c \<and> c \<noteq> CHR ''+''"
  using string_cast_chars digit_not_space digit_not_sign by fastforce

lemma string_cast_not_Nil [simp]: "string_cast i \<noteq> []"
  by (simp add: string_cast_def)

lemma takeWhile_all_append:
  "\<forall>c \<in> set xs. P c \<Longrightarrow> takeWhile P (xs @ ys) = xs @ takeWhile P ys"
  "\<forall>c \<in> set xs. P c \<Longrightarrow> dropWhile P (xs @ ys) = dropWhile P ys"
  by (induction xs) auto

definition word_end :: "string \<Rightarrow> bool" where
  "word_end rest \<longleftrightarrow> rest = [] \<or> is_space (hd rest)"

lemma word_end_stop:
  "word_end rest \<Longrightarrow> takeWhile is_digit rest = [] \<and> dropWhile is_digit rest = rest"
  "word_end rest \<Longrightarrow>
     takeWhile (\<lambda>c. \<not> is_space c) rest = [] \<and> dropWhile (\<lambda>c. \<not> is_space c) rest = rest"
  by (cases rest; auto simp: word_end_def dest: digit_not_space)+

lemma get_int_string_cast:
  assumes "- (2 ^ 31) \<le> i" "i < 2 ^ 31" "word_end rest" "\<forall>c \<in> set sp. is_space c"
  shows "get_int old (sp @ string_cast i @ rest, False) = (i, (rest, False))"
proof -
  let ?n = "nat \<bar>i\<bar>"
  have ds: "\<forall>c \<in> set (show_nat ?n). is_digit c"
    by (auto dest: show_nat_digits)
  then have hd: "is_digit (hd (show_nat ?n))"
    by (simp add: list.set_sel)
  have cast: "string_cast i = (if i < 0 then [CHR ''-''] else []) @ show_nat ?n"
    by (simp add: string_cast_def)
  have "dropWhile is_space (sp @ string_cast i @ rest) = string_cast i @ rest"
    using assms(4) hd digit_not_space
    by (subst takeWhile_all_append(2))
      (auto simp: cast dropWhile_eq_self_iff hd_append)
  moreover have "takeWhile is_digit (show_nat ?n @ rest) = show_nat ?n"
      "dropWhile is_digit (show_nat ?n @ rest) = rest"
    using ds word_end_stop(1) [OF assms(3)] by (simp_all add: takeWhile_all_append)
  moreover have "clamp_int i = i"
    using assms(1,2) by (simp add: clamp_int_def)
  moreover have "i < 0 \<or> hd (show_nat ?n @ rest) \<noteq> CHR ''-'' \<and> hd (show_nat ?n @ rest) \<noteq> CHR ''+''"
    using digit_not_sign [OF hd] by simp
  ultimately show ?thesis
    by (cases "i < 0") (simp_all add: get_int_def Let_def cast)
qed

lemma get_word_append:
  assumes "w \<noteq> []" "\<forall>c \<in> set w. \<not> is_space c" "word_end rest" "\<forall>c \<in> set sp. is_space c"
  shows "get_word old (sp @ w @ rest, False) = (w, (rest, False))"
proof -
  have "dropWhile is_space (sp @ w @ rest) = w @ rest"
    using assms by (subst takeWhile_all_append(2)) (auto simp: dropWhile_eq_self_iff hd_append)
  with assms show ?thesis
    by (simp add: get_word_def Let_def takeWhile_all_append word_end_stop(2))
qed

end
