(* ===== verification/Phish_State.thy ===== *)
theory Phish_State
  imports Std_Map Text_Stream
begin

text \<open>
  The state of one minnow process: the globals of \<^verbatim>\<open>src/phish/phish-common.cpp\<close> and the
  static variables of \<^verbatim>\<open>src/phish/phish-zmq.cpp\<close>, the datum pool, the errors and warnings
  every API function starts from. The ZeroMQ library is outside the repository: what the code
  asks of it is recorded in \<open>zmq_log\<close>, what it delivers is an argument of the functions that
  receive. A socket is named by the address it is bound or connected to.
\<close>

section \<open>Globals\<close>

type_synonym cb = "nat option" \<comment> \<open>a function pointer; \<open>None\<close> is the null pointer\<close>

datatype pattern = Broadcast | Round_robin nat | Hashed | Direct

text \<open>The class \<open>output_connection\<close> with its four subclasses; the round-robin one has an index.\<close>

record output_connection =
  m_input_port :: int
  m_recipients :: "string list"
  m_pattern :: pattern

text \<open>
  A \<open>ZSend\<close> has the bytes and whether \<open>ZMQ_SNDMORE\<close> is set, \<open>ZBind\<close> and
  \<open>ZConnect\<close> the high-water mark set on the new socket before, if one is.
\<close>

datatype zcall =
  ZSend string "byte list" bool
| ZClose string
| ZBind string "u64 option"
| ZConnect string "u64 option"

record phish =
  g_backend :: string
  g_host :: string
  g_executable :: string
  g_school_id :: string
  g_local_id :: int
  g_local_count :: int
  g_global_id :: int
  g_global_count :: int
  g_initialized :: bool
  g_checked :: bool
  g_received_count :: u64
  g_sent_count :: u64
  g_all_input_ports_closed :: cb
  g_at_abort :: cb
  g_control_port :: "string option"
  g_input_port :: "string option"
  g_message_callback :: "(int, cb) smap"
  g_closed_callback :: "(int, cb) smap"
  g_port_required :: "(int, bool) smap"
  g_connection_count :: "(int, int) smap"
  g_output_connections :: "(int, output_connection list) smap"
  g_defined_output_ports :: "int list"
  g_datum_size :: nat
  g_datum_pool :: "byte list list"
  g_unused_datum_pool :: "nat list"
  pool_live :: bool
  g_pack_begin :: nat
  g_pack_end :: nat
  g_unpack_begin :: nat
  g_unpack_current :: int
  g_unpack_end :: nat
  g_running :: bool
  zmq_log :: "zcall list"
  stderr_log :: "(string \<times> string) list"

text \<open>
  What a minnow registers with the library. The functions work on the whole state, so a minnow's
  own variables are an extension of the record.
\<close>

record 's callbacks =
  on_message :: "nat \<Rightarrow> int \<Rightarrow> 's \<Rightarrow> ('s, unit) res"
  on_closed :: "nat \<Rightarrow> 's \<Rightarrow> ('s, unit) res"
  on_abort :: "nat \<Rightarrow> 's \<Rightarrow> ('s, int) res"

text \<open>A minnow that registers no callbacks.\<close>

definition no_callbacks :: "'s callbacks" where
  "no_callbacks =
     \<lparr>on_message = \<lambda>_ _ _. Fault, on_closed = \<lambda>_ _. Fault, on_abort = \<lambda>_ _. Fault\<rparr>"

definition phish_start :: phish where
  "phish_start =
     \<lparr>g_backend = [], g_host = [], g_executable = [], g_school_id = [],
      g_local_id = 0, g_local_count = 0, g_global_id = 0, g_global_count = 0,
      g_initialized = False, g_checked = False, g_received_count = 0, g_sent_count = 0,
      g_all_input_ports_closed = None, g_at_abort = None,
      g_control_port = None, g_input_port = None,
      g_message_callback = [], g_closed_callback = [], g_port_required = [],
      g_connection_count = [], g_output_connections = [], g_defined_output_ports = [],
      g_datum_size = 1024, g_datum_pool = [], g_unused_datum_pool = [], pool_live = True,
      g_pack_begin = 0, g_pack_end = 0, g_unpack_begin = 0, g_unpack_current = 0,
      g_unpack_end = 0, g_running = False, zmq_log = [], stderr_log = []\<rparr>"

section \<open>Messages, errors, abort\<close>

definition phish_message :: "string \<Rightarrow> string \<Rightarrow> 'u phish_scheme \<Rightarrow> 'u phish_scheme" where
  "phish_message type msg s = s\<lparr>stderr_log := stderr_log s @ [(type, msg)]\<rparr>"

definition phish_warn :: "string \<Rightarrow> 'u phish_scheme \<Rightarrow> ('u phish_scheme, unit) res" where
  "phish_warn msg s = Ret () (phish_message ''WARNING'' msg s)"

text \<open>A callback that stores a value other than 0 cancels the abort; otherwise the process exits.\<close>

definition phish_abort_internal ::
  "'u phish_scheme callbacks \<Rightarrow> 'u phish_scheme \<Rightarrow> ('u phish_scheme, bool) res" where
  "phish_abort_internal E s =
     (case g_at_abort s of
        None \<Rightarrow> Ret True s
      | Some f \<Rightarrow> bnd (on_abort E f s) (\<lambda>cancel s. Ret (cancel = 0) s))"

definition phish_abort ::
  "'u phish_scheme callbacks \<Rightarrow> 'u phish_scheme \<Rightarrow> ('u phish_scheme, unit) res" where
  "phish_abort E s =
     bnd (phish_abort_internal E s) (\<lambda>go s.
       if \<not> go then Ret () s
       else bnd (phish_warn
                   ''Currently, phish_abort() doesn't shut-down the entire school.'' s)
              (\<lambda>_ s. Exited s))"

definition phish_error ::
  "'u phish_scheme callbacks \<Rightarrow> string \<Rightarrow> 'u phish_scheme \<Rightarrow> ('u phish_scheme, unit) res" where
  "phish_error E msg s = phish_abort E (phish_message ''ERROR'' msg s)"

definition phish_return_error ::
  "'u phish_scheme callbacks \<Rightarrow> string \<Rightarrow> 'a \<Rightarrow> 'u phish_scheme \<Rightarrow> ('u phish_scheme, 'a) res" where
  "phish_return_error E msg code s = bnd (phish_error E msg s) (\<lambda>_. Ret code)"

definition phish_callback :: "cb \<Rightarrow> cb \<Rightarrow> 'u phish_scheme \<Rightarrow> ('u phish_scheme, unit) res" where
  "phish_callback alldone at_abort s =
     Ret () (s\<lparr>g_all_input_ports_closed := alldone, g_at_abort := at_abort\<rparr>)"

text \<open>The macros \<open>phish_assert_...\<close>: they return from the function that uses them.\<close>

definition phish_assert_initialized where
  "phish_assert_initialized E f s =
     (if \<not> g_initialized s
      then phish_return_error E ''phish_init() has not been called.'' (-2 :: int) s else f s)"

definition phish_assert_not_initialized where
  "phish_assert_not_initialized E f s =
     (if g_initialized s
      then phish_return_error E ''phish_init() has already been called.'' (-3 :: int) s else f s)"

definition phish_assert_checked where
  "phish_assert_checked E f s =
     (if \<not> g_checked s
      then phish_return_error E ''phish_check() has not been called.'' (-4 :: int) s else f s)"

definition phish_assert_not_checked where
  "phish_assert_not_checked E f s =
     (if g_checked s
      then phish_return_error E ''phish_check() has already been called.'' (-5 :: int) s else f s)"

lemma phish_error_no_callback:
  "g_at_abort s = None \<Longrightarrow> \<exists>l. phish_error E msg s = Exited (s\<lparr>stderr_log := l\<rparr>)"
  by (simp add: phish_error_def phish_abort_def phish_abort_internal_def phish_warn_def
      phish_message_def) blast

text \<open>An abort callback that cancels every abort and does nothing else.\<close>

definition cancels :: "'u phish_scheme callbacks \<Rightarrow> 'u phish_scheme \<Rightarrow> bool" where
  "cancels E s \<longleftrightarrow> (\<exists>f. g_at_abort s = Some f \<and> (\<forall>s. on_abort E f s = Ret 1 s))"

lemma phish_error_cancelled:
  "cancels E s \<Longrightarrow> phish_error E msg s = Ret () (phish_message ''ERROR'' msg s)"
  by (auto simp: cancels_def phish_error_def phish_abort_def phish_abort_internal_def
      phish_message_def)

section \<open>The datum pool\<close>

definition use_datum :: "'u phish_scheme \<Rightarrow> nat \<times> 'u phish_scheme" where
  "use_datum s =
     (if g_unused_datum_pool s = []
      then (length (g_datum_pool s),
            s\<lparr>g_datum_pool := g_datum_pool s @ [replicate (g_datum_size s) 0]\<rparr>)
      else (last (g_unused_datum_pool s),
            s\<lparr>g_unused_datum_pool := butlast (g_unused_datum_pool s)\<rparr>))"

definition release_datum :: "nat \<Rightarrow> 'u phish_scheme \<Rightarrow> 'u phish_scheme" where
  "release_datum d s = s\<lparr>g_unused_datum_pool := g_unused_datum_pool s @ [d]\<rparr>"

text \<open>Writes and reads through a pointer into datum \<open>d\<close>, checked against its size.\<close>

definition in_datum :: "nat \<Rightarrow> int \<Rightarrow> nat \<Rightarrow> 'u phish_scheme \<Rightarrow> bool" where
  "in_datum d off n s \<longleftrightarrow>
     pool_live s \<and> d < length (g_datum_pool s) \<and> 0 \<le> off \<and>
     off + int n \<le> int (length (g_datum_pool s ! d))"

definition store_at ::
  "nat \<Rightarrow> nat \<Rightarrow> byte list \<Rightarrow> 'u phish_scheme \<Rightarrow> ('u phish_scheme, unit) res" where
  "store_at d off bs s =
     (if in_datum d (int off) (length bs) s
      then Ret () (s\<lparr>g_datum_pool :=
             (g_datum_pool s)[d := splice_at (g_datum_pool s ! d) off bs]\<rparr>)
      else Fault)"

definition load_at :: "nat \<Rightarrow> int \<Rightarrow> nat \<Rightarrow> 'u phish_scheme \<Rightarrow> ('u phish_scheme, byte list) res" where
  "load_at d off n s =
     (if in_datum d off n s then Ret (seg (nat off) n (g_datum_pool s ! d)) s else Fault)"

text \<open>
  The pool is well formed when all datums have the pool's size, the pack buffer, the unpack
  buffer and the unused datums are different datums of the pool.
\<close>

definition pool_ok :: "'u phish_scheme \<Rightarrow> bool" where
  "pool_ok s \<longleftrightarrow>
     pool_live s \<and>
     (\<forall>d \<in> set (g_datum_pool s). length d = g_datum_size s) \<and>
     distinct (g_pack_begin s # g_unpack_begin s # g_unused_datum_pool s) \<and>
     (\<forall>d \<in> set (g_pack_begin s # g_unpack_begin s # g_unused_datum_pool s).
        d < length (g_datum_pool s))"

lemma pool_ok_sizes:
  "pool_ok s \<Longrightarrow> length (g_datum_pool s ! g_pack_begin s) = g_datum_size s"
  "pool_ok s \<Longrightarrow> length (g_datum_pool s ! g_unpack_begin s) = g_datum_size s"
  by (simp_all add: pool_ok_def)

lemma store_at_pool_ok:
  assumes "pool_ok s" "store_at d off bs s = Ret u t"
  shows "pool_ok t"
  using assms
  by (auto simp: pool_ok_def store_at_def in_datum_def dest!: set_update_subset_insert [THEN subsetD]
      split: if_splits)

end
