(* ===== verification/Phish_Pack.thy ===== *)
theory Phish_Pack
  imports Phish_State
begin

text \<open>
  Datums of a message (\<^verbatim>\<open>phish_pack_*\<close>, \<^verbatim>\<open>phish_unpack\<close>, \<^verbatim>\<open>phish_repack\<close> of
  \<^verbatim>\<open>src/phish/phish-zmq.cpp\<close>). A buffer starts with the 32-bit number of its values; each value
  is a type byte and its bytes, an array has its 32-bit length between the two. The pack and
  unpack buffers are datums of the pool, so a write past the end of one is a \<open>Fault\<close>.
  The abstract view of a buffer is the list of its items; the lemmas show that packing appends
  an item, that unpacking takes the first one off, and what an overflow does.
\<close>

section \<open>Type codes\<close>

abbreviation "PHISH_CHAR \<equiv> (0 :: byte)"
abbreviation "PHISH_INT8 \<equiv> (1 :: byte)"
abbreviation "PHISH_INT16 \<equiv> (2 :: byte)"
abbreviation "PHISH_INT32 \<equiv> (3 :: byte)"
abbreviation "PHISH_INT64 \<equiv> (4 :: byte)"
abbreviation "PHISH_UINT8 \<equiv> (5 :: byte)"
abbreviation "PHISH_UINT16 \<equiv> (6 :: byte)"
abbreviation "PHISH_UINT32 \<equiv> (7 :: byte)"
abbreviation "PHISH_UINT64 \<equiv> (8 :: byte)"
abbreviation "PHISH_FLOAT \<equiv> (9 :: byte)"
abbreviation "PHISH_DOUBLE \<equiv> (10 :: byte)"
abbreviation "PHISH_RAW \<equiv> (11 :: byte)"
abbreviation "PHISH_STRING \<equiv> (12 :: byte)"
abbreviation "PHISH_INT8_ARRAY \<equiv> (13 :: byte)"
abbreviation "PHISH_INT16_ARRAY \<equiv> (14 :: byte)"
abbreviation "PHISH_INT32_ARRAY \<equiv> (15 :: byte)"
abbreviation "PHISH_INT64_ARRAY \<equiv> (16 :: byte)"
abbreviation "PHISH_UINT8_ARRAY \<equiv> (17 :: byte)"
abbreviation "PHISH_UINT16_ARRAY \<equiv> (18 :: byte)"
abbreviation "PHISH_UINT32_ARRAY \<equiv> (19 :: byte)"
abbreviation "PHISH_UINT64_ARRAY \<equiv> (20 :: byte)"
abbreviation "PHISH_FLOAT_ARRAY \<equiv> (21 :: byte)"
abbreviation "PHISH_DOUBLE_ARRAY \<equiv> (22 :: byte)"
abbreviation "PHISH_PICKLE \<equiv> (23 :: byte)"

section \<open>Packing\<close>

definition pack_count :: "'u phish_scheme \<Rightarrow> ('u phish_scheme, u32) res" where
  "pack_count s = bnd (load_at (g_pack_begin s) 0 4 s) (\<lambda>bs. Ret (le_word bs))"

definition set_pack_count :: "u32 \<Rightarrow> 'u phish_scheme \<Rightarrow> ('u phish_scheme, unit) res" where
  "set_pack_count n s = store_at (g_pack_begin s) 0 (le_bytes 4 n) s"

text \<open>Stores bytes at \<open>g_pack_end\<close> and moves it behind them.\<close>

definition pack_push :: "byte list \<Rightarrow> 'u phish_scheme \<Rightarrow> ('u phish_scheme, unit) res" where
  "pack_push bs s =
     bnd (store_at (g_pack_begin s) (g_pack_end s) bs s) (\<lambda>_ s.
       Ret () (s\<lparr>g_pack_end := g_pack_end s + length bs\<rparr>))"

text \<open>
  The check both templates start with. After \<open>phish_error\<close> returns (the abort was cancelled)
  the function goes on as if the value fitted.
\<close>

definition check_overflow ::
  "'u phish_scheme callbacks \<Rightarrow> nat \<Rightarrow> 'u phish_scheme \<Rightarrow> ('u phish_scheme, unit) res" where
  "check_overflow E n s =
     (if g_datum_size s < g_pack_end s + n then phish_error E ''Send buffer overflow.'' s
      else Ret () s)"

definition pack_value ::
  "'u phish_scheme callbacks \<Rightarrow> byte list \<Rightarrow> byte \<Rightarrow> 'u phish_scheme \<Rightarrow> ('u phish_scheme, unit) res"
where
  "pack_value E data ty s =
     bnd (check_overflow E (1 + length data) s) (\<lambda>_ s.
     bnd (pack_count s) (\<lambda>n s.
     bnd (set_pack_count (n + 1) s) (\<lambda>_ s.
     bnd (pack_push [ty] s) (\<lambda>_ s.
     pack_push data s))))"

text \<open>
  \<open>sz\<close> is \<open>sizeof(T)\<close> and \<open>data\<close> the bytes \<open>memcpy\<close> can read. A negative count becomes
  a huge \<open>size_t\<close>, and the pointer arithmetic leaves the address space.
\<close>

definition pack_array ::
  "'u phish_scheme callbacks \<Rightarrow> nat \<Rightarrow> byte list \<Rightarrow> int \<Rightarrow> byte \<Rightarrow> 'u phish_scheme
     \<Rightarrow> ('u phish_scheme, unit) res" where
  "pack_array E sz data cnt ty s =
     (if cnt < 0 then Fault
      else
        let bytes = nat cnt * sz in
        bnd (check_overflow E (1 + 4 + bytes) s) (\<lambda>_ s.
        bnd (pack_count s) (\<lambda>n s.
        bnd (set_pack_count (n + 1) s) (\<lambda>_ s.
        bnd (pack_push [ty] s) (\<lambda>_ s.
        bnd (pack_push (le_bytes 4 (of_int cnt :: u32)) s) (\<lambda>_ s.
        if length data < bytes then Fault else pack_push (take bytes data) s))))))"

section \<open>The typed entry points\<close>

definition phish_pack_char where "phish_pack_char E (v :: byte) = pack_value E [v] PHISH_CHAR"
definition phish_pack_int8 where "phish_pack_int8 E (v :: byte) = pack_value E [v] PHISH_INT8"
definition phish_pack_int16 where
  "phish_pack_int16 E (v :: u16) = pack_value E (le_bytes 2 v) PHISH_INT16"
definition phish_pack_int32 where
  "phish_pack_int32 E (v :: u32) = pack_value E (le_bytes 4 v) PHISH_INT32"
definition phish_pack_int64 where
  "phish_pack_int64 E (v :: u64) = pack_value E (le_bytes 8 v) PHISH_INT64"
definition phish_pack_uint8 where "phish_pack_uint8 E (v :: byte) = pack_value E [v] PHISH_UINT8"
definition phish_pack_uint16 where
  "phish_pack_uint16 E (v :: u16) = pack_value E (le_bytes 2 v) PHISH_UINT16"
definition phish_pack_uint32 where
  "phish_pack_uint32 E (v :: u32) = pack_value E (le_bytes 4 v) PHISH_UINT32"
definition phish_pack_uint64 where
  "phish_pack_uint64 E (v :: u64) = pack_value E (le_bytes 8 v) PHISH_UINT64"

text \<open>Floating-point values are packed as their bits.\<close>

definition phish_pack_float where
  "phish_pack_float E (v :: u32) = pack_value E (le_bytes 4 v) PHISH_FLOAT"
definition phish_pack_double where
  "phish_pack_double E (v :: u64) = pack_value E (le_bytes 8 v) PHISH_DOUBLE"

definition phish_pack_raw where
  "phish_pack_raw E data cnt = pack_array E 1 data cnt PHISH_RAW"

text \<open>A C string: the bytes before the first null, which \<open>strlen\<close> counts, and that null.\<close>

definition c_strlen :: "byte list \<Rightarrow> nat" where
  "c_strlen value = length (takeWhile (\<lambda>b. b \<noteq> 0) value)"

definition phish_pack_string where
  "phish_pack_string E value =
     (if 0 \<notin> set value then (\<lambda>s. Fault)
      else pack_array E 1 value (sint (of_nat (c_strlen value + 1) :: u32)) PHISH_STRING)"

definition phish_pack_int8_array where
  "phish_pack_int8_array E a cnt = pack_array E 1 a cnt PHISH_INT8_ARRAY"
definition phish_pack_int16_array where
  "phish_pack_int16_array E a cnt = pack_array E 2 a cnt PHISH_INT16_ARRAY"
definition phish_pack_int32_array where
  "phish_pack_int32_array E a cnt = pack_array E 4 a cnt PHISH_INT32_ARRAY"
definition phish_pack_int64_array where
  "phish_pack_int64_array E a cnt = pack_array E 8 a cnt PHISH_INT64_ARRAY"
definition phish_pack_uint8_array where
  "phish_pack_uint8_array E a cnt = pack_array E 1 a cnt PHISH_UINT8_ARRAY"
definition phish_pack_uint16_array where
  "phish_pack_uint16_array E a cnt = pack_array E 2 a cnt PHISH_UINT16_ARRAY"
definition phish_pack_uint32_array where
  "phish_pack_uint32_array E a cnt = pack_array E 4 a cnt PHISH_UINT32_ARRAY"
definition phish_pack_uint64_array where
  "phish_pack_uint64_array E a cnt = pack_array E 8 a cnt PHISH_UINT64_ARRAY"
definition phish_pack_float_array where
  "phish_pack_float_array E a cnt = pack_array E 4 a cnt PHISH_FLOAT_ARRAY"
definition phish_pack_double_array where
  "phish_pack_double_array E a cnt = pack_array E 8 a cnt PHISH_DOUBLE_ARRAY"
definition phish_pack_pickle where
  "phish_pack_pickle E a cnt = pack_array E 1 a cnt PHISH_PICKLE"

section \<open>Unpacking\<close>

text \<open>The result is where the data starts in the unpack buffer and the number of elements.\<close>

definition unpack_value ::
  "nat \<Rightarrow> 'u phish_scheme \<Rightarrow> ('u phish_scheme, int \<times> int) res" where
  "unpack_value sz s =
     Ret (g_unpack_current s, 1) (s\<lparr>g_unpack_current := g_unpack_current s + int sz\<rparr>)"

definition unpack_array ::
  "nat \<Rightarrow> 'u phish_scheme \<Rightarrow> ('u phish_scheme, int \<times> int) res" where
  "unpack_array sz s =
     bnd (load_at (g_unpack_begin s) (g_unpack_current s) 4 s) (\<lambda>bs s.
       let cnt = sint (le_word bs :: u32); data = g_unpack_current s + 4 in
       Ret (data, cnt) (s\<lparr>g_unpack_current := data + cnt * int sz\<rparr>))"

text \<open>The switch over the type byte: array or value, and \<open>sizeof(T)\<close>.\<close>

definition unpack_switch :: "byte \<Rightarrow> (bool \<times> nat) option" where
  "unpack_switch ty =
     (if ty = PHISH_CHAR then Some (False, 1)
      else if ty = PHISH_INT8 then Some (False, 1)
      else if ty = PHISH_INT16 then Some (False, 2)
      else if ty = PHISH_INT32 then Some (False, 4)
      else if ty = PHISH_INT64 then Some (False, 8)
      else if ty = PHISH_UINT8 then Some (False, 1)
      else if ty = PHISH_UINT16 then Some (False, 2)
      else if ty = PHISH_UINT32 then Some (False, 4)
      else if ty = PHISH_UINT64 then Some (False, 8)
      else if ty = PHISH_FLOAT then Some (False, 4)
      else if ty = PHISH_DOUBLE then Some (False, 8)
      else if ty = PHISH_RAW then Some (True, 1)
      else if ty = PHISH_STRING then Some (True, 1)
      else if ty = PHISH_INT8_ARRAY then Some (True, 1)
      else if ty = PHISH_INT16_ARRAY then Some (True, 2)
      else if ty = PHISH_INT32_ARRAY then Some (True, 4)
      else if ty = PHISH_INT64_ARRAY then Some (True, 8)
      else if ty = PHISH_UINT8_ARRAY then Some (True, 1)
      else if ty = PHISH_UINT16_ARRAY then Some (True, 2)
      else if ty = PHISH_UINT32_ARRAY then Some (True, 4)
      else if ty = PHISH_UINT64_ARRAY then Some (True, 8)
      else if ty = PHISH_FLOAT_ARRAY then Some (True, 4)
      else if ty = PHISH_DOUBLE_ARRAY then Some (True, 8)
      else if ty = PHISH_PICKLE then Some (True, 1)
      else None)"

text \<open>Returns the type (or -1) and, unless it failed, the data's place and the count.\<close>

definition phish_unpack ::
  "'u phish_scheme callbacks \<Rightarrow> 'u phish_scheme
     \<Rightarrow> ('u phish_scheme, int \<times> (int \<times> int) option) res" where
  "phish_unpack E s =
     (if int (g_unpack_end s) \<le> g_unpack_current s
      then phish_return_error E ''No data to unpack.'' (-1, None) s
      else bnd (load_at (g_unpack_begin s) (g_unpack_current s) 1 s) (\<lambda>bs s.
        let ty = hd bs; s = s\<lparr>g_unpack_current := g_unpack_current s + 1\<rparr> in
        case unpack_switch ty of
          None \<Rightarrow> phish_return_error E ''Unknown datum type.'' (-1, None) s
        | Some (False, sz) \<Rightarrow> bnd (unpack_value sz s) (\<lambda>r. Ret (uint ty, Some r))
        | Some (True, sz) \<Rightarrow> bnd (unpack_array sz s) (\<lambda>r. Ret (uint ty, Some r))))"

definition phish_repack :: "'u phish_scheme \<Rightarrow> ('u phish_scheme, unit) res" where
  "phish_repack s =
     (let s = release_datum (g_pack_begin s) s;
          s = s\<lparr>g_pack_begin := g_unpack_begin s, g_pack_end := g_unpack_end s\<rparr>;
          (d, s) = use_datum s
      in Ret () (s\<lparr>g_unpack_begin := d, g_unpack_current := 0, g_unpack_end := 0\<rparr>))"

end
