(* ===== verification/Phish_Items.thy ===== *)
theory Phish_Items
  imports Phish_Pack
begin

text \<open>
  The abstract view of the pack and unpack buffers: a list of items. Packing appends an item
  exactly when it fits, unpacking takes the first item off, and without an abort callback an
  item that does not fit ends the process before anything is written out of bounds.
\<close>

section \<open>Items\<close>

datatype item = Scalar byte "byte list" | Array byte u32 "byte list"

fun item_bytes :: "item \<Rightarrow> byte list" where
  "item_bytes (Scalar ty bs) = ty # bs"
| "item_bytes (Array ty n bs) = ty # le_bytes 4 n @ bs"

fun item_ok :: "item \<Rightarrow> bool" where
  "item_ok (Scalar ty bs) \<longleftrightarrow> unpack_switch ty = Some (False, length bs)"
| "item_ok (Array ty n bs) \<longleftrightarrow>
     (case unpack_switch ty of
        Some (True, sz) \<Rightarrow> length bs = unat n * sz \<and> unat n < 2 ^ 31
      | _ \<Rightarrow> False)"

fun item_type :: "item \<Rightarrow> byte" where
  "item_type (Scalar ty bs) = ty"
| "item_type (Array ty n bs) = ty"

fun item_count :: "item \<Rightarrow> int" where
  "item_count (Scalar ty bs) = 1"
| "item_count (Array ty n bs) = uint n"

fun item_data :: "item \<Rightarrow> byte list" where
  "item_data (Scalar ty bs) = bs"
| "item_data (Array ty n bs) = bs"

text \<open>The call of the library that packs an item.\<close>

fun pack_item ::
  "'u phish_scheme callbacks \<Rightarrow> item \<Rightarrow> 'u phish_scheme \<Rightarrow> ('u phish_scheme, unit) res" where
  "pack_item E (Scalar ty bs) = pack_value E bs ty"
| "pack_item E (Array ty n bs) =
     pack_array E (snd (the (unpack_switch ty))) bs (uint n) ty"

primrec pack_items ::
  "'u phish_scheme callbacks \<Rightarrow> item list \<Rightarrow> 'u phish_scheme \<Rightarrow> ('u phish_scheme, unit) res"
where
  "pack_items E [] s = Ret () s"
| "pack_items E (it # its) s = bnd (pack_item E it s) (\<lambda>_. pack_items E its)"

definition body_bytes :: "item list \<Rightarrow> byte list" where
  "body_bytes its = le_bytes 4 (of_nat (length its) :: u32) @ concat (map item_bytes its)"

lemma length_item_bytes_pos: "0 < length (item_bytes it)"
  by (cases it) simp_all

section \<open>The pack buffer\<close>

abbreviation pack_datum :: "'u phish_scheme \<Rightarrow> byte list" where
  "pack_datum s \<equiv> g_datum_pool s ! g_pack_begin s"

definition packed :: "item list \<Rightarrow> 'u phish_scheme \<Rightarrow> bool" where
  "packed its s \<longleftrightarrow>
     pool_ok s \<and> g_pack_end s = length (body_bytes its) \<and> g_pack_end s \<le> g_datum_size s \<and>
     take (g_pack_end s) (pack_datum s) = body_bytes its"

definition set_pack :: "byte list \<Rightarrow> nat \<Rightarrow> 'u phish_scheme \<Rightarrow> 'u phish_scheme" where
  "set_pack d e s =
     s\<lparr>g_datum_pool := (g_datum_pool s)[g_pack_begin s := d], g_pack_end := e\<rparr>"

lemma set_pack_simps [simp]:
  "g_pack_begin (set_pack d e s) = g_pack_begin s"
  "g_pack_end (set_pack d e s) = e"
  "g_datum_size (set_pack d e s) = g_datum_size s"
  "set_pack d' e' (set_pack d e s) = set_pack d' e' s"
  by (simp_all add: set_pack_def)

lemma pack_begin_lt: "pool_ok s \<Longrightarrow> g_pack_begin s < length (g_datum_pool s)"
  by (simp add: pool_ok_def)

lemma pack_datum_set_pack [simp]:
  "pool_ok s \<Longrightarrow> g_datum_pool (set_pack d e s) ! g_pack_begin s = d"
  by (simp add: set_pack_def pack_begin_lt)

lemma pool_ok_set_pack [simp]:
  "pool_ok s \<Longrightarrow> length d = g_datum_size s \<Longrightarrow> pool_ok (set_pack d e s)"
  by (auto simp: pool_ok_def set_pack_def dest!: set_update_subset_insert [THEN subsetD])

lemma set_pack_same: "pool_ok s \<Longrightarrow> set_pack (pack_datum s) (g_pack_end s) s = s"
  by (simp add: set_pack_def)

lemma pack_push_ok:
  assumes "pool_ok s" "g_pack_end s + length bs \<le> g_datum_size s"
  shows "pack_push bs s =
    Ret () (set_pack (splice_at (pack_datum s) (g_pack_end s) bs) (g_pack_end s + length bs) s)"
  using assms pool_ok_sizes(1) [of s] pack_begin_lt [of s]
  by (simp add: pack_push_def store_at_def in_datum_def set_pack_def pool_ok_def)

lemma pack_push_overflow:
  assumes "pool_ok s" "g_datum_size s < g_pack_end s + length bs"
  shows "pack_push bs s = Fault"
  using assms pool_ok_sizes(1) [of s]
  by (simp add: pack_push_def store_at_def in_datum_def)

lemma pack_count_ok:
  assumes "pool_ok s" "4 \<le> g_datum_size s"
  shows "pack_count s = Ret (le_word (take 4 (pack_datum s))) s"
  using assms pool_ok_sizes(1) [of s] pack_begin_lt [of s]
  by (simp add: pack_count_def load_at_def in_datum_def seg_def pool_ok_def)

lemma set_pack_count_ok:
  assumes "pool_ok s" "4 \<le> g_datum_size s"
  shows "set_pack_count n s =
    Ret () (set_pack (splice_at (pack_datum s) 0 (le_bytes 4 n)) (g_pack_end s) s)"
  using assms pool_ok_sizes(1) [of s] pack_begin_lt [of s]
  by (simp add: set_pack_count_def store_at_def in_datum_def set_pack_def pool_ok_def)

text \<open>Counting up and appending at the end of the used part.\<close>

definition grown :: "byte list \<Rightarrow> nat \<Rightarrow> byte list \<Rightarrow> byte list" where
  "grown d e bs =
     splice_at (splice_at d 0 (le_bytes 4 (le_word (take 4 d) + 1 :: u32))) e bs"

lemma length_grown [simp]:
  "4 \<le> e \<Longrightarrow> e + length bs \<le> length d \<Longrightarrow> length (grown d e bs) = length d"
  by (simp add: grown_def)

lemma splice_splice_adjacent:
  "off + length xs + length ys \<le> length m \<Longrightarrow>
   splice_at (splice_at m off xs) (off + length xs) ys = splice_at m off (xs @ ys)"
  by (simp add: splice_at_def add_ac)

lemma pack_value_ok:
  assumes "pool_ok s" "4 \<le> g_pack_end s" "g_pack_end s + 1 + length bs \<le> g_datum_size s"
  shows "pack_value E bs ty s =
    Ret () (set_pack (grown (pack_datum s) (g_pack_end s) (ty # bs))
              (g_pack_end s + 1 + length bs) s)"
  using assms pool_ok_sizes(1) [of s] splice_splice_adjacent [where xs = "[ty]" and ys = bs]
  by (simp add: pack_value_def check_overflow_def pack_count_ok set_pack_count_ok pack_push_ok
      grown_def)

lemma pack_array_ok:
  fixes n :: u32
  assumes "pool_ok s" "4 \<le> g_pack_end s" "length bs = unat n * sz"
    "g_pack_end s + 5 + length bs \<le> g_datum_size s"
  shows "pack_array E sz bs (uint n) ty s =
    Ret () (set_pack (grown (pack_datum s) (g_pack_end s) (ty # le_bytes 4 n @ bs))
              (g_pack_end s + 5 + length bs) s)"
  using assms pool_ok_sizes(1) [of s]
    splice_splice_adjacent [where xs = "[ty]" and ys = "le_bytes 4 n"]
    splice_splice_adjacent [where xs = "ty # le_bytes 4 n" and ys = bs]
  by (simp add: pack_array_def Let_def check_overflow_def pack_count_ok set_pack_count_ok
      pack_push_ok grown_def ucast_id add.commute [of 5])

lemma pack_item_fits:
  assumes "pool_ok s" "4 \<le> g_pack_end s" "item_ok it"
    "g_pack_end s + length (item_bytes it) \<le> g_datum_size s"
  shows "pack_item E it s =
    Ret () (set_pack (grown (pack_datum s) (g_pack_end s) (item_bytes it))
              (g_pack_end s + length (item_bytes it)) s)"
  using assms
  by (cases it) (auto simp: pack_value_ok pack_array_ok add.assoc split: option.splits bool.splits)

lemma grown_take:
  assumes "take e d = le_bytes 4 (n :: u32) @ rest" "e = 4 + length rest"
    "e + length bs \<le> length d"
  shows "take (e + length bs) (grown d e bs) = le_bytes 4 (n + 1) @ rest @ bs"
proof -
  have "take 4 d = take 4 (take e d)" using assms(2) by (simp add: min_def)
  also have "\<dots> = le_bytes 4 n" by (simp add: assms(1))
  finally have n: "take 4 d = le_bytes 4 n" .
  have "drop 4 (take e d) = rest" by (simp add: assms(1))
  then have "take (length rest) (drop 4 d) = rest"
    using assms(2) by (simp add: take_drop [symmetric] drop_take)
  with assms(2,3) show ?thesis
    by (simp add: grown_def splice_at_def n take_drop add.commute)
qed

lemma packed_sizes: "packed its s \<Longrightarrow> pool_ok s \<and> 4 \<le> g_pack_end s \<and> g_pack_end s \<le> g_datum_size s"
  by (auto simp: packed_def body_bytes_def)

lemma packed_pack_item:
  assumes "packed its s" "item_ok it"
    "g_pack_end s + length (item_bytes it) \<le> g_datum_size s"
  shows "\<exists>d e. pack_item E it s = Ret () (set_pack d e s) \<and> packed (its @ [it]) (set_pack d e s)"
proof -
  let ?e = "g_pack_end s" and ?bs = "item_bytes it"
  have ok: "pool_ok s" "4 \<le> ?e" using assms(1) packed_sizes by auto
  have len: "length (pack_datum s) = g_datum_size s" using ok(1) by (rule pool_ok_sizes)
  have "take ?e (pack_datum s) =
      le_bytes 4 (of_nat (length its) :: u32) @ concat (map item_bytes its)"
    "?e = 4 + length (concat (map item_bytes its))"
    using assms(1) by (auto simp: packed_def body_bytes_def)
  from grown_take [OF this, of ?bs] assms(3) ok len
  have "packed (its @ [it]) (set_pack (grown (pack_datum s) ?e ?bs) (?e + length ?bs) s)"
    using \<open>?e = 4 + _\<close> by (simp add: packed_def body_bytes_def add.commute)
  with pack_item_fits [OF ok assms(2,3)] show ?thesis by blast
qed

text \<open>A whole list of items, if it fits.\<close>

lemma packed_pack_items:
  assumes "packed its s" "\<forall>it \<in> set its'. item_ok it"
    "g_pack_end s + length (concat (map item_bytes its')) \<le> g_datum_size s"
  shows "\<exists>d e. pack_items E its' s = Ret () (set_pack d e s) \<and>
    packed (its @ its') (set_pack d e s)"
  using assms
proof (induction its' arbitrary: its s)
  case Nil
  then show ?case
    by (intro exI [of _ "pack_datum s"] exI [of _ "g_pack_end s"])
      (simp add: set_pack_same packed_sizes)
next
  case (Cons it its')
  from Cons.prems obtain d e where
    d: "pack_item E it s = Ret () (set_pack d e s)" "packed (its @ [it]) (set_pack d e s)"
    by (fastforce dest: packed_pack_item [where E = E and it = it])
  have "e = g_pack_end s + length (item_bytes it)"
    using d(2) Cons.prems(1) by (simp add: packed_def body_bytes_def)
  with Cons.prems Cons.IH [OF d(2)] d(1) show ?case
    by fastforce
qed

text \<open>
  What does not fit: with no abort callback the process exits, whatever the item; if a callback
  cancels the abort, the value is written past the end of the buffer.
\<close>

lemma check_overflow_exits:
  assumes "g_at_abort s = None" "g_datum_size s < g_pack_end s + n"
  shows "\<exists>l. check_overflow E n s = Exited (s\<lparr>stderr_log := l\<rparr>)"
  using assms phish_error_no_callback by (simp add: check_overflow_def)

lemma pack_item_too_big:
  assumes "g_at_abort s = None" "item_ok it"
    "g_datum_size s < g_pack_end s + length (item_bytes it)"
  shows "\<exists>l. pack_item E it s = Exited (s\<lparr>stderr_log := l\<rparr>)"
proof -
  obtain l where "check_overflow E (length (item_bytes it)) s = Exited (s\<lparr>stderr_log := l\<rparr>)"
    using check_overflow_exits [OF assms(1,3)] by blast
  then show ?thesis
    using assms(2)
    by (cases it)
      (auto simp: pack_value_def pack_array_def Let_def split: option.splits bool.splits)
qed

lemma pack_push_fault:
  assumes "pool_ok s" "pack_push bs s \<noteq> Fault"
  shows "\<exists>d. length d = g_datum_size s \<and>
    pack_push bs s = Ret () (set_pack d (g_pack_end s + length bs) s)"
proof -
  have "g_pack_end s + length bs \<le> g_datum_size s"
    using assms pack_push_overflow [of s bs] by (meson not_less)
  then show ?thesis
    using assms(1) pool_ok_sizes(1) [of s]
    by (intro exI [of _ "splice_at (pack_datum s) (g_pack_end s) bs"]) (simp add: pack_push_ok)
qed

text \<open>Several stores one after the other fail together when their bytes do not fit.\<close>

primrec pack_pushes :: "byte list list \<Rightarrow> 'u phish_scheme \<Rightarrow> ('u phish_scheme, unit) res" where
  "pack_pushes [] = Ret ()"
| "pack_pushes (bs # bss) = (\<lambda>s. bnd (pack_push bs s) (\<lambda>_. pack_pushes bss))"

lemma pack_pushes_fault:
  assumes "pool_ok s" "g_pack_end s \<le> g_datum_size s"
    "g_datum_size s < g_pack_end s + length (concat bss)"
  shows "pack_pushes bss s = Fault"
  using assms
proof (induction bss arbitrary: s)
  case (Cons bs bss)
  show ?case
  proof (cases "pack_push bs s = Fault")
    case False
    then obtain d where d: "length d = g_datum_size s"
        "pack_push bs s = Ret () (set_pack d (g_pack_end s + length bs) s)"
      using pack_push_fault [OF Cons.prems(1)] by blast
    have "g_pack_end s + length bs \<le> g_datum_size s"
      using False pack_push_overflow [OF Cons.prems(1)] by (meson not_less)
    then show ?thesis
      using Cons.IH [of "set_pack d (g_pack_end s + length bs) s"] Cons.prems d
      by (simp add: add.assoc)
  qed simp
qed simp

lemma pack_item_pushes:
  assumes "item_ok it"
  shows "pack_item E it s =
    bnd (check_overflow E (length (item_bytes it)) s) (\<lambda>_ s.
    bnd (pack_count s) (\<lambda>n s.
    bnd (set_pack_count (n + 1) s) (\<lambda>_.
      pack_pushes (case it of Scalar ty bs \<Rightarrow> [[ty], bs] | Array ty n bs \<Rightarrow> [[ty], le_bytes 4 n, bs]))))"
  using assms
  by (cases it)
    (auto simp: pack_value_def pack_array_def Let_def ucast_id add.commute
      split: option.splits bool.splits)

lemma pack_item_past_end:
  assumes "packed its s" "item_ok it" "cancels E s"
    "g_datum_size s < g_pack_end s + length (item_bytes it)"
  shows "pack_item E it s = Fault"
proof -
  let ?s = "phish_message ''ERROR'' ''Send buffer overflow.'' s"
  have ok: "pool_ok ?s" "4 \<le> g_datum_size ?s" "g_pack_end ?s \<le> g_datum_size ?s"
    using packed_sizes [OF assms(1)] by (auto simp: phish_message_def pool_ok_def)
  have check: "check_overflow E (length (item_bytes it)) s = Ret () ?s"
    using assms(3,4) by (simp add: check_overflow_def phish_error_cancelled)
  have size: "g_datum_size ?s < g_pack_end ?s + length (item_bytes it)"
    using assms(4) by (simp add: phish_message_def)
  have "pack_pushes bss (set_pack d (g_pack_end ?s) ?s) = Fault"
    if "length d = g_datum_size ?s" "concat bss = item_bytes it" for d bss
    using pack_pushes_fault [of "set_pack d (g_pack_end ?s) ?s" bss] ok size that by simp
  moreover have "length (pack_datum ?s) = g_datum_size ?s" using pool_ok_sizes(1) [OF ok(1)] .
  ultimately show ?thesis
    using ok unfolding pack_item_pushes [OF assms(2)] check
    by (cases it) (simp_all add: pack_count_ok set_pack_count_ok del: pack_pushes.simps)
qed

section \<open>The unpack buffer\<close>

abbreviation unpack_datum :: "'u phish_scheme \<Rightarrow> byte list" where
  "unpack_datum s \<equiv> g_datum_pool s ! g_unpack_begin s"

text \<open>The items between \<open>g_unpack_current\<close> and \<open>g_unpack_end\<close>.\<close>

definition unpacking :: "item list \<Rightarrow> 'u phish_scheme \<Rightarrow> bool" where
  "unpacking its s \<longleftrightarrow>
     pool_ok s \<and> 0 \<le> g_unpack_current s \<and> g_unpack_end s \<le> g_datum_size s \<and>
     g_unpack_current s + int (length (concat (map item_bytes its))) = int (g_unpack_end s) \<and>
     seg (nat (g_unpack_current s)) (length (concat (map item_bytes its))) (unpack_datum s) =
       concat (map item_bytes its)"

lemma load_unpack:
  assumes "pool_ok s" "0 \<le> off" "off + int n \<le> int (g_datum_size s)"
  shows "load_at (g_unpack_begin s) off n s = Ret (seg (nat off) n (unpack_datum s)) s"
  using assms pool_ok_sizes(2) [of s] by (simp add: load_at_def in_datum_def pool_ok_def)

lemma pool_ok_unpack_current [simp]: "pool_ok (s\<lparr>g_unpack_current := c\<rparr>) = pool_ok s"
  by (simp add: pool_ok_def)

lemma seg_prefix:
  assumes "seg lo (length (xs @ ys)) m = xs @ ys"
  shows "seg lo (length xs) m = xs" "seg (lo + length xs) (length ys) m = ys"
proof -
  have "seg lo (length xs) m @ seg (lo + length xs) (length ys) m = xs @ ys"
    using assms by (simp add: seg_append_split)
  moreover have "length (seg lo (length xs) m) = length xs"
    using arg_cong [OF calculation, of length] by (simp add: seg_def)
  ultimately show "seg lo (length xs) m = xs" "seg (lo + length xs) (length ys) m = ys"
    by simp_all
qed

lemma phish_unpack_Scalar:
  assumes "unpacking (Scalar ty bs # its) s" "item_ok (Scalar ty bs)"
  defines "c \<equiv> g_unpack_current s"
  shows "phish_unpack E s = Ret (uint ty, Some (c + 1, 1)) (s\<lparr>g_unpack_current := c + 1 + int (length bs)\<rparr>)"
    "seg (nat (c + 1)) (length bs) (unpack_datum s) = bs"
    "unpacking its (s\<lparr>g_unpack_current := c + 1 + int (length bs)\<rparr>)"
proof -
  let ?rest = "concat (map item_bytes its)"
  have u: "pool_ok s" "0 \<le> c" "g_unpack_end s \<le> g_datum_size s"
      "c + 1 + int (length bs) + int (length ?rest) = int (g_unpack_end s)"
      "seg (nat c) (length ([ty] @ bs @ ?rest)) (unpack_datum s) = [ty] @ bs @ ?rest"
    using assms(1) by (auto simp: unpacking_def c_def)
  note p = seg_prefix [OF u(5)]
  note q = seg_prefix [OF p(2)]
  have nats: "nat (c + 1) = nat c + 1" "nat (c + 1 + int (length bs)) = nat c + 1 + length bs"
    using u(2) by linarith+
  have "load_at (g_unpack_begin s) c 1 s = Ret [ty] s"
    using load_unpack [OF u(1,2), of 1] u(3,4) p(1) by simp
  then show "phish_unpack E s = Ret (uint ty, Some (c + 1, 1)) (s\<lparr>g_unpack_current := c + 1 + int (length bs)\<rparr>)"
    using u(4) assms(2) by (simp add: phish_unpack_def c_def [symmetric] unpack_value_def Let_def)
  show "seg (nat (c + 1)) (length bs) (unpack_datum s) = bs"
    using q(1) nats by simp
  show "unpacking its (s\<lparr>g_unpack_current := c + 1 + int (length bs)\<rparr>)"
    using u q(2) nats by (simp add: unpacking_def)
qed

lemma sint_small_u32:
  fixes n :: u32
  assumes "unat n < 2 ^ 31"
  shows "sint n = uint n"
proof -
  have "int (unat n) < int (2 ^ 31)"
    using assms by (simp only: of_nat_less_iff)
  then have "uint n < 2 ^ 31" by simp
  moreover have "- (2 ^ 31) \<le> uint n"
    by (rule order_trans [of _ 0]) simp_all
  ultimately show ?thesis
    unfolding sint_uint by (intro signed_take_bit_int_eq_self) simp_all
qed

lemma phish_unpack_Array:
  assumes "unpacking (Array ty n bs # its) s" "item_ok (Array ty n bs)"
  defines "c \<equiv> g_unpack_current s"
  shows "phish_unpack E s = Ret (uint ty, Some (c + 5, uint n))
      (s\<lparr>g_unpack_current := c + 5 + int (length bs)\<rparr>)"
    "seg (nat (c + 5)) (length bs) (unpack_datum s) = bs"
    "unpacking its (s\<lparr>g_unpack_current := c + 5 + int (length bs)\<rparr>)"
proof -
  let ?rest = "concat (map item_bytes its)" and ?n = "le_bytes 4 n"
  have u: "pool_ok s" "0 \<le> c" "g_unpack_end s \<le> g_datum_size s"
      "c + 5 + int (length bs) + int (length ?rest) = int (g_unpack_end s)"
      "seg (nat c) (length ([ty] @ ?n @ bs @ ?rest)) (unpack_datum s) = [ty] @ ?n @ bs @ ?rest"
    using assms(1) by (auto simp: unpacking_def c_def)
  obtain sz where sz: "unpack_switch ty = Some (True, sz)" "int (length bs) = uint n * int sz"
      "sint n = uint n"
    using assms(2) by (auto simp: sint_small_u32 split: option.splits bool.splits)
  note p = seg_prefix [OF u(5)]
  note q = seg_prefix [OF p(2)]
  note r = seg_prefix [OF q(2)]
  have nats: "nat (c + 1) = nat c + 1" "nat (c + 5) = nat c + 5"
      "nat (c + 5 + int (length bs)) = nat c + 5 + length bs"
    using u(2) by linarith+
  have "load_at (g_unpack_begin s) c 1 s = Ret [ty] s"
    using load_unpack [OF u(1,2), of 1] u(3,4) p(1) by simp
  moreover have "load_at (g_unpack_begin s) (c + 1) 4 (s\<lparr>g_unpack_current := c + 1\<rparr>) =
      Ret ?n (s\<lparr>g_unpack_current := c + 1\<rparr>)"
    using load_unpack [of "s\<lparr>g_unpack_current := c + 1\<rparr>" "c + 1" 4] u q(1) nats by simp
  ultimately show "phish_unpack E s = Ret (uint ty, Some (c + 5, uint n))
      (s\<lparr>g_unpack_current := c + 5 + int (length bs)\<rparr>)"
    using u(4) sz by (simp add: phish_unpack_def c_def [symmetric] unpack_array_def Let_def)
  show "seg (nat (c + 5)) (length bs) (unpack_datum s) = bs"
    using r(1) nats by (simp add: add.commute [of 5])
  show "unpacking its (s\<lparr>g_unpack_current := c + 5 + int (length bs)\<rparr>)"
    using u r(2) nats by (simp add: unpacking_def add.commute [of 5] add.left_commute [of 5])
qed

text \<open>Both kinds of item in one rule: what the caller gets is the item's type, count and bytes.\<close>

lemma phish_unpack_item:
  assumes "unpacking (it # its) s" "item_ok it"
  shows "\<exists>off e. phish_unpack E s =
      Ret (uint (item_type it), Some (off, item_count it)) (s\<lparr>g_unpack_current := e\<rparr>) \<and>
    load_at (g_unpack_begin s) off (length (item_data it)) (s\<lparr>g_unpack_current := e\<rparr>) =
      Ret (item_data it) (s\<lparr>g_unpack_current := e\<rparr>) \<and>
    unpacking its (s\<lparr>g_unpack_current := e\<rparr>)"
proof -
  have bounds: "0 \<le> g_unpack_current s" "g_unpack_current s + int (length (item_bytes it)) \<le> int (g_datum_size s)"
      "pool_ok s"
    using assms(1) by (auto simp: unpacking_def)
  show ?thesis
  proof (cases it)
    case (Scalar ty bs)
    note f = phish_unpack_Scalar [OF assms [unfolded Scalar]]
    show ?thesis
      using f bounds load_unpack [of "s\<lparr>g_unpack_current := g_unpack_current s + 1 + int (length bs)\<rparr>"
          "g_unpack_current s + 1" "length bs"]
      by (intro exI [of _ "g_unpack_current s + 1"]
          exI [of _ "g_unpack_current s + 1 + int (length bs)"]) (simp add: Scalar)
  next
    case (Array ty n bs)
    note f = phish_unpack_Array [OF assms [unfolded Array]]
    show ?thesis
      using f bounds load_unpack [of "s\<lparr>g_unpack_current := g_unpack_current s + 5 + int (length bs)\<rparr>"
          "g_unpack_current s + 5" "length bs"]
      by (intro exI [of _ "g_unpack_current s + 5"]
          exI [of _ "g_unpack_current s + 5 + int (length bs)"]) (simp add: Array)
  qed
qed

lemma phish_unpack_empty:
  assumes "unpacking [] s"
  shows "phish_unpack E s = phish_return_error E ''No data to unpack.'' (-1, None) s"
  using assms by (simp add: phish_unpack_def unpacking_def)

text \<open>A receiver that reads \<open>n\<close> values, as the minnows do.\<close>

primrec unpack_items ::
  "'u phish_scheme callbacks \<Rightarrow> (byte \<Rightarrow> int \<Rightarrow> nat) \<Rightarrow> nat \<Rightarrow> 'u phish_scheme
     \<Rightarrow> ('u phish_scheme, (int \<times> int \<times> byte list) list) res" where
  "unpack_items E width 0 s = Ret [] s"
| "unpack_items E width (Suc n) s =
     bnd (phish_unpack E s) (\<lambda>r s.
       case r of
         (ty, None) \<Rightarrow> Ret [(ty, 0, [])] s
       | (ty, Some (off, cnt)) \<Rightarrow>
           bnd (load_at (g_unpack_begin s) off (width (of_int ty) cnt) s) (\<lambda>bs s.
           bnd (unpack_items E width n s) (\<lambda>rest. Ret ((ty, cnt, bs) # rest))))"

definition type_width :: "byte \<Rightarrow> int \<Rightarrow> nat" where
  "type_width ty cnt =
     (case unpack_switch ty of
        None \<Rightarrow> 0
      | Some (False, sz) \<Rightarrow> sz
      | Some (True, sz) \<Rightarrow> nat cnt * sz)"

lemma type_width_item:
  "item_ok it \<Longrightarrow> type_width (item_type it) (item_count it) = length (item_data it)"
  by (cases it) (auto simp: type_width_def split: option.splits bool.splits)

definition item_view :: "item \<Rightarrow> int \<times> int \<times> byte list" where
  "item_view it = (uint (item_type it), item_count it, item_data it)"

lemma unpack_items_all:
  assumes "unpacking its s" "\<forall>it \<in> set its. item_ok it"
  shows "\<exists>e. unpack_items E type_width (length its) s =
    Ret (map item_view its) (s\<lparr>g_unpack_current := e\<rparr>) \<and> unpacking [] (s\<lparr>g_unpack_current := e\<rparr>)"
  using assms
proof (induction its arbitrary: s)
  case Nil
  then show ?case
    by (intro exI [of _ "g_unpack_current s"]) simp
next
  case (Cons it its)
  then obtain off e where e:
      "phish_unpack E s =
        Ret (uint (item_type it), Some (off, item_count it)) (s\<lparr>g_unpack_current := e\<rparr>)"
      "load_at (g_unpack_begin s) off (length (item_data it)) (s\<lparr>g_unpack_current := e\<rparr>) =
        Ret (item_data it) (s\<lparr>g_unpack_current := e\<rparr>)"
      "unpacking its (s\<lparr>g_unpack_current := e\<rparr>)"
    using phish_unpack_item by (metis list.set_intros(1))
  with Cons obtain e' where
      "unpack_items E type_width (length its) (s\<lparr>g_unpack_current := e\<rparr>) =
        Ret (map item_view its) (s\<lparr>g_unpack_current := e'\<rparr>)"
      "unpacking [] (s\<lparr>g_unpack_current := e'\<rparr>)"
    by fastforce
  with e Cons.prems(2) show ?case
    by (intro exI [of _ e']) (simp add: type_width_item item_view_def)
qed

section \<open>Properties\<close>

text \<open>A process with empty buffers of \<open>N\<close> bytes and the given output connections.\<close>

definition sample_process :: "nat \<Rightarrow> (int, output_connection list) smap \<Rightarrow> phish" where
  "sample_process N m = phish_start\<lparr>g_initialized := True, g_checked := True, g_datum_size := N,
     g_datum_pool := [replicate N 0, replicate N 0], g_pack_begin := 0, g_pack_end := 4,
     g_unpack_begin := 1, g_output_connections := m\<rparr>"

lemma sample_packed: "4 \<le> N \<Longrightarrow> packed [] (sample_process N m)"
  by (simp add: sample_process_def packed_def pool_ok_def body_bytes_def phish_start_def
      take_replicate) (simp add: eval_nat_numeral)

lemma packed_at_abort [simp]: "packed its (s\<lparr>g_at_abort := f\<rparr>) = packed its s"
  by (simp add: packed_def pool_ok_def)

text \<open>
  C22: The pack buffer implements a list of items: as long as the encoded items fit the datum, the
  pack calls succeed in any number and order and append to the list, where a buffer that stands
  for a list holds its length and the encodings of its items.
\<close>

theorem pack_appends:
  assumes "packed its s" "\<forall>it \<in> set its'. item_ok it"
    "g_pack_end s + length (concat (map item_bytes its')) \<le> g_datum_size s"
  shows "\<exists>t. pack_items E its' s = Ret () t \<and> packed (its @ its') t"
  using packed_pack_items [OF assms] by blast

theorem pack_appends_witness:
  "\<exists>t. pack_items no_callbacks [Scalar PHISH_INT16 [1, 2], Array PHISH_STRING 2 [104, 0]]
      (sample_process 16 []) = Ret () t \<and>
    packed ([] @ [Scalar PHISH_INT16 [1, 2], Array PHISH_STRING 2 [104, 0]]) t"
proof (rule pack_appends)
  show "packed [] (sample_process 16 [])" by (simp add: sample_packed)
qed (simp_all add: unpack_switch_def sample_process_def)

text \<open>
  C24: An item that does not fit ends a process without an abort callback before anything is
  written: the datum pool is untouched.
\<close>

theorem pack_overflow_exits:
  assumes "g_at_abort s = None" "item_ok it"
    "g_datum_size s < g_pack_end s + length (item_bytes it)"
  shows "\<exists>t. pack_item E it s = Exited t \<and> g_datum_pool t = g_datum_pool s \<and>
    g_pack_end t = g_pack_end s"
  using pack_item_too_big [OF assms, of E] by auto

theorem pack_overflow_exits_witness:
  "\<exists>t. pack_item no_callbacks (Scalar PHISH_INT64 [1, 2, 3, 4, 5, 6, 7, 8]) (sample_process 12 []) = Exited t \<and>
    g_datum_pool t = g_datum_pool (sample_process 12 []) \<and>
    g_pack_end t = g_pack_end (sample_process 12 [])"
  by (rule pack_overflow_exits) (simp_all add: unpack_switch_def sample_process_def phish_start_def)

text \<open>
  C25: With an abort callback that cancels, the same item is written past the end of the datum:
  the check reports the overflow and the function goes on.
\<close>

theorem pack_overflow_past_end:
  assumes "packed its s" "item_ok it" "cancels E s"
    "g_datum_size s < g_pack_end s + length (item_bytes it)"
  shows "pack_item E it s = Fault"
  using assms by (rule pack_item_past_end)

theorem pack_overflow_past_end_witness:
  "pack_item (no_callbacks\<lparr>on_abort := \<lambda>_. Ret 1\<rparr>)
     (Scalar PHISH_INT64 [1, 2, 3, 4, 5, 6, 7, 8]) (sample_process 12 []\<lparr>g_at_abort := Some 0\<rparr>) = Fault"
proof (rule pack_overflow_past_end)
  show "packed [] (sample_process 12 []\<lparr>g_at_abort := Some 0\<rparr>)" by (simp add: sample_packed)
qed (simp_all add: unpack_switch_def sample_process_def cancels_def)

end
