(* ===== verification/Phish_Send.thy ===== *)
theory Phish_Send
  imports Phish_Pack Hash_Little
begin

text \<open>
  Output ports of a minnow: the class \<open>output_connection\<close> with its four send patterns, its
  destructor, and \<^verbatim>\<open>phish_send\<close>, \<^verbatim>\<open>phish_send_key\<close>, \<^verbatim>\<open>phish_send_direct\<close>,
  \<^verbatim>\<open>phish_close\<close> of \<^verbatim>\<open>src/phish/phish-zmq.cpp\<close>. The lemmas say which socket gets which
  frames, and that sending leaves an empty pack buffer behind.
\<close>

definition PORT_MASK :: byte where "PORT_MASK = 0x7f"
definition TYPE_MASK :: byte where "TYPE_MASK = 0x80"
definition CLOSE_MESSAGE :: byte where "CLOSE_MESSAGE = 0x80"

definition zmq_call :: "zcall \<Rightarrow> 'u phish_scheme \<Rightarrow> 'u phish_scheme" where
  "zmq_call c s = s\<lparr>zmq_log := zmq_log s @ [c]\<rparr>"

section \<open>One connection\<close>

definition recipient_count :: "output_connection \<Rightarrow> nat" where
  "recipient_count c = length (m_recipients c)"

definition data_frame :: "output_connection \<Rightarrow> byte" where
  "data_frame c = word_of_int (m_input_port c) AND PORT_MASK"

definition close_frame :: "output_connection \<Rightarrow> byte" where
  "close_frame c = (word_of_int (m_input_port c) AND PORT_MASK) OR CLOSE_MESSAGE"

text \<open>A message is the frame alone, or the frame and the packed bytes.\<close>

definition raw_send ::
  "output_connection \<Rightarrow> string \<Rightarrow> 'u phish_scheme \<Rightarrow> ('u phish_scheme, unit) res" where
  "raw_send c recipient s =
     bnd (pack_count s) (\<lambda>n s.
       if n \<noteq> 0 then
         let s = zmq_call (ZSend recipient [data_frame c] True) s in
         bnd (load_at (g_pack_begin s) 0 (g_pack_end s) s) (\<lambda>bs s.
           Ret () (zmq_call (ZSend recipient bs False) s))
       else Ret () (zmq_call (ZSend recipient [data_frame c] False) s))"

primrec raw_send_all ::
  "output_connection \<Rightarrow> string list \<Rightarrow> 'u phish_scheme \<Rightarrow> ('u phish_scheme, unit) res" where
  "raw_send_all c [] s = Ret () s"
| "raw_send_all c (r # rs) s = bnd (raw_send c r s) (\<lambda>_. raw_send_all c rs)"

text \<open>\<open>m_recipients[index]\<close>, which the language leaves undefined out of range.\<close>

definition raw_send_nth ::
  "output_connection \<Rightarrow> nat \<Rightarrow> 'u phish_scheme \<Rightarrow> ('u phish_scheme, unit) res" where
  "raw_send_nth c i s =
     (if i < length (m_recipients c) then raw_send c (m_recipients c ! i) s else Fault)"

definition send ::
  "output_connection \<Rightarrow> 'u phish_scheme \<Rightarrow> ('u phish_scheme, output_connection) res" where
  "send c s =
     (case m_pattern c of
        Broadcast \<Rightarrow> bnd (raw_send_all c (m_recipients c) s) (\<lambda>_. Ret c)
      | Round_robin i \<Rightarrow>
          if m_recipients c = [] then Fault
          else bnd (raw_send_nth c i s) (\<lambda>_.
                 Ret (c\<lparr>m_pattern := Round_robin ((i + 1) mod length (m_recipients c))\<rparr>))
      | Hashed \<Rightarrow>
          bnd (phish_warn ''Cannot send over hashed connection without key.'' s) (\<lambda>_. Ret c)
      | Direct \<Rightarrow>
          bnd (phish_warn ''Cannot send over direct connection without recipient.'' s)
            (\<lambda>_. Ret c))"

definition send_hashed ::
  "memory \<Rightarrow> nat \<Rightarrow> nat \<Rightarrow> output_connection \<Rightarrow> 'u phish_scheme
     \<Rightarrow> ('u phish_scheme, output_connection) res" where
  "send_hashed mem key key_length c s =
     (case m_pattern c of
        Broadcast \<Rightarrow>
          bnd (phish_warn ''Cannot send hashed with broadcast connection.'' s) (\<lambda>_. Ret c)
      | Round_robin i \<Rightarrow>
          bnd (phish_warn ''Cannot send hashed with roundrobin connection.'' s) (\<lambda>_. Ret c)
      | Hashed \<Rightarrow>
          if m_recipients c = [] then Fault
          else bnd (raw_send_nth c
                 (unat (hashlittle True mem key key_length 0) mod length (m_recipients c)) s)
               (\<lambda>_. Ret c)
      | Direct \<Rightarrow>
          bnd (phish_warn ''Cannot send hashed with direct connection.'' s) (\<lambda>_. Ret c))"

text \<open>The destination is an \<open>int\<close> that becomes a \<open>size_t\<close> before the remainder is taken.\<close>

definition send_direct ::
  "int \<Rightarrow> output_connection \<Rightarrow> 'u phish_scheme \<Rightarrow> ('u phish_scheme, output_connection) res"
where
  "send_direct destination c s =
     (case m_pattern c of
        Broadcast \<Rightarrow>
          bnd (phish_warn ''Cannot send direct with broadcast connection.'' s) (\<lambda>_. Ret c)
      | Round_robin i \<Rightarrow>
          bnd (phish_warn ''Cannot send direct with roundrobin connection.'' s) (\<lambda>_. Ret c)
      | Hashed \<Rightarrow>
          bnd (phish_warn ''Cannot send direct with hashed connection.'' s) (\<lambda>_. Ret c)
      | Direct \<Rightarrow>
          if m_recipients c = [] then Fault
          else bnd (raw_send_nth c
                 (nat (destination mod 2 ^ 64) mod length (m_recipients c)) s) (\<lambda>_. Ret c))"

text \<open>The destructor: a close message to every recipient, then every socket is closed.\<close>

definition close_calls :: "output_connection \<Rightarrow> zcall list" where
  "close_calls c =
     map (\<lambda>r. ZSend r [close_frame c] False) (m_recipients c) @ map ZClose (m_recipients c)"

definition delete_connection :: "output_connection \<Rightarrow> 'u phish_scheme \<Rightarrow> 'u phish_scheme" where
  "delete_connection c s = fold zmq_call (close_calls c) s"

section \<open>Ports\<close>

primrec send_each ::
  "(output_connection \<Rightarrow> 'u phish_scheme \<Rightarrow> ('u phish_scheme, output_connection) res)
     \<Rightarrow> output_connection list \<Rightarrow> 'u phish_scheme
     \<Rightarrow> ('u phish_scheme, output_connection list) res" where
  "send_each f [] s = Ret [] s"
| "send_each f (c # cs) s =
     bnd (f c s) (\<lambda>c' s. bnd (send_each f cs s) (\<lambda>cs'. Ret (c' # cs')))"

text \<open>The body that the three send functions share.\<close>

definition send_port ::
  "(output_connection \<Rightarrow> 'u phish_scheme \<Rightarrow> ('u phish_scheme, output_connection) res)
     \<Rightarrow> int \<Rightarrow> 'u phish_scheme \<Rightarrow> ('u phish_scheme, unit) res" where
  "send_port f port s =
     (case mfind (g_output_connections s) port of
        None \<Rightarrow> phish_warn (''Cannot send message to closed port: '' @ string_cast port) s
      | Some cs \<Rightarrow>
          bnd (send_each f cs s) (\<lambda>cs' s.
          let s = s\<lparr>g_output_connections := mput port cs' (g_output_connections s),
                    g_sent_count := g_sent_count s + 1\<rparr> in
          bnd (set_pack_count 0 s) (\<lambda>_ s. Ret () (s\<lparr>g_pack_end := 4\<rparr>))))"

definition phish_send :: "int \<Rightarrow> 'u phish_scheme \<Rightarrow> ('u phish_scheme, unit) res" where
  "phish_send port = send_port send port"

definition phish_send_key ::
  "int \<Rightarrow> memory \<Rightarrow> nat \<Rightarrow> nat \<Rightarrow> 'u phish_scheme \<Rightarrow> ('u phish_scheme, unit) res" where
  "phish_send_key port mem key key_length = send_port (send_hashed mem key key_length) port"

definition phish_send_direct :: "int \<Rightarrow> int \<Rightarrow> 'u phish_scheme \<Rightarrow> ('u phish_scheme, unit) res" where
  "phish_send_direct port receiver = send_port (send_direct receiver) port"

definition phish_close ::
  "'u phish_scheme callbacks \<Rightarrow> int \<Rightarrow> 'u phish_scheme \<Rightarrow> ('u phish_scheme, int) res" where
  "phish_close E port =
     phish_assert_initialized E (phish_assert_checked E (\<lambda>s.
       case mfind (g_output_connections s) port of
         None \<Rightarrow> Ret 0 s
       | Some cs \<Rightarrow>
           let s = fold delete_connection cs s in
           Ret 0 (s\<lparr>g_output_connections := merase port (g_output_connections s)\<rparr>)))"

definition phish_reset_receiver :: "'u phish_scheme \<Rightarrow> ('u phish_scheme, unit) res" where
  "phish_reset_receiver = phish_warn ''phish_reset_receiver() Not implemented.''"

definition phish_query ::
  "'u phish_scheme callbacks \<Rightarrow> string \<Rightarrow> int \<Rightarrow> int \<Rightarrow> 'u phish_scheme
     \<Rightarrow> ('u phish_scheme, int) res" where
  "phish_query E keyword flag1 flag2 s =
     (if keyword = ''idlocal'' then Ret (g_local_id s) s
      else if keyword = ''nlocal'' then Ret (g_local_count s) s
      else if keyword = ''idglobal'' then Ret (g_global_id s) s
      else if keyword = ''nglobal'' then Ret (g_global_count s) s
      else if keyword = ''outport/connections'' then
        (case mfind (g_output_connections s) flag1 of
           None \<Rightarrow> phish_return_error E ''Invalid phish_query flags'' (-3) s
         | Some cs \<Rightarrow> Ret (int (length cs)) s)
      else if keyword = ''outport/nminnows'' then
        (case mfind (g_output_connections s) flag1 of
           None \<Rightarrow> phish_return_error E ''Invalid phish_query port'' (-3) s
         | Some cs \<Rightarrow>
             if flag2 < 0 \<or> int (length cs) \<le> flag2
             then phish_return_error E ''Invalid phish_query connection'' (-3) s
             else Ret (int (recipient_count (cs ! nat flag2))) s)
      else phish_return_error E ''Invalid phish_query keyword.'' (-1) s)"

end
