(* ===== verification/Phish_Loop.thy ===== *)
theory Phish_Loop
  imports Phish_Send
begin

text \<open>
  Setting up ports, checking them, receiving and shutting down: \<^verbatim>\<open>phish_input\<close>,
  \<^verbatim>\<open>phish_output\<close>, \<^verbatim>\<open>phish_check\<close>, \<^verbatim>\<open>phish_loop\<close>, \<^verbatim>\<open>phish_probe\<close>,
  \<^verbatim>\<open>phish_recv\<close>, \<^verbatim>\<open>phish_exit\<close> of \<^verbatim>\<open>src/phish/phish-zmq.cpp\<close>. What the input
  socket delivers is a list of message parts, each with its \<open>ZMQ_RCVMORE\<close> flag; a receive
  on the empty list waits for ever. The callbacks are the minnow's functions.
\<close>

section \<open>Ports\<close>

definition phish_input ::
  "'u phish_scheme callbacks \<Rightarrow> int \<Rightarrow> cb \<Rightarrow> cb \<Rightarrow> int \<Rightarrow> 'u phish_scheme
     \<Rightarrow> ('u phish_scheme, int) res" where
  "phish_input E port message_cb closed_cb required =
     phish_assert_initialized E (phish_assert_not_checked E (\<lambda>s.
       Ret 0 (s\<lparr>g_message_callback := mput port message_cb (g_message_callback s),
                g_closed_callback := mput port closed_cb (g_closed_callback s),
                g_port_required := mput port (required \<noteq> 0) (g_port_required s)\<rparr>)))"

definition phish_output ::
  "'u phish_scheme callbacks \<Rightarrow> int \<Rightarrow> 'u phish_scheme \<Rightarrow> ('u phish_scheme, int) res" where
  "phish_output E port =
     phish_assert_initialized E (phish_assert_not_checked E (\<lambda>s.
       Ret 0 (s\<lparr>g_defined_output_ports := List.insert port (g_defined_output_ports s)\<rparr>)))"

text \<open>The three loops of \<^verbatim>\<open>phish_check\<close>; each stops at the first offending port.\<close>

fun first_key :: "('k \<Rightarrow> bool) \<Rightarrow> ('k, 'v) smap \<Rightarrow> 'k option" where
  "first_key p [] = None"
| "first_key p ((k, v) # m) = (if p k then Some k else first_key p m)"

definition undefined_input :: "'u phish_scheme \<Rightarrow> int option" where
  "undefined_input s =
     first_key (\<lambda>p. \<not> mcount (g_message_callback s) p) (g_connection_count s)"

definition unconnected_input :: "'u phish_scheme \<Rightarrow> int option" where
  "unconnected_input s =
     first_key (\<lambda>p. \<not> mcount (g_connection_count s) p \<and> mat False (g_port_required s) p)
       (g_message_callback s)"

definition undefined_output :: "'u phish_scheme \<Rightarrow> int option" where
  "undefined_output s =
     first_key (\<lambda>p. p \<notin> set (g_defined_output_ports s)) (g_output_connections s)"

definition phish_check ::
  "'u phish_scheme callbacks \<Rightarrow> 'u phish_scheme \<Rightarrow> ('u phish_scheme, int) res" where
  "phish_check E =
     phish_assert_initialized E (phish_assert_not_checked E (\<lambda>s.
       let s = s\<lparr>g_checked := True\<rparr> in
       case undefined_input s of
         Some p \<Rightarrow> phish_return_error E (g_school_id s @
             '': unexpected connection to undefined input port '' @ string_cast p) (-1) s
       | None \<Rightarrow>
       (case unconnected_input s of
          Some p \<Rightarrow> phish_return_error E (g_school_id s @ '': required input port '' @
              string_cast p @ '' does not have a connection.'') (-1) s
        | None \<Rightarrow>
        (case undefined_output s of
           Some p \<Rightarrow> phish_return_error E (g_school_id s @
               '': unexpected connection from undefined output port '' @ string_cast p) (-1) s
         | None \<Rightarrow> Ret 0 s))))"

section \<open>Receiving\<close>

type_synonym part = "byte list \<times> bool"

text \<open>The one-byte frame: an empty part leaves it 0, a longer one is cut off.\<close>

definition frame_of :: "byte list \<Rightarrow> byte" where
  "frame_of bs = (case bs of [] \<Rightarrow> 0 | b # _ \<Rightarrow> b)"

definition frame_port :: "byte \<Rightarrow> int" where
  "frame_port frame = uint (frame AND PORT_MASK)"

definition is_close :: "byte \<Rightarrow> bool" where
  "is_close frame \<longleftrightarrow> frame AND TYPE_MASK = CLOSE_MESSAGE"

text \<open>
  A close message counts one connection down; the last one of a port runs its closed callback,
  the last one of the last port ends the loop and runs the callback for that. The three receive
  functions differ in whether they test the closed callback for null (\<open>tested\<close>) and in
  whether a loop has to be stopped (\<open>looping\<close>). The result tells whether the last port closed.
\<close>

definition run_closed ::
  "'u phish_scheme callbacks \<Rightarrow> bool \<Rightarrow> int \<Rightarrow> 'u phish_scheme \<Rightarrow> ('u phish_scheme, unit) res"
where
  "run_closed E tested port s =
     (case mfind (g_closed_callback s) port of
        None \<Rightarrow> Ret () s
      | Some None \<Rightarrow> if tested then Ret () s else Fault
      | Some (Some f) \<Rightarrow> on_closed E f s)"

definition run_all_closed ::
  "'u phish_scheme callbacks \<Rightarrow> 'u phish_scheme \<Rightarrow> ('u phish_scheme, unit) res" where
  "run_all_closed E s =
     (case g_all_input_ports_closed s of None \<Rightarrow> Ret () s | Some f \<Rightarrow> on_closed E f s)"

definition handle_close ::
  "'u phish_scheme callbacks \<Rightarrow> bool \<Rightarrow> bool \<Rightarrow> int \<Rightarrow> 'u phish_scheme
     \<Rightarrow> ('u phish_scheme, bool) res" where
  "handle_close E tested looping port s =
     (let n = mat 0 (g_connection_count s) port - 1;
          s = s\<lparr>g_connection_count := mput port n (g_connection_count s)\<rparr>
      in if n \<noteq> 0 then Ret False s
         else
           let s = s\<lparr>g_connection_count := merase port (g_connection_count s)\<rparr> in
           bnd (run_closed E tested port s) (\<lambda>_ s.
             if g_connection_count s \<noteq> [] then Ret False s
             else
               let s = (if looping then s\<lparr>g_running := False\<rparr> else s) in
               bnd (run_all_closed E s) (\<lambda>_. Ret True)))"

text \<open>
  A data message: reset the unpack buffer, receive the second part if there is one, run the
  message callback with the number of values. A part longer than a datum is cut off by the
  library and then refused. The result is the code to return at once, if any.
\<close>

definition receive_body ::
  "'u phish_scheme callbacks \<Rightarrow> part list \<Rightarrow> 'u phish_scheme \<Rightarrow> ('u phish_scheme, int option) res"
where
  "receive_body E inbox s =
     (case inbox of
        [] \<Rightarrow> Blocked s
      | (body, _) # _ \<Rightarrow>
          bnd (store_at (g_unpack_begin s) 0 (take (g_datum_size s) body) s) (\<lambda>_ s.
          if g_datum_size s < length body
          then bnd (phish_return_error E ''Receive buffer overflow.'' (-1) s)
                 (\<lambda>code. Ret (Some code))
          else Ret None (s\<lparr>g_unpack_end := length body\<rparr>)))"

definition unpack_count :: "'u phish_scheme \<Rightarrow> ('u phish_scheme, u32) res" where
  "unpack_count s = bnd (load_at (g_unpack_begin s) 0 4 s) (\<lambda>bs. Ret (le_word bs))"

definition run_message ::
  "'u phish_scheme callbacks \<Rightarrow> int \<Rightarrow> 'u phish_scheme \<Rightarrow> ('u phish_scheme, unit) res" where
  "run_message E port s =
     (case mfind (g_message_callback s) port of
        None \<Rightarrow> Ret () (s\<lparr>g_message_callback := mput port None (g_message_callback s)\<rparr>)
      | Some None \<Rightarrow> Ret () s
      | Some (Some f) \<Rightarrow> bnd (unpack_count s) (\<lambda>n s. on_message E f (sint n) s))"

definition handle_data ::
  "'u phish_scheme callbacks \<Rightarrow> int \<Rightarrow> bool \<Rightarrow> part list \<Rightarrow> 'u phish_scheme
     \<Rightarrow> ('u phish_scheme, int option) res" where
  "handle_data E port more_parts inbox s =
     (let s = s\<lparr>g_received_count := g_received_count s + 1\<rparr> in
      bnd (store_at (g_unpack_begin s) 0 (le_bytes 4 (0 :: u32)) s) (\<lambda>_ s.
      let s = s\<lparr>g_unpack_current := 4, g_unpack_end := 4\<rparr> in
      bnd (if more_parts then receive_body E inbox s else Ret None s) (\<lambda>early s.
      case early of
        Some code \<Rightarrow> Ret (Some code) s
      | None \<Rightarrow> bnd (run_message E port s) (\<lambda>_. Ret None))))"

text \<open>The parts left after a message: a data message with a second part takes that too.\<close>

definition inbox_after :: "byte \<Rightarrow> bool \<Rightarrow> 'p list \<Rightarrow> 'p list" where
  "inbox_after frame more_parts rest = (if \<not> is_close frame \<and> more_parts then drop 1 rest else rest)"

lemma length_inbox_after: "length (inbox_after frame more_parts rest) \<le> length rest"
  by (simp add: inbox_after_def)

definition handle_frame ::
  "'u phish_scheme callbacks \<Rightarrow> bool \<Rightarrow> byte \<Rightarrow> bool \<Rightarrow> part list \<Rightarrow> 'u phish_scheme
     \<Rightarrow> ('u phish_scheme, int option) res" where
  "handle_frame E tested frame more_parts rest s =
     (if is_close frame
      then bnd (handle_close E tested True (frame_port frame) s) (\<lambda>_. Ret None)
      else handle_data E (frame_port frame) more_parts rest s)"

text \<open>\<open>catch(std::exception& e) { phish_warn(e.what()); }\<close> around one turn of a loop.\<close>

definition catching ::
  "('u phish_scheme, 'a option) res \<Rightarrow> ('u phish_scheme, 'a option) res" where
  "catching m = (case m of Raise e s \<Rightarrow> bnd (phish_warn e s) (\<lambda>_. Ret None) | r \<Rightarrow> r)"

lemma bnd_cong [fundef_cong]:
  "m = m' \<Longrightarrow> (\<And>a s. m' = Ret a s \<Longrightarrow> f a s = g a s) \<Longrightarrow> bnd m f = bnd m' g"
  by (cases m') simp_all

function run_loop ::
  "'u phish_scheme callbacks \<Rightarrow> part list \<Rightarrow> 'u phish_scheme
     \<Rightarrow> ('u phish_scheme, int \<times> part list) res" where
  "run_loop E inbox s =
     (if \<not> g_running s then Ret (0, inbox) s
      else case inbox of
        [] \<Rightarrow> Blocked s
      | (p, more_parts) # rest \<Rightarrow>
          let frame = frame_of p; rest' = inbox_after frame more_parts rest in
          bnd (catching (handle_frame E True frame more_parts rest s)) (\<lambda>early s.
            case early of
              Some code \<Rightarrow> Ret (code, rest') s
            | None \<Rightarrow> run_loop E rest' s))"
  by pat_completeness auto
termination
  by (relation "measure (\<lambda>(E, inbox, s). length inbox)") (auto simp: length_inbox_after less_Suc_eq_le)

declare run_loop.simps [simp del]

definition phish_loop ::
  "'u phish_scheme callbacks \<Rightarrow> part list \<Rightarrow> 'u phish_scheme
     \<Rightarrow> ('u phish_scheme, int \<times> part list) res" where
  "phish_loop E inbox s =
     (if \<not> g_initialized s then
        bnd (phish_return_error E ''phish_init() has not been called.'' (-2) s)
          (\<lambda>code. Ret (code, inbox))
      else if \<not> g_checked s then
        bnd (phish_return_error E ''phish_check() has not been called.'' (-4) s)
          (\<lambda>code. Ret (code, inbox))
      else if g_running s then
        bnd (phish_warn ''Cannot call phish_loop() while a loop is already running.'' s)
          (\<lambda>_. Ret (0, inbox))
      else run_loop E inbox (s\<lparr>g_running := True\<rparr>))"

text \<open>
  \<^verbatim>\<open>phish_probe\<close> polls: an entry \<open>None\<close> of its input is a poll that finds no message and
  sets \<open>errno\<close> to \<open>EAGAIN\<close> (\<open>again\<close>), which stays set when a later poll receives a
  part that is not one byte long.
\<close>

definition present :: "part option list \<Rightarrow> part list" where
  "present polls = (case polls of Some p # _ \<Rightarrow> [p] | _ \<Rightarrow> [])"

definition run_idle ::
  "'u phish_scheme callbacks \<Rightarrow> cb \<Rightarrow> bool \<Rightarrow> 'u phish_scheme \<Rightarrow> ('u phish_scheme, int option) res"
where
  "run_idle E idle again s =
     (if \<not> again then Ret None s
      else case idle of
        None \<Rightarrow> Fault
      | Some f \<Rightarrow> bnd (on_closed E f s) (\<lambda>_. Ret None))"

function run_probe ::
  "'u phish_scheme callbacks \<Rightarrow> cb \<Rightarrow> bool \<Rightarrow> part option list \<Rightarrow> 'u phish_scheme
     \<Rightarrow> ('u phish_scheme, int \<times> part option list) res" where
  "run_probe E idle again polls s =
     (if \<not> g_running s then Ret (0, polls) s
      else case polls of
        [] \<Rightarrow> Blocked s
      | None # rest \<Rightarrow>
          bnd (catching (run_idle E idle True s)) (\<lambda>_. run_probe E idle True rest)
      | Some (p, more_parts) # rest \<Rightarrow>
          if length p = 1 then
            let frame = frame_of p; rest' = inbox_after frame more_parts rest in
            bnd (catching (handle_frame E False frame more_parts (present rest) s)) (\<lambda>early s.
              case early of
                Some code \<Rightarrow> Ret (code, rest') s
              | None \<Rightarrow> run_probe E idle again rest' s)
          else
            bnd (catching (run_idle E idle again s)) (\<lambda>_. run_probe E idle again rest))"
  by pat_completeness auto
termination
  by (relation "measure (\<lambda>(E, idle, again, polls, s). length polls)")
    (auto simp: length_inbox_after less_Suc_eq_le)

declare run_probe.simps [simp del]

definition phish_probe ::
  "'u phish_scheme callbacks \<Rightarrow> cb \<Rightarrow> bool \<Rightarrow> part option list \<Rightarrow> 'u phish_scheme
     \<Rightarrow> ('u phish_scheme, int \<times> part option list) res" where
  "phish_probe E idle again polls s =
     (if \<not> g_initialized s then
        bnd (phish_return_error E ''phish_init() has not been called.'' (-2) s)
          (\<lambda>code. Ret (code, polls))
      else if \<not> g_checked s then
        bnd (phish_return_error E ''phish_check() has not been called.'' (-4) s)
          (\<lambda>code. Ret (code, polls))
      else if g_running s then
        bnd (phish_warn ''Cannot call phish_probe() while a loop is already running.'' s)
          (\<lambda>_. Ret (0, polls))
      else run_probe E idle again polls (s\<lparr>g_running := True\<rparr>))"

text \<open>\<^verbatim>\<open>phish_recv\<close> takes at most one message and does not wait for one.\<close>

definition phish_recv ::
  "'u phish_scheme callbacks \<Rightarrow> part list \<Rightarrow> 'u phish_scheme \<Rightarrow> ('u phish_scheme, int \<times> part list) res"
where
  "phish_recv E inbox s =
     (if \<not> g_initialized s then
        bnd (phish_return_error E ''phish_init() has not been called.'' (-2) s)
          (\<lambda>code. Ret (code, inbox))
      else if \<not> g_checked s then
        bnd (phish_return_error E ''phish_check() has not been called.'' (-4) s)
          (\<lambda>code. Ret (code, inbox))
      else if g_running s then
        bnd (phish_warn ''Cannot call phish_recv() while a loop is running.'' s)
          (\<lambda>_. Ret (0, inbox))
      else case inbox of
        [] \<Rightarrow> Ret (0, inbox) s
      | (p, more_parts) # rest \<Rightarrow>
          let frame = frame_of p; port = frame_port frame; rest' = inbox_after frame more_parts rest in
          if p = [] then Ret (0, rest) s
          else if is_close frame
          then bnd (handle_close E True False port s) (\<lambda>last s.
                 Ret (if last then - 1 else 0, rest') s)
          else bnd (handle_data E port more_parts rest s) (\<lambda>early s.
                 case early of
                   Some code \<Rightarrow> Ret (code, rest') s
                 | None \<Rightarrow> bnd (unpack_count s) (\<lambda>n. Ret (sint n, rest'))))"

section \<open>Shutting down\<close>

text \<open>The loop of \<^verbatim>\<open>phish_exit\<close> over its output ports.\<close>

primrec close_ports ::
  "'u phish_scheme callbacks \<Rightarrow> int list \<Rightarrow> 'u phish_scheme \<Rightarrow> ('u phish_scheme, unit) res" where
  "close_ports E [] s = Ret () s"
| "close_ports E (p # ps) s = bnd (phish_close E p s) (\<lambda>_. close_ports E ps)"

definition zmq_close_port :: "string option \<Rightarrow> 'u phish_scheme \<Rightarrow> 'u phish_scheme" where
  "zmq_close_port a s = (case a of None \<Rightarrow> s | Some a \<Rightarrow> zmq_call (ZClose a) s)"

definition phish_stats :: "'u phish_scheme \<Rightarrow> 'u phish_scheme" where
  "phish_stats s =
     phish_message ''Stats'' (string_cast (uint (g_received_count s)) @ '' '' @
       string_cast (uint (g_sent_count s)) @ '' datums recv/sent'') s"

text \<open>The datums are deleted but stay listed in the pool: a second exit deletes them again.\<close>

definition delete_datums :: "'u phish_scheme \<Rightarrow> ('u phish_scheme, unit) res" where
  "delete_datums s =
     (if g_datum_pool s \<noteq> [] \<and> \<not> pool_live s then Fault
      else Ret () (s\<lparr>pool_live := False\<rparr>))"

definition phish_exit ::
  "'u phish_scheme callbacks \<Rightarrow> 'u phish_scheme \<Rightarrow> ('u phish_scheme, int) res" where
  "phish_exit E =
     phish_assert_initialized E (phish_assert_checked E (\<lambda>s.
       bnd (close_ports E (mkeys (g_output_connections s)) s) (\<lambda>_ s.
       let s = s\<lparr>g_running := False\<rparr>;
           s = (zmq_close_port (g_input_port s) s)\<lparr>g_input_port := None\<rparr>;
           s = (zmq_close_port (g_control_port s) s)\<lparr>g_control_port := None\<rparr>;
           s = phish_message ''Stats''
                 (''Allocated '' @ string_cast (int (length (g_datum_pool s))) @ '' datums.'') s;
           s = phish_stats s
       in bnd (delete_datums s) (\<lambda>_. Ret 0))))"

section \<open>Properties\<close>

lemma first_key_None: "first_key q m = None \<longleftrightarrow> (\<forall>k \<in> set (mkeys m). \<not> q k)"
  by (induction q m rule: first_key.induct) auto

text \<open>The three conditions of \<^verbatim>\<open>phish_check\<close>.\<close>

definition wired_up :: "'u phish_scheme \<Rightarrow> bool" where
  "wired_up s \<longleftrightarrow>
     (\<forall>p. mcount (g_connection_count s) p \<longrightarrow> mcount (g_message_callback s) p) \<and>
     (\<forall>p. mcount (g_message_callback s) p \<and> mfind (g_port_required s) p = Some True \<longrightarrow>
        mcount (g_connection_count s) p) \<and>
     (\<forall>p. mcount (g_output_connections s) p \<longrightarrow> p \<in> set (g_defined_output_ports s))"

lemma wired_up_scans:
  "wired_up s \<longleftrightarrow>
     undefined_input s = None \<and> unconnected_input s = None \<and> undefined_output s = None"
  by (auto simp: wired_up_def undefined_input_def unconnected_input_def undefined_output_def
      first_key_None mcount_iff mat_def split: option.splits)

lemma wired_up_check:
  assumes "g_initialized s" "\<not> g_checked s"
  shows "if wired_up s then phish_check E s = Ret 0 (s\<lparr>g_checked := True\<rparr>)
    else \<exists>msg. phish_check E s = phish_return_error E msg (- 1) (s\<lparr>g_checked := True\<rparr>)"
proof -
  let ?s = "s\<lparr>g_checked := True\<rparr>"
  have scans: "undefined_input ?s = undefined_input s" "unconnected_input ?s = unconnected_input s"
      "undefined_output ?s = undefined_output s"
    by (simp_all add: undefined_input_def unconnected_input_def undefined_output_def)
  show ?thesis
    using assms
    by (auto simp: wired_up_scans scans phish_check_def phish_assert_initialized_def
        phish_assert_not_checked_def Let_def split: option.splits)
qed

text \<open>
  C23: The check of a minnow succeeds exactly when every connected input port is defined, every
  required input port is connected and every connected output port is defined; otherwise the
  process exits.
\<close>

theorem check_outcome:
  assumes "g_initialized s" "\<not> g_checked s" "g_at_abort s = None"
  shows "if wired_up s then phish_check E s = Ret 0 (s\<lparr>g_checked := True\<rparr>)
    else (\<exists>t. phish_check E s = Exited t)"
proof -
  have "\<exists>t. phish_return_error E msg (- 1 :: int) (s\<lparr>g_checked := True\<rparr>) = Exited t" for msg
    using phish_error_no_callback [of "s\<lparr>g_checked := True\<rparr>" E msg] assms(3)
    by (auto simp: phish_return_error_def)
  then show ?thesis using wired_up_check [OF assms(1,2), of E] by (auto split: if_splits)
qed

theorem check_outcome_witness:
  "let s = phish_start\<lparr>g_initialized := True, g_connection_count := [(0, 2)],
      g_message_callback := [(0, Some 0), (1, Some 1)], g_port_required := [(0, True), (1, True)]\<rparr>
   in (if wired_up s then phish_check no_callbacks s = Ret 0 (s\<lparr>g_checked := True\<rparr>)
       else (\<exists>t. phish_check no_callbacks s = Exited t)) \<and> \<not> wired_up s"
proof -
  let ?s = "phish_start\<lparr>g_initialized := True, g_connection_count := [(0, 2)],
      g_message_callback := [(0, Some 0), (1, Some 1)], g_port_required := [(0, True), (1, True)]\<rparr>"
  have "if wired_up ?s then phish_check no_callbacks ?s = Ret 0 (?s\<lparr>g_checked := True\<rparr>)
      else (\<exists>t. phish_check no_callbacks ?s = Exited t)"
    by (rule check_outcome) (simp_all add: phish_start_def)
  moreover have "\<not> wired_up ?s"
    by (auto simp: wired_up_def phish_start_def mcount_def intro!: exI [of _ 1])
  ultimately show ?thesis by simp
qed

end
