(* ===== verification/Phish_Init.thy ===== *)
theory Phish_Init
  imports Phish_Loop
begin

text \<open>
  \<^verbatim>\<open>phish_init\<close> of \<^verbatim>\<open>src/phish/phish-zmq.cpp\<close>: reading the arguments the launcher
  passes, creating the sockets, the first two datums, and the handshake on the control port. The
  library's arguments are taken out, the minnow's own arguments are kept.
\<close>

definition plus_to_space :: "string \<Rightarrow> string" where
  "plus_to_space = map (\<lambda>c. if c = CHR ''+'' then CHR '' '' else c)"

definition send_pattern :: "string \<Rightarrow> pattern option" where
  "send_pattern p =
     (if p = ''broadcast'' then Some Broadcast
      else if p = ''roundrobin'' then Some (Round_robin 0)
      else if p = ''hashed'' then Some Hashed
      else if p = ''direct'' then Some Direct
      else None)"

text \<open>\<open>--phish-input-connections port+count\<close>\<close>

definition input_connections :: "string \<Rightarrow> 'u phish_scheme \<Rightarrow> 'u phish_scheme" where
  "input_connections spec s =
     (let (port, st) = get_int 0 (plus_to_space spec, False);
          (n, st) = get_int 0 st
      in s\<lparr>g_connection_count := mput port n (g_connection_count s)\<rparr>)"

text \<open>
  \<open>--phish-output-connection port+pattern+port+address+...\<close>: the sockets are connected before
  the pattern is looked at.
\<close>

definition parse_output_connection ::
  "'u phish_scheme callbacks \<Rightarrow> u64 \<Rightarrow> string \<Rightarrow> 'u phish_scheme
     \<Rightarrow> ('u phish_scheme, int option) res" where
  "parse_output_connection E hwm spec s =
     (let (output_port, st) = get_int 0 (plus_to_space spec, False);
          (pattern, st) = get_word [] st;
          (input_port, st) = get_int 0 st;
          recipients = get_words st;
          s = s\<lparr>g_output_connections :=
                 (if mcount (g_output_connections s) output_port then g_output_connections s
                  else mput output_port [] (g_output_connections s))\<rparr>;
          s = fold (\<lambda>r. zmq_call (ZConnect r (Some hwm))) recipients s
      in case send_pattern pattern of
           None \<Rightarrow> bnd (phish_return_error E (''Unknown send pattern: '' @ pattern) (-1) s)
                     (\<lambda>code. Ret (Some code))
         | Some p \<Rightarrow>
             let c = \<lparr>m_input_port = input_port, m_recipients = recipients, m_pattern = p\<rparr>;
                 cs = mat [] (g_output_connections s) output_port @ [c]
             in Ret None (s\<lparr>g_output_connections :=
                    mput output_port cs (g_output_connections s)\<rparr>))"

text \<open>
  The argument loop: the kept arguments and the code to return at once, if any. A datum size that
  overflows an \<open>int\<close> is undefined; a negative one, with which the first allocation fails,
  is not followed further either.
\<close>

definition continue_with ::
  "('s, int option) res \<Rightarrow> string list \<Rightarrow> ('s \<Rightarrow> ('s, int option \<times> string list) res)
     \<Rightarrow> ('s, int option \<times> string list) res" where
  "continue_with m kept k =
     bnd m (\<lambda>early s. case early of Some code \<Rightarrow> Ret (Some code, kept) s | None \<Rightarrow> k s)"

definition library_options :: "string list" where
  "library_options =
     [''--phish-backend'', ''--phish-host'', ''--phish-school-id'', ''--phish-local-id'',
      ''--phish-local-count'', ''--phish-global-id'', ''--phish-global-count'', ''--phish-memory'',
      ''--phish-high-water-mark'', ''--phish-control-port'', ''--phish-input-port'',
      ''--phish-input-connections'', ''--phish-output-connection'']"

text \<open>\<open>pop_argument\<close> on an empty vector is undefined.\<close>

function parse_arguments ::
  "'u phish_scheme callbacks \<Rightarrow> u64 \<Rightarrow> string list \<Rightarrow> string list \<Rightarrow> 'u phish_scheme
     \<Rightarrow> ('u phish_scheme, int option \<times> string list) res" where
  "parse_arguments E hwm kept args s =
     (case args of
        [] \<Rightarrow> Ret (None, kept) s
      | argument # rest \<Rightarrow>
          if argument \<notin> set library_options then parse_arguments E hwm (kept @ [argument]) rest s
          else case rest of
            [] \<Rightarrow> Fault
          | v # rest \<Rightarrow>
            if argument = ''--phish-backend'' then
              let s = s\<lparr>g_backend := v\<rparr> in
              if v \<noteq> ''zmq'' then
                bnd (phish_return_error E
                       (''Incompatible backend: expected zmq, using '' @ v @ ''.'') (-1) s)
                  (\<lambda>code. Ret (Some code, kept))
              else parse_arguments E hwm kept rest s
            else if argument = ''--phish-host'' then
              parse_arguments E hwm kept rest (s\<lparr>g_host := v\<rparr>)
            else if argument = ''--phish-school-id'' then
              parse_arguments E hwm kept rest (s\<lparr>g_school_id := v\<rparr>)
            else if argument = ''--phish-local-id'' then
              parse_arguments E hwm kept rest
                (s\<lparr>g_local_id := fst (get_int (g_local_id s) (v, False))\<rparr>)
            else if argument = ''--phish-local-count'' then
              parse_arguments E hwm kept rest
                (s\<lparr>g_local_count := fst (get_int (g_local_count s) (v, False))\<rparr>)
            else if argument = ''--phish-global-id'' then
              parse_arguments E hwm kept rest
                (s\<lparr>g_global_id := fst (get_int (g_global_id s) (v, False))\<rparr>)
            else if argument = ''--phish-global-count'' then
              parse_arguments E hwm kept rest
                (s\<lparr>g_global_count := fst (get_int (g_global_count s) (v, False))\<rparr>)
            else if argument = ''--phish-memory'' then
              let size = fst (get_int 1 (v, False)) * 1024 in
              if size < 0 \<or> 2 ^ 31 \<le> size then Fault
              else parse_arguments E hwm kept rest (s\<lparr>g_datum_size := nat size\<rparr>)
            else if argument = ''--phish-high-water-mark'' then
              parse_arguments E (fst (get_u64 hwm (v, False))) kept rest s
            else if argument = ''--phish-control-port'' then
              parse_arguments E hwm kept rest
                (zmq_call (ZBind v None) (s\<lparr>g_control_port := Some v\<rparr>))
            else if argument = ''--phish-input-port'' then
              parse_arguments E hwm kept rest
                (zmq_call (ZBind v (Some hwm)) (s\<lparr>g_input_port := Some v\<rparr>))
            else if argument = ''--phish-input-connections'' then
              parse_arguments E hwm kept rest (input_connections v s)
            else
              continue_with (parse_output_connection E hwm v s) kept
                (parse_arguments E hwm kept rest))"
  by pat_completeness auto
termination
  by (relation "measure (\<lambda>(E, hwm, kept, args, s). length args)") auto

definition start_request :: "string \<Rightarrow> bool" where
  "start_request request \<longleftrightarrow>
     take 5 request @ replicate (5 - length request) (CHR 0x00) = ''start''"

text \<open>What follows the argument loop; \<open>request\<close> is what arrives on the control port.\<close>

definition first_buffers :: "'u phish_scheme \<Rightarrow> ('u phish_scheme, unit) res" where
  "first_buffers s =
     (let (d, s) = use_datum s; s = s\<lparr>g_pack_begin := d\<rparr> in
      bnd (set_pack_count 0 s) (\<lambda>_ s.
      let s = s\<lparr>g_pack_end := 4\<rparr>; (d, s) = use_datum s in
      Ret () (s\<lparr>g_unpack_begin := d, g_unpack_current := 0, g_unpack_end := 0\<rparr>)))"

definition handshake ::
  "'u phish_scheme callbacks \<Rightarrow> string option \<Rightarrow> string list \<Rightarrow> 'u phish_scheme
     \<Rightarrow> ('u phish_scheme, int \<times> string list) res" where
  "handshake E request kept s =
     (case request of
        None \<Rightarrow> Blocked s
      | Some r \<Rightarrow>
          if start_request r then
            Ret (0, kept)
              (case g_control_port s of None \<Rightarrow> s | Some a \<Rightarrow> zmq_call (ZSend a [111, 107] False) s)
          else bnd (phish_return_error E (''Unexpected request: '' @ take 5 r @
                 replicate (5 - length r) (CHR 0x00)) (-1) s) (\<lambda>code. Ret (code, kept)))"

text \<open>Returns the code and the arguments that stay in \<open>argv\<close>.\<close>

definition phish_init ::
  "'u phish_scheme callbacks \<Rightarrow> string option \<Rightarrow> string list \<Rightarrow> 'u phish_scheme
     \<Rightarrow> ('u phish_scheme, int \<times> string list) res" where
  "phish_init E request args s =
     (if g_initialized s then
        bnd (phish_return_error E ''phish_init() has already been called.'' (-3) s)
          (\<lambda>code. Ret (code, args))
      else
        let s = s\<lparr>g_initialized := True\<rparr> in
        if args = [] then Fault
        else
          let s = s\<lparr>g_executable := hd args\<rparr> in
          bnd (parse_arguments E 1000 [] args s) (\<lambda>(early, kept) s.
          case early of
            Some code \<Rightarrow> Ret (code, args) s
          | None \<Rightarrow>
              if g_backend s = [] \<or> g_host s = [] \<or> g_school_id s = [] \<or> g_control_port s = None
              then bnd (phish_return_error E (''Missing required phish arguments.  You must use'' @
                          '' the phish bait system to execute a minnow.'') (-1) s)
                     (\<lambda>code. Ret (code, args))
              else bnd (first_buffers s) (\<lambda>_ s. handshake E request kept s)))"

declare parse_arguments.simps [simp del]

section \<open>Reading well-formed arguments\<close>

lemma parse_own_arguments:
  "\<forall>a \<in> set xs. a \<notin> set library_options \<Longrightarrow>
     parse_arguments E hwm kept (xs @ rest) s = parse_arguments E hwm (kept @ xs) rest s"
proof (induction xs arbitrary: kept)
  case (Cons x xs)
  then show ?case
    by (subst parse_arguments.simps) simp
qed simp

lemma parse_no_arguments: "parse_arguments E hwm kept [] s = Ret (None, kept) s"
  by (subst parse_arguments.simps) simp

lemma parse_options:
  "parse_arguments E hwm kept (''--phish-backend'' # ''zmq'' # rest) s =
     parse_arguments E hwm kept rest (s\<lparr>g_backend := ''zmq''\<rparr>)"
  "parse_arguments E hwm kept (''--phish-host'' # v # rest) s =
     parse_arguments E hwm kept rest (s\<lparr>g_host := v\<rparr>)"
  "parse_arguments E hwm kept (''--phish-school-id'' # v # rest) s =
     parse_arguments E hwm kept rest (s\<lparr>g_school_id := v\<rparr>)"
  "parse_arguments E hwm kept (''--phish-local-id'' # v # rest) s =
     parse_arguments E hwm kept rest (s\<lparr>g_local_id := fst (get_int (g_local_id s) (v, False))\<rparr>)"
  "parse_arguments E hwm kept (''--phish-local-count'' # v # rest) s =
     parse_arguments E hwm kept rest
       (s\<lparr>g_local_count := fst (get_int (g_local_count s) (v, False))\<rparr>)"
  "parse_arguments E hwm kept (''--phish-global-id'' # v # rest) s =
     parse_arguments E hwm kept rest
       (s\<lparr>g_global_id := fst (get_int (g_global_id s) (v, False))\<rparr>)"
  "parse_arguments E hwm kept (''--phish-global-count'' # v # rest) s =
     parse_arguments E hwm kept rest
       (s\<lparr>g_global_count := fst (get_int (g_global_count s) (v, False))\<rparr>)"
  "0 \<le> fst (get_int 1 (v, False)) \<Longrightarrow> fst (get_int 1 (v, False)) * 1024 < 2 ^ 31 \<Longrightarrow>
     parse_arguments E hwm kept (''--phish-memory'' # v # rest) s =
       parse_arguments E hwm kept rest
         (s\<lparr>g_datum_size := nat (fst (get_int 1 (v, False)) * 1024)\<rparr>)"
  "parse_arguments E hwm kept (''--phish-high-water-mark'' # v # rest) s =
     parse_arguments E (fst (get_u64 hwm (v, False))) kept rest s"
  "parse_arguments E hwm kept (''--phish-control-port'' # v # rest) s =
     parse_arguments E hwm kept rest (zmq_call (ZBind v None) (s\<lparr>g_control_port := Some v\<rparr>))"
  "parse_arguments E hwm kept (''--phish-input-port'' # v # rest) s =
     parse_arguments E hwm kept rest (zmq_call (ZBind v (Some hwm)) (s\<lparr>g_input_port := Some v\<rparr>))"
  "parse_arguments E hwm kept (''--phish-input-connections'' # v # rest) s =
     parse_arguments E hwm kept rest (input_connections v s)"
  "parse_arguments E hwm kept (''--phish-output-connection'' # v # rest) s =
     continue_with (parse_output_connection E hwm v s) kept (parse_arguments E hwm kept rest)"
  by (subst parse_arguments.simps, simp add: library_options_def Let_def)+

text \<open>The two options that can occur several times.\<close>

lemma plus_to_space_simps [simp]:
  "plus_to_space (xs @ ys) = plus_to_space xs @ plus_to_space ys"
  "plus_to_space [] = []"
  "plus_to_space (c # cs) = (if c = CHR ''+'' then CHR '' '' else c) # plus_to_space cs"
  by (simp_all add: plus_to_space_def)

lemma plus_to_space_id: "CHR ''+'' \<notin> set w \<Longrightarrow> plus_to_space w = w"
  by (induction w) auto

lemma plus_to_space_cast [simp]: "plus_to_space (string_cast i) = string_cast i"
  by (rule plus_to_space_id) (auto dest: string_cast_no_space)

definition int_range :: "int \<Rightarrow> bool" where
  "int_range i \<longleftrightarrow> - (2 ^ 31) \<le> i \<and> i < 2 ^ 31"

lemma input_connections_spec:
  assumes "int_range port" "int_range n"
  shows "input_connections (string_cast port @ ''+'' @ string_cast n) s =
    s\<lparr>g_connection_count := mput port n (g_connection_count s)\<rparr>"
proof -
  have "get_int 0 (string_cast port @ '' '' @ string_cast n, False) =
      (port, ('' '' @ string_cast n, False))"
    using get_int_string_cast [of port "'' '' @ string_cast n" "[]" 0] assms
    by (simp add: int_range_def word_end_def is_space_def)
  moreover have "get_int 0 ('' '' @ string_cast n, False) = (n, ([], False))"
    using get_int_string_cast [of n "[]" "'' ''" 0] assms
    by (simp add: int_range_def word_end_def is_space_def)
  ultimately show ?thesis
    by (simp add: input_connections_def)
qed

text \<open>A recipient's address is a word without blanks and without the separator.\<close>

definition plain_word :: "string \<Rightarrow> bool" where
  "plain_word w \<longleftrightarrow> w \<noteq> [] \<and> (\<forall>c \<in> set w. \<not> is_space c \<and> c \<noteq> CHR ''+'')"

lemma plus_to_space_words:
  "\<forall>w \<in> set ws. plain_word w \<Longrightarrow>
     plus_to_space (concat (map ((#) (CHR ''+'')) ws)) = concat (map ((#) (CHR '' '')) ws)"
proof (induction ws)
  case (Cons w ws)
  then have "plus_to_space w = w"
    by (intro plus_to_space_id) (auto simp: plain_word_def)
  with Cons show ?case by simp
qed simp

lemma get_words_end: "get_words ([], False) = []"
  by (subst get_words.simps) (simp add: get_word_def)

lemma get_words_concat:
  "\<forall>w \<in> set ws. plain_word w \<Longrightarrow> get_words (concat (map ((#) (CHR '' '')) ws), False) = ws"
proof (induction ws)
  case (Cons w ws)
  have "get_word [] (concat (map ((#) (CHR '' '')) (w # ws)), False) =
      (w, (concat (map ((#) (CHR '' '')) ws), False))"
    using get_word_append [of w "concat (map ((#) (CHR '' '')) ws)" "'' ''" "[]"] Cons.prems
    by (cases ws) (auto simp: plain_word_def word_end_def is_space_def)
  with Cons show ?case by (subst get_words.simps) simp
qed (simp add: get_words_end)

lemma fold_connects:
  "fold (\<lambda>r. zmq_call (ZConnect r hwm)) rs s =
     s\<lparr>zmq_log := zmq_log s @ map (\<lambda>r. ZConnect r hwm) rs\<rparr>"
  by (induction rs arbitrary: s) (simp_all add: zmq_call_def)

lemma output_connection_spec:
  assumes "int_range op" "int_range ip" "send_pattern pattern = Some p"
    "\<forall>w \<in> set addresses. plain_word w"
  shows "parse_output_connection E hwm
      (string_cast op @ ''+'' @ pattern @ ''+'' @ string_cast ip @
        concat (map ((#) (CHR ''+'')) addresses)) s =
    Ret None (s\<lparr>zmq_log := zmq_log s @ map (\<lambda>r. ZConnect r (Some hwm)) addresses,
      g_output_connections := mput op (mat [] (g_output_connections s) op @
          [\<lparr>m_input_port = ip, m_recipients = addresses, m_pattern = p\<rparr>])
        (g_output_connections s)\<rparr>)"
proof -
  let ?as = "concat (map ((#) (CHR '' '')) addresses)"
  have word: "word_end ?as" by (cases addresses) (auto simp: word_end_def is_space_def)
  have pat: "pattern \<noteq> []" "\<forall>c \<in> set pattern. \<not> is_space c" "plus_to_space pattern = pattern"
    using assms(3) by (auto simp: send_pattern_def is_space_def split: if_splits)
  have "get_int 0 (string_cast op @ '' '' @ pattern @ '' '' @ string_cast ip @ ?as, False) =
      (op, ('' '' @ pattern @ '' '' @ string_cast ip @ ?as, False))"
    using get_int_string_cast [of op "'' '' @ pattern @ '' '' @ string_cast ip @ ?as" "[]" 0] assms
    by (simp add: int_range_def word_end_def is_space_def)
  moreover have "get_word [] ('' '' @ pattern @ '' '' @ string_cast ip @ ?as, False) =
      (pattern, ('' '' @ string_cast ip @ ?as, False))"
    using get_word_append [of pattern "'' '' @ string_cast ip @ ?as" "'' ''" "[]"] pat
    by (simp add: word_end_def is_space_def)
  moreover have "get_int 0 ('' '' @ string_cast ip @ ?as, False) = (ip, (?as, False))"
    using get_int_string_cast [of ip ?as "'' ''" 0] assms word
    by (simp add: int_range_def is_space_def)
  ultimately show ?thesis
    using assms(3,4) pat(3)
    by (simp add: parse_output_connection_def plus_to_space_words get_words_concat fold_connects mat_mput)
      (auto simp: mat_def mcount_def mput_mput split: option.splits)
qed

end
