(* ===== verification/Phish_Bait.thy ===== *)
theory Phish_Bait
  imports Std_Map Text_Stream
begin

text \<open>
  Describing a network of minnows (\<^verbatim>\<open>src/phish/phish-bait-common.cpp\<close>): schools of
  minnows, and hooks that wire the output port of one school to an input port of another in one
  of eight styles. The invariant \<open>bait_ok\<close> ties the two ends of every wire together: what a
  minnow expects on an input port is the number of wires that end there.
\<close>

section \<open>Storage\<close>

record school =
  sc_id :: string
  sc_hosts :: "string list"
  sc_arguments :: "string list"
  sc_count :: int
  sc_first_global_id :: nat

record hook =
  hk_output_id :: string
  hk_output_port :: int
  hk_style :: string
  hk_input_port :: int
  hk_input_id :: string

record connection =
  cn_output_port :: int
  cn_send_pattern :: string
  cn_input_port :: int
  cn_input_indices :: "nat list"

record minnow =
  mn_school_index :: nat
  mn_local_id :: nat
  mn_incoming :: "(int, int) smap"
  mn_outgoing :: "connection list"

record bait =
  b_settings :: "(string, string) smap"
  b_school_index_map :: "(string, nat) smap"
  b_minnow_index_map :: "(string, nat list) smap"
  b_schools :: "school list"
  b_hooks :: "hook list"
  b_minnows :: "minnow list"

section \<open>Operations\<close>

definition phish_bait_reset :: bait where
  "phish_bait_reset =
     \<lparr>b_settings = [], b_school_index_map = [], b_minnow_index_map = [],
      b_schools = [], b_hooks = [], b_minnows = []\<rparr>"

definition phish_bait_set :: "string \<Rightarrow> string \<Rightarrow> bait \<Rightarrow> bait" where
  "phish_bait_set name value b = b\<lparr>b_settings := mput name value (b_settings b)\<rparr>"

definition new_minnow :: "nat \<Rightarrow> nat \<Rightarrow> minnow" where
  "new_minnow school_index local_id =
     \<lparr>mn_school_index = school_index, mn_local_id = local_id, mn_incoming = [], mn_outgoing = []\<rparr>"

text \<open>
  An error is thrown before anything is changed, caught, and reported as -1. The arrays
  \<open>hosts\<close> and \<open>argv\<close> are read up to the given counts.
\<close>

definition phish_bait_school ::
  "string \<Rightarrow> int \<Rightarrow> string list \<Rightarrow> string list \<Rightarrow> bait \<Rightarrow> (bait, int) res" where
  "phish_bait_school sid n hosts argv b =
     (if mcount (b_school_index_map b) sid then Ret (- 1) b
      else if n < 1 then Ret (- 1) b
      else if length hosts < nat n then Fault
      else
        let first_global_id = length (b_minnows b);
            members = [first_global_id..<first_global_id + nat n];
            school_index = length (b_schools b)
        in Ret 0 (b\<lparr>b_minnow_index_map := mput sid members (b_minnow_index_map b),
                    b_minnows := b_minnows b @ map (new_minnow school_index) [0..<nat n],
                    b_school_index_map := mput sid school_index (b_school_index_map b),
                    b_schools := b_schools b @
                      [\<lparr>sc_id = sid, sc_hosts = take (nat n) hosts, sc_arguments = argv,
                        sc_count = n, sc_first_global_id = first_global_id\<rparr>]\<rparr>))"

text \<open>The constructor of \<open>connection\<close> counts itself in at every receiving minnow.\<close>

definition count_in :: "int \<Rightarrow> nat \<Rightarrow> minnow list \<Rightarrow> minnow list" where
  "count_in port i ms =
     ms[i := (ms ! i)\<lparr>mn_incoming := mput port (mat 0 (mn_incoming (ms ! i)) port + 1)
                (mn_incoming (ms ! i))\<rparr>]"

definition connect :: "nat \<Rightarrow> connection \<Rightarrow> minnow list \<Rightarrow> minnow list" where
  "connect i c ms =
     (let ms = fold (count_in (cn_input_port c)) (cn_input_indices c) ms
      in ms[i := (ms ! i)\<lparr>mn_outgoing := mn_outgoing (ms ! i) @ [c]\<rparr>])"

text \<open>
  The wires a hook style asks for, in the order the code makes them: the sending minnow, the
  send pattern, the receiving minnows; or the message of the exception.
\<close>

type_synonym wire = "nat \<times> string \<times> nat list"

definition hook_wires ::
  "string \<Rightarrow> string \<Rightarrow> string \<Rightarrow> nat list \<Rightarrow> nat list \<Rightarrow> string + wire list" where
  "hook_wires style output_id input_id outs ins =
     (if style = ''single'' then
        if length ins \<noteq> 1 then Inl ''Single hook style requires exactly one input minnow.''
        else Inr (map (\<lambda>out. (out, ''broadcast'', ins)) outs)
      else if style = ''paired'' then
        if length outs \<noteq> length ins
        then Inl ''Paired hook style requires equal numbers of output and input minnows.''
        else Inr (map (\<lambda>i. (outs ! i, ''broadcast'', [ins ! i])) [0..<length outs])
      else if style = ''hashed'' then Inr (map (\<lambda>out. (out, ''hashed'', ins)) outs)
      else if style = ''roundrobin'' then Inr (map (\<lambda>out. (out, ''roundrobin'', ins)) outs)
      else if style = ''direct'' then Inr (map (\<lambda>out. (out, ''direct'', ins)) outs)
      else if style = ''bcast'' then Inr (map (\<lambda>out. (out, ''broadcast'', ins)) outs)
      else if style = ''chain'' then
        if output_id \<noteq> input_id
        then Inl ''Chain hook style requires the same id for output and input minnows.''
        else Inr (map (\<lambda>i. (outs ! i, ''broadcast'', [ins ! (i + 1)])) [0..<length outs - 1])
      else if style = ''ring'' then
        if output_id \<noteq> input_id
        then Inl ''Ring hook style requires the same id for output and input minnows.''
        else Inr (map (\<lambda>i. (outs ! i, ''broadcast'', [ins ! ((i + 1) mod length ins)]))
                    [0..<length outs])
      else if style = ''publish'' then Inl ''Not implemented.''
      else if style = ''subscribe'' then Inl ''Not implemented.''
      else Inl ''Unknown hook style'')"

definition wire_connection :: "int \<Rightarrow> int \<Rightarrow> wire \<Rightarrow> connection" where
  "wire_connection output_port input_port w =
     \<lparr>cn_output_port = output_port, cn_send_pattern = fst (snd w),
      cn_input_port = input_port, cn_input_indices = snd (snd w)\<rparr>"

definition lay_wire :: "int \<Rightarrow> int \<Rightarrow> wire \<Rightarrow> minnow list \<Rightarrow> minnow list" where
  "lay_wire output_port input_port w ms =
     connect (fst w) (wire_connection output_port input_port w) ms"

definition phish_bait_hook ::
  "string \<Rightarrow> int \<Rightarrow> string \<Rightarrow> int \<Rightarrow> string \<Rightarrow> bait \<Rightarrow> (bait, int) res" where
  "phish_bait_hook output_id output_port style input_port input_id b =
     (if \<not> mcount (b_school_index_map b) output_id then Ret (- 1) b
      else if \<not> mcount (b_school_index_map b) input_id then Ret (- 1) b
      else
        let outs = mat [] (b_minnow_index_map b) output_id;
            ins = mat [] (b_minnow_index_map b) input_id
        in case hook_wires style output_id input_id outs ins of
             Inl msg \<Rightarrow> Ret (- 1) b
           | Inr ws \<Rightarrow>
               Ret 0 (b\<lparr>b_minnows := fold (lay_wire output_port input_port) ws (b_minnows b),
                        b_hooks := b_hooks b @
                          [\<lparr>hk_output_id = output_id, hk_output_port = output_port,
                            hk_style = style, hk_input_port = input_port,
                            hk_input_id = input_id\<rparr>]\<rparr>))"

text \<open>A network description is a sequence of these calls.\<close>

datatype bait_call =
  Reset
| Set string string
| School string int "string list" "string list"
| Hook string int string int string

fun bait_step :: "bait_call \<Rightarrow> bait \<Rightarrow> (bait, int) res" where
  "bait_step Reset b = Ret 0 phish_bait_reset"
| "bait_step (Set name value) b = Ret 0 (phish_bait_set name value b)"
| "bait_step (School sid n hosts argv) b = phish_bait_school sid n hosts argv b"
| "bait_step (Hook oid op style ip iid) b = phish_bait_hook oid op style ip iid b"

inductive baited :: "bait \<Rightarrow> bool" where
  baited_start: "baited phish_bait_reset"
| baited_step: "baited b \<Longrightarrow> bait_step call b = Ret code b' \<Longrightarrow> baited b'"

inductive_cases baited_cases: "baited b"

section \<open>The wires that end at a minnow\<close>

definition wires_in :: "connection list \<Rightarrow> nat \<Rightarrow> int \<Rightarrow> nat" where
  "wires_in cs m p =
     sum_list (map (\<lambda>c. if cn_input_port c = p then count_list (cn_input_indices c) m else 0) cs)"

definition all_wires :: "minnow list \<Rightarrow> connection list" where
  "all_wires ms = concat (map mn_outgoing ms)"

definition wired :: "minnow list \<Rightarrow> bool" where
  "wired ms \<longleftrightarrow>
     (\<forall>m < length ms.
        msorted (mn_incoming (ms ! m)) \<and>
        (\<forall>p. mat 0 (mn_incoming (ms ! m)) p = int (wires_in (all_wires ms) m p)) \<and>
        (\<forall>p. mcount (mn_incoming (ms ! m)) p \<longleftrightarrow> 0 < wires_in (all_wires ms) m p)) \<and>
     (\<forall>c \<in> set (all_wires ms). \<forall>i \<in> set (cn_input_indices c). i < length ms)"

definition members :: "school \<Rightarrow> nat list" where
  "members s = [sc_first_global_id s..<sc_first_global_id s + nat (sc_count s)]"

definition schooled :: "bait \<Rightarrow> bool" where
  "schooled b \<longleftrightarrow>
     msorted (b_school_index_map b) \<and> msorted (b_minnow_index_map b) \<and>
     (\<forall>sid. mfind (b_minnow_index_map b) sid =
        map_option (\<lambda>k. members (b_schools b ! k)) (mfind (b_school_index_map b) sid)) \<and>
     (\<forall>sid k. mfind (b_school_index_map b) sid = Some k \<longrightarrow>
        k < length (b_schools b) \<and> sc_id (b_schools b ! k) = sid) \<and>
     (\<forall>s \<in> set (b_schools b). 0 < sc_count s \<and> int (length (sc_hosts s)) = sc_count s \<and>
        sc_first_global_id s + nat (sc_count s) \<le> length (b_minnows b)) \<and>
     (\<forall>i < length (b_minnows b).
        mn_school_index (b_minnows b ! i) < length (b_schools b) \<and>
        int (mn_local_id (b_minnows b ! i)) < sc_count (b_schools b ! mn_school_index (b_minnows b ! i)) \<and>
        i = sc_first_global_id (b_schools b ! mn_school_index (b_minnows b ! i)) +
              mn_local_id (b_minnows b ! i))"

definition bait_ok :: "bait \<Rightarrow> bool" where
  "bait_ok b \<longleftrightarrow> schooled b \<and> wired (b_minnows b)"

section \<open>Every call keeps the invariant\<close>

lemma length_count_in [simp]: "length (count_in p i ms) = length ms"
  by (simp add: count_in_def)

lemma count_in_nth:
  "m < length ms \<Longrightarrow> mn_incoming (count_in p i ms ! m) =
     (if i = m then mput p (mat 0 (mn_incoming (ms ! m)) p + 1) (mn_incoming (ms ! m))
      else mn_incoming (ms ! m))"
  by (simp add: count_in_def nth_update_if)

lemma count_in_outgoing [simp]: "map mn_outgoing (count_in p i ms) = map mn_outgoing ms"
  by (simp add: count_in_def map_update_same)

lemma length_count_ins [simp]: "length (fold (count_in p) is ms) = length ms"
  by (induction "is" arbitrary: ms) simp_all

lemma count_ins_outgoing [simp]:
  "map mn_outgoing (fold (count_in p) is ms) = map mn_outgoing ms"
  by (induction "is" arbitrary: ms) simp_all

lemma count_ins_mat:
  "m < length ms \<Longrightarrow> mat 0 (mn_incoming (fold (count_in p) is ms ! m)) q =
     mat 0 (mn_incoming (ms ! m)) q + (if p = q then int (count_list is m) else 0)"
  by (induction "is" arbitrary: ms) (auto simp: count_in_nth)

lemma count_ins_mcount:
  "m < length ms \<Longrightarrow> mcount (mn_incoming (fold (count_in p) is ms ! m)) q \<longleftrightarrow>
     mcount (mn_incoming (ms ! m)) q \<or> (p = q \<and> m \<in> set is)"
  by (induction "is" arbitrary: ms) (auto simp: count_in_nth mcount_iff)

lemma count_ins_msorted:
  "m < length ms \<Longrightarrow> msorted (mn_incoming (ms ! m)) \<Longrightarrow>
     msorted (mn_incoming (fold (count_in p) is ms ! m))"
  by (induction "is" arbitrary: ms) (auto simp: count_in_nth msorted_mput)

lemma length_connect [simp]: "length (connect i c ms) = length ms"
  by (simp add: connect_def Let_def)

lemma connect_incoming:
  "m < length ms \<Longrightarrow> mn_incoming (connect i c ms ! m) =
     mn_incoming (fold (count_in (cn_input_port c)) (cn_input_indices c) ms ! m)"
  by (simp add: connect_def Let_def nth_update_if)

lemma wires_in_append [simp]: "wires_in (cs @ ds) m p = wires_in cs m p + wires_in ds m p"
  by (simp add: wires_in_def)

lemma wires_in_perm: "mset cs = mset ds \<Longrightarrow> wires_in cs m p = wires_in ds m p"
  by (simp only: wires_in_def sum_mset_sum_list [symmetric] mset_map)

lemma connect_outgoing:
  assumes "i < length ms"
  shows "map mn_outgoing (connect i c ms) =
    (map mn_outgoing ms)[i := map mn_outgoing ms ! i @ [c]]"
proof -
  let ?ns = "fold (count_in (cn_input_port c)) (cn_input_indices c) ms"
  have "map mn_outgoing (connect i c ms) =
      (map mn_outgoing ?ns)[i := map mn_outgoing ?ns ! i @ [c]]"
    using assms by (simp add: connect_def Let_def map_update del: count_ins_outgoing)
  then show ?thesis by (simp only: count_ins_outgoing)
qed

lemma all_wires_connect:
  "i < length ms \<Longrightarrow> mset (all_wires (connect i c ms)) = mset (all_wires ms) + {#c#}"
  by (simp only: all_wires_def connect_outgoing mset_concat_snoc_at length_map)

lemma wired_connect:
  assumes w: "wired ms" and i: "i < length ms" "\<forall>k \<in> set (cn_input_indices c). k < length ms"
  shows "wired (connect i c ms)"
proof -
  have all: "mset (all_wires (connect i c ms)) = mset (all_wires ms @ [c])"
    using all_wires_connect [OF i(1), of c] by simp
  have wires: "wires_in (all_wires (connect i c ms)) m p =
      wires_in (all_wires ms) m p +
        (if cn_input_port c = p then count_list (cn_input_indices c) m else 0)" for m p
    by (subst wires_in_perm [OF all]) (simp add: wires_in_def)
  have sets: "set (all_wires (connect i c ms)) = insert c (set (all_wires ms))"
    using mset_eq_setD [OF all] by simp
  show ?thesis
    unfolding wired_def
  proof (intro conjI allI impI)
    fix m assume "m < length (connect i c ms)"
    then have m: "m < length ms" by simp
    then have wm: "msorted (mn_incoming (ms ! m))"
        "\<And>p. mat 0 (mn_incoming (ms ! m)) p = int (wires_in (all_wires ms) m p)"
        "\<And>p. mcount (mn_incoming (ms ! m)) p \<longleftrightarrow> 0 < wires_in (all_wires ms) m p"
      using w by (simp_all add: wired_def)
    show "msorted (mn_incoming (connect i c ms ! m))"
      using m wm(1) by (simp add: connect_incoming count_ins_msorted)
    fix p
    show "mat 0 (mn_incoming (connect i c ms ! m)) p = int (wires_in (all_wires (connect i c ms)) m p)"
      using m by (simp add: connect_incoming count_ins_mat wm(2) wires)
    show "mcount (mn_incoming (connect i c ms ! m)) p \<longleftrightarrow>
        0 < wires_in (all_wires (connect i c ms)) m p"
      using m by (simp add: connect_incoming count_ins_mcount wm(3) wires)
  next
    show "\<forall>c' \<in> set (all_wires (connect i c ms)). \<forall>k \<in> set (cn_input_indices c').
        k < length (connect i c ms)"
      using w i(2) sets by (simp add: wired_def)
  qed
qed

text \<open>What the wires of a hook are allowed to be.\<close>

definition wire_within :: "nat \<Rightarrow> wire \<Rightarrow> bool" where
  "wire_within n w \<longleftrightarrow> fst w < n \<and> (\<forall>k \<in> set (snd (snd w)). k < n)"

lemma length_lay_wire [simp]: "length (lay_wire op ip w ms) = length ms"
  by (simp add: lay_wire_def)

lemma length_lay_wires [simp]: "length (fold (lay_wire op ip) ws ms) = length ms"
  by (induction ws arbitrary: ms) simp_all

lemma wired_lay_wires:
  "wired ms \<Longrightarrow> \<forall>w \<in> set ws. wire_within (length ms) w \<Longrightarrow> wired (fold (lay_wire op ip) ws ms)"
  by (induction ws arbitrary: ms)
    (simp_all add: lay_wire_def wired_connect wire_within_def wire_connection_def)

lemma hook_wires_within:
  assumes "hook_wires style oid iid outs ins = Inr ws"
    "\<forall>k \<in> set outs. k < n" "\<forall>k \<in> set ins. k < n"
    "oid = iid \<Longrightarrow> outs = ins" "w \<in> set ws"
  shows "wire_within n w"
proof -
  have nths: "\<And>i. i < length outs \<Longrightarrow> outs ! i < n" "\<And>i. i < length ins \<Longrightarrow> ins ! i < n"
    using assms(2,3) by simp_all
  have "i < length ins \<Longrightarrow> ins ! (Suc i mod length ins) < n" for i
    by (rule nths(2), rule mod_less_divisor) (cases ins; simp)
  with nths assms show ?thesis
    by (auto simp: hook_wires_def wire_within_def split: if_splits)
qed

text \<open>Laying wires changes only the wiring of the minnows.\<close>

definition same_school :: "minnow \<Rightarrow> minnow \<Rightarrow> bool" where
  "same_school a b \<longleftrightarrow>
     mn_school_index a = mn_school_index b \<and> mn_local_id a = mn_local_id b"

lemma count_in_schools [simp]:
  "map (\<lambda>m. (mn_school_index m, mn_local_id m)) (count_in p i ms) =
   map (\<lambda>m. (mn_school_index m, mn_local_id m)) ms"
  by (simp add: count_in_def map_update_same)

lemma count_ins_schools [simp]:
  "map (\<lambda>m. (mn_school_index m, mn_local_id m)) (fold (count_in p) is ms) =
   map (\<lambda>m. (mn_school_index m, mn_local_id m)) ms"
  by (induction "is" arbitrary: ms) simp_all

lemma connect_schools [simp]:
  "map (\<lambda>m. (mn_school_index m, mn_local_id m)) (connect i c ms) =
   map (\<lambda>m. (mn_school_index m, mn_local_id m)) ms"
  by (simp add: connect_def Let_def map_update_same)

lemma lay_wires_schools [simp]:
  "map (\<lambda>m. (mn_school_index m, mn_local_id m)) (fold (lay_wire op ip) ws ms) =
   map (\<lambda>m. (mn_school_index m, mn_local_id m)) ms"
  by (induction ws arbitrary: ms) (simp_all add: lay_wire_def)

lemma nth_schools:
  assumes "map (\<lambda>m. (mn_school_index m, mn_local_id m)) ns =
      map (\<lambda>m. (mn_school_index m, mn_local_id m)) ms" "i < length ms"
  shows "mn_school_index (ns ! i) = mn_school_index (ms ! i)"
    "mn_local_id (ns ! i) = mn_local_id (ms ! i)"
proof -
  have "length ns = length ms" using arg_cong [OF assms(1), of length] by simp
  then show "mn_school_index (ns ! i) = mn_school_index (ms ! i)"
      "mn_local_id (ns ! i) = mn_local_id (ms ! i)"
    using arg_cong [OF assms(1), of "\<lambda>xs. xs ! i"] assms(2) by simp_all
qed

lemma bait_ok_reset: "bait_ok phish_bait_reset"
  by (simp add: bait_ok_def schooled_def wired_def all_wires_def phish_bait_reset_def)

lemma bait_ok_set: "bait_ok b \<Longrightarrow> bait_ok (phish_bait_set name value b)"
  by (simp add: bait_ok_def schooled_def phish_bait_set_def)

lemma wired_new_minnows:
  assumes "wired ms"
  shows "wired (ms @ map (new_minnow s) ks)"
proof -
  have all: "all_wires (ms @ map (new_minnow s) ks) = all_wires ms"
    by (induction ks) (simp_all add: all_wires_def new_minnow_def)
  have bound: "m < length ms" if "c \<in> set (all_wires ms)" "m \<in> set (cn_input_indices c)" for c m
    using assms that unfolding wired_def by blast
  have none: "wires_in (all_wires ms) m p = 0" if "length ms \<le> m" for m p
  proof -
    have "m \<notin> set (cn_input_indices c)" if "c \<in> set (all_wires ms)" for c
      using bound [OF that] \<open>length ms \<le> m\<close> by (meson leD)
    then show ?thesis
      by (auto simp: wires_in_def sum_list_eq_0_iff count_list_0_iff)
  qed
  show ?thesis
    unfolding wired_def all
  proof (intro conjI allI impI ballI)
    fix c m assume "c \<in> set (all_wires ms)" "m \<in> set (cn_input_indices c)"
    then show "m < length (ms @ map (new_minnow s) ks)" using bound by fastforce
  qed (use assms none in \<open>auto simp: wired_def nth_append new_minnow_def mat_def mcount_iff\<close>)
qed

lemma bait_ok_school:
  assumes "bait_ok b" "phish_bait_school sid n hosts argv b = Ret code b'"
  shows "bait_ok b'"
proof (cases "mcount (b_school_index_map b) sid \<or> n < 1 \<or> length hosts < nat n")
  case True
  then show ?thesis using assms by (auto simp: phish_bait_school_def split: if_splits)
next
  case False
  define s where "s = \<lparr>sc_id = sid, sc_hosts = take (nat n) hosts, sc_arguments = argv,
    sc_count = n, sc_first_global_id = length (b_minnows b)\<rparr>"
  have b': "b_minnow_index_map b' = mput sid (members s) (b_minnow_index_map b)"
      "b_school_index_map b' = mput sid (length (b_schools b)) (b_school_index_map b)"
      "b_schools b' = b_schools b @ [s]"
      "b_minnows b' = b_minnows b @ map (new_minnow (length (b_schools b))) [0..<nat n]"
    using False assms(2) by (auto simp: phish_bait_school_def Let_def s_def members_def)
  have ok: "schooled b" "wired (b_minnows b)"
    using assms(1) by (simp_all add: bait_ok_def)
  have old: "k < length (b_schools b)" "sc_id (b_schools b ! k) = i"
    if "mfind (b_school_index_map b) i = Some k" for i k
    using ok(1) that by (simp_all add: schooled_def)
  have find: "mfind (b_minnow_index_map b) i =
      map_option (\<lambda>k. members (b_schools b ! k)) (mfind (b_school_index_map b) i)" for i
    using ok(1) by (simp add: schooled_def)
  have schools: "0 < sc_count t \<and> int (length (sc_hosts t)) = sc_count t \<and>
      sc_first_global_id t + nat (sc_count t) \<le> length (b_minnows b)"
    if "t \<in> set (b_schools b)" for t
    using ok(1) that by (simp add: schooled_def)
  have "schooled b'"
    unfolding schooled_def b'
  proof (intro conjI allI impI ballI)
    fix i show "mfind (mput sid (members s) (b_minnow_index_map b)) i =
        map_option (\<lambda>k. members ((b_schools b @ [s]) ! k))
          (mfind (mput sid (length (b_schools b)) (b_school_index_map b)) i)"
      by (cases "mfind (b_school_index_map b) i")
        (auto simp: mfind_mput find nth_append dest: old(1))
  next
    fix i k assume "mfind (mput sid (length (b_schools b)) (b_school_index_map b)) i = Some k"
    then show "k < length (b_schools b @ [s])" "sc_id ((b_schools b @ [s]) ! k) = i"
      by (auto simp: mfind_mput nth_append s_def less_Suc_eq split: if_splits dest: old)
  next
    fix t assume "t \<in> set (b_schools b @ [s])"
    then show "0 < sc_count t" "int (length (sc_hosts t)) = sc_count t"
        "sc_first_global_id t + nat (sc_count t)
         \<le> length (b_minnows b @ map (new_minnow (length (b_schools b))) [0..<nat n])"
      using False schools [of t] by (auto simp: s_def)
  qed (use ok(1) False in
      \<open>auto simp: schooled_def msorted_mput nth_append new_minnow_def s_def not_less\<close>)
  then show ?thesis
    using wired_new_minnows [OF ok(2)] by (simp add: bait_ok_def b')
qed

lemma members_bound:
  assumes "bait_ok b" "k \<in> set (mat [] (b_minnow_index_map b) s)"
  shows "k < length (b_minnows b)"
proof -
  obtain i where i: "mfind (b_school_index_map b) s = Some i"
      "k \<in> set (members (b_schools b ! i))"
  proof (cases "mfind (b_school_index_map b) s")
    case None
    then have "mat [] (b_minnow_index_map b) s = []"
      using assms(1) by (simp add: bait_ok_def schooled_def mat_def)
    then show ?thesis using assms(2) by simp
  next
    case (Some i)
    then have "mat [] (b_minnow_index_map b) s = members (b_schools b ! i)"
      using assms(1) by (simp add: bait_ok_def schooled_def mat_def)
    then show ?thesis using that Some assms(2) by simp
  qed
  then have "i < length (b_schools b)" using assms(1) by (simp add: bait_ok_def schooled_def)
  then have "sc_first_global_id (b_schools b ! i) + nat (sc_count (b_schools b ! i))
      \<le> length (b_minnows b)"
    using assms(1) nth_mem unfolding bait_ok_def schooled_def by blast
  then show ?thesis using i(2) by (simp add: members_def)
qed

lemma bait_ok_hook:
  assumes "bait_ok b" "phish_bait_hook oid op style ip iid b = Ret code b'"
  shows "bait_ok b'"
proof (cases "b' = b")
  case False
  let ?outs = "mat [] (b_minnow_index_map b) oid" and ?ins = "mat [] (b_minnow_index_map b) iid"
  have known: "\<forall>k \<in> set (mat [] (b_minnow_index_map b) s). k < length (b_minnows b)" for s
    using members_bound [OF assms(1)] by blast
  obtain ws where ws: "hook_wires style oid iid ?outs ?ins = Inr ws"
    and b': "b_minnows b' = fold (lay_wire op ip) ws (b_minnows b)"
      "b_school_index_map b' = b_school_index_map b"
      "b_minnow_index_map b' = b_minnow_index_map b" "b_schools b' = b_schools b"
    using assms(2) False
    by (auto simp: phish_bait_hook_def Let_def split: if_splits sum.splits)
  have "\<forall>w \<in> set ws. wire_within (length (b_minnows b)) w"
    using hook_wires_within [OF ws known known] by blast
  then have "wired (b_minnows b')"
    using assms(1) by (simp add: b' bait_ok_def wired_lay_wires)
  moreover have "schooled b'"
    using assms(1) nth_schools [OF lay_wires_schools, of _ "b_minnows b"]
    unfolding bait_ok_def schooled_def b' length_lay_wires by simp
  ultimately show ?thesis by (simp add: bait_ok_def)
qed (use assms in simp)

lemma bait_ok_step: "bait_ok b \<Longrightarrow> bait_step call b = Ret code b' \<Longrightarrow> bait_ok b'"
  by (cases call)
    (auto simp: bait_ok_reset bait_ok_set intro: bait_ok_school bait_ok_hook)

lemma bait_ok_baited: "baited b \<Longrightarrow> bait_ok b"
  by (induction rule: baited.induct) (auto intro: bait_ok_reset bait_ok_step)

section \<open>Fan-in\<close>

text \<open>How many connections a hook adds at a minnow of the input school.\<close>

definition fan_in :: "string \<Rightarrow> nat list \<Rightarrow> nat list \<Rightarrow> nat \<Rightarrow> nat" where
  "fan_in style outs ins m =
     (if style = ''chain'' then count_list (tl ins) m
      else if style = ''paired'' \<or> style = ''ring'' then count_list ins m
      else length outs * count_list ins m)"

lemma lay_wires_incoming:
  "m < length ms \<Longrightarrow> mat 0 (mn_incoming (fold (lay_wire op ip) ws ms ! m)) q =
     mat 0 (mn_incoming (ms ! m)) q +
       (if ip = q then int (sum_list (map (\<lambda>w. count_list (snd (snd w)) m) ws)) else 0)"
  by (induction ws arbitrary: ms)
    (simp_all add: lay_wire_def wire_connection_def connect_incoming count_ins_mat)

lemma count_list_nth:
  "count_list xs m = sum_list (map (\<lambda>i. if xs ! i = m then 1 else 0) [0..<length xs])"
proof -
  have "count_list (map ((!) xs) ns) m = sum_list (map (\<lambda>i. if xs ! i = m then 1 else 0) ns)" for ns
    by (induction ns) simp_all
  from this [of "[0..<length xs]"] show ?thesis by (simp add: map_nth)
qed

lemma count_list_single: "count_list [x] m = (if x = m then 1 else 0)"
  by simp

lemma count_list_rotate1: "count_list (rotate1 xs) m = count_list xs m"
  by (cases xs) simp_all

lemma hook_wires_fan_in:
  assumes "hook_wires style oid iid outs ins = Inr ws" "oid = iid \<longrightarrow> outs = ins"
  shows "sum_list (map (\<lambda>w. count_list (snd (snd w)) m) ws) = fan_in style outs ins m"
proof -
  have ring: "sum_list (map (\<lambda>i. if ins ! (Suc i mod length ins) = m then 1 else 0) [0..<length ins]) =
      count_list ins m"
  proof -
    have "sum_list (map (\<lambda>i. if ins ! (Suc i mod length ins) = m then 1 else (0 :: nat)) [0..<length ins]) =
        sum_list (map (\<lambda>i. if rotate1 ins ! i = m then 1 else 0) [0..<length (rotate1 ins)])"
      by (rule arg_cong [where f = sum_list], rule map_cong) (auto simp: nth_rotate1)
    then show ?thesis by (simp only: count_list_nth [symmetric] count_list_rotate1)
  qed
  have chain: "sum_list (map (\<lambda>i. if ins ! Suc i = m then 1 else 0) [0..<length ins - 1]) =
      count_list (tl ins) m"
    unfolding count_list_nth [of "tl ins"] length_tl
    by (rule arg_cong [where f = sum_list], rule map_cong) (auto simp: nth_tl)
  have each: "sum_list (map (\<lambda>w. count_list ins m) outs) = length outs * count_list ins m"
    by (induction outs) simp_all
  show ?thesis
    using assms ring chain each count_list_nth [of ins m]
    by (auto simp: hook_wires_def fan_in_def comp_def count_list_single
        simp del: count_list.simps(2) split: if_splits)
qed

section \<open>Properties\<close>

text \<open>
  C15: Every network description that the calls of the library can build, in any order and with
  failing calls in between, is consistent: schools and index maps agree, and what a minnow
  expects on an input port is the number of wires of the description that end there.
\<close>

theorem baited_ok:
  assumes "baited b"
  shows "bait_ok b"
  using assms by (rule bait_ok_baited)

text \<open>Two readers and a counter.\<close>

primrec bait_run :: "bait_call list \<Rightarrow> bait \<Rightarrow> bait" where
  "bait_run [] b = b"
| "bait_run (call # calls) b = (case bait_step call b of Ret _ b' \<Rightarrow> bait_run calls b' | _ \<Rightarrow> b)"

lemma baited_run: "baited b \<Longrightarrow> baited (bait_run calls b)"
proof (induction calls arbitrary: b)
  case (Cons call calls)
  then show ?case by (cases "bait_step call b") (simp_all add: baited_step)
qed simp

definition sample_schools :: bait where
  "sample_schools =
     bait_run [School ''reader'' 2 [''h1'', ''h2''] [''file2words''],
       School ''counter'' 1 [''h3''] [''count'']] phish_bait_reset"

definition sample_network :: bait where
  "sample_network = bait_run [Hook ''reader'' 0 ''hashed'' 0 ''counter''] sample_schools"

lemma sample_schools_baited: "baited sample_schools"
  unfolding sample_schools_def by (intro baited_run baited_start)

lemma sample_network_baited: "baited sample_network"
  unfolding sample_network_def by (intro baited_run sample_schools_baited)

theorem baited_ok_witness: "bait_ok sample_network"
  by (rule baited_ok) (rule sample_network_baited)

text \<open>
  C20: A successful hook adds at every minnow of the input school the connections its style
  promises (one from every output minnow; one in pairs and in a ring; one except for the first
  in a chain), on the input port and on no other.
\<close>

theorem hook_adds_fan_in:
  assumes "baited b" "phish_bait_hook oid op style ip iid b = Ret 0 b'" "m < length (b_minnows b)"
  shows "mat 0 (mn_incoming (b_minnows b' ! m)) p =
    mat 0 (mn_incoming (b_minnows b ! m)) p +
      (if p = ip then int (fan_in style (mat [] (b_minnow_index_map b) oid)
         (mat [] (b_minnow_index_map b) iid) m) else 0)"
proof -
  obtain ws where "hook_wires style oid iid (mat [] (b_minnow_index_map b) oid)
        (mat [] (b_minnow_index_map b) iid) = Inr ws"
      "b_minnows b' = fold (lay_wire op ip) ws (b_minnows b)"
    using assms(2) by (auto simp: phish_bait_hook_def Let_def split: if_splits sum.splits)
  then show ?thesis
    using hook_wires_fan_in lay_wires_incoming [OF assms(3)] by auto
qed

theorem hook_adds_fan_in_witness:
  "mat 0 (mn_incoming (b_minnows sample_network ! 2)) 0 =
    mat 0 (mn_incoming (b_minnows sample_schools ! 2)) 0 +
      (if (0 :: int) = 0 then int (fan_in ''hashed'' (mat [] (b_minnow_index_map sample_schools) ''reader'')
         (mat [] (b_minnow_index_map sample_schools) ''counter'') 2) else 0) \<and>
    mat 0 (mn_incoming (b_minnows sample_network ! 2)) 0 = 2"
proof
  show "mat 0 (mn_incoming (b_minnows sample_network ! 2)) 0 =
    mat 0 (mn_incoming (b_minnows sample_schools ! 2)) 0 +
      (if (0 :: int) = 0 then int (fan_in ''hashed'' (mat [] (b_minnow_index_map sample_schools) ''reader'')
         (mat [] (b_minnow_index_map sample_schools) ''counter'') 2) else 0)"
  proof (rule hook_adds_fan_in [OF sample_schools_baited])
    show "phish_bait_hook ''reader'' 0 ''hashed'' 0 ''counter'' sample_schools = Ret 0 sample_network"
      by code_simp
    show "2 < length (b_minnows sample_schools)" by code_simp
  qed
  show "mat 0 (mn_incoming (b_minnows sample_network ! 2)) 0 = 2" by code_simp
qed

end
