(* ===== verification/Phish_Launch.thy ===== *)
theory Phish_Launch
  imports Phish_Init Phish_Bait Phish_Items
begin

text \<open>
  Launching the described network (\<^verbatim>\<open>src/phish/phish-bait-zmq.cpp\<close>): the addresses of the
  minnows, the command line of each, the start-up protocol over the control ports. The lemmas
  show that \<^verbatim>\<open>phish_init\<close> of the launched minnow reads back from its command line what
  the description says about it.
\<close>

section \<open>Command lines\<close>

definition endpoint :: "nat \<Rightarrow> string" where
  "endpoint port = ''ipc:///tmp/endpt'' @ string_cast (int port)"

definition control_port_internal :: "nat \<Rightarrow> string" where
  "control_port_internal i = endpoint (5555 + i)"

definition input_port_internal :: "nat \<Rightarrow> nat \<Rightarrow> string" where
  "input_port_internal n i = endpoint (5555 + n + i)"

definition input_arguments :: "(int, int) smap \<Rightarrow> string list" where
  "input_arguments incoming =
     concat (map (\<lambda>(port, count). [''--phish-input-connections'',
       string_cast port @ ''+'' @ string_cast count]) incoming)"

definition output_arguments :: "nat \<Rightarrow> connection list \<Rightarrow> string list" where
  "output_arguments n outgoing =
     concat (map (\<lambda>c. [''--phish-output-connection'',
       string_cast (cn_output_port c) @ ''+'' @ cn_send_pattern c @ ''+'' @
         string_cast (cn_input_port c) @
         concat (map ((#) (CHR ''+'')) (map (input_port_internal n) (cn_input_indices c)))])
       outgoing)"

definition setting :: "bait \<Rightarrow> string \<Rightarrow> string \<Rightarrow> string" where
  "setting b name otherwise = mat otherwise (b_settings b) name"

text \<open>The vector \<open>arguments\<close>; schools, hosts and recipients are looked up without a bounds check.\<close>

definition minnow_arguments :: "bait \<Rightarrow> nat \<Rightarrow> string list" where
  "minnow_arguments b i =
     (let m = b_minnows b ! i; n = length (b_minnows b); school = b_schools b ! mn_school_index m
      in sc_arguments school @
         [''--phish-backend'', ''zmq'',
          ''--phish-host'', sc_hosts school ! mn_local_id m,
          ''--phish-school-id'', sc_id school,
          ''--phish-local-id'', string_cast (int (mn_local_id m)),
          ''--phish-local-count'', string_cast (sc_count school),
          ''--phish-global-id'', string_cast (int i),
          ''--phish-global-count'', string_cast (int n),
          ''--phish-memory'', setting b ''memory'' ''1024'',
          ''--phish-high-water-mark'', setting b ''high-water-mark'' ''1000'',
          ''--phish-control-port'', control_port_internal i,
          ''--phish-input-port'', input_port_internal n i] @
         input_arguments (mn_incoming m) @ output_arguments n (mn_outgoing m))"

section \<open>Starting\<close>

text \<open>
  What the launcher asks of the system, in order. \<open>forks i\<close> is the process id the parent gets
  from the i-th \<open>fork\<close>, or \<open>None\<close> when it fails; the child runs the command line and is a
  process of its own. \<open>responses i\<close> is what the i-th control port answers, or \<open>None\<close> when
  it never does.
\<close>

datatype launch_event =
  Spawn nat "string list"
| Connect string
| Request string
| Close string
| Wait_pid nat
| Terminate

fun spawn_minnows ::
  "bait \<Rightarrow> (nat \<Rightarrow> nat option) \<Rightarrow> nat list \<Rightarrow> launch_event list \<Rightarrow> launch_event list \<times> nat list option"
where
  "spawn_minnows b forks [] log = (log, Some [])"
| "spawn_minnows b forks (i # is) log =
     (case forks i of
        None \<Rightarrow> (log, None)
      | Some pid \<Rightarrow>
          let (log, pids) = spawn_minnows b forks is (log @ [Spawn pid (minnow_arguments b i)])
          in (log, map_option ((#) pid) pids))"

fun start_minnows ::
  "(nat \<Rightarrow> string option) \<Rightarrow> nat list \<Rightarrow> launch_event list \<Rightarrow> (launch_event list, bool) res"
where
  "start_minnows responses [] log = Ret True log"
| "start_minnows responses (i # is) log =
     (let log = log @ [Connect (control_port_internal i), Request ''start'']
      in case responses i of
           None \<Rightarrow> Blocked log
         | Some r \<Rightarrow>
             if r \<noteq> ''ok'' then Ret False log
             else start_minnows responses is (log @ [Close (control_port_internal i)]))"

definition phish_bait_start ::
  "bait \<Rightarrow> (nat \<Rightarrow> nat option) \<Rightarrow> (nat \<Rightarrow> string option) \<Rightarrow> (launch_event list, int) res" where
  "phish_bait_start b forks responses =
     (case spawn_minnows b forks [0..<length (b_minnows b)] [] of
        (log, None) \<Rightarrow> Ret (- 1) log
      | (log, Some pids) \<Rightarrow>
          bnd (start_minnows responses [0..<length pids] log) (\<lambda>ok log.
            if ok then Ret 0 (log @ map Wait_pid pids @ [Terminate]) else Ret (- 1) log))"

section \<open>Addresses\<close>

lemma string_cast_inj:
  assumes "string_cast i = string_cast j" "int_range i" "int_range j"
  shows "i = j"
proof -
  have "get_int 0 (string_cast i, False) = (i, ([], False))" if "int_range i" for i
    using get_int_string_cast [of i "[]" "[]" 0] that by (simp add: int_range_def word_end_def)
  then show ?thesis using assms by (metis prod.inject)
qed

lemma endpoint_eq: "endpoint p = endpoint q \<Longrightarrow> p < 2 ^ 31 \<Longrightarrow> q < 2 ^ 31 \<Longrightarrow> p = q"
  using string_cast_inj [of "int p" "int q"] by (simp add: endpoint_def int_range_def)

lemma plain_endpoint: "plain_word (endpoint p)"
  by (auto simp: plain_word_def endpoint_def is_space_def dest: string_cast_no_space)

lemma plain_input_ports: "\<forall>w \<in> set (map (input_port_internal n) is). plain_word w"
  by (simp add: input_port_internal_def plain_endpoint)

section \<open>Reading the command line back\<close>

text \<open>Every pattern a hook lays is one the library knows, and every port fits an \<open>int\<close>.\<close>

definition wire_readable :: "connection \<Rightarrow> bool" where
  "wire_readable c \<longleftrightarrow>
     int_range (cn_output_port c) \<and> int_range (cn_input_port c) \<and>
     send_pattern (cn_send_pattern c) \<noteq> None"

definition launched_connection :: "nat \<Rightarrow> connection \<Rightarrow> output_connection" where
  "launched_connection n c =
     \<lparr>m_input_port = cn_input_port c,
      m_recipients = map (input_port_internal n) (cn_input_indices c),
      m_pattern = the (send_pattern (cn_send_pattern c))\<rparr>"

lemma parse_input_arguments:
  assumes "\<forall>(p, k) \<in> set incoming. int_range p \<and> int_range k"
  shows "parse_arguments E hwm kept (input_arguments incoming @ rest) s =
    parse_arguments E hwm kept rest
      (s\<lparr>g_connection_count := fold (\<lambda>(p, k). mput p k) incoming (g_connection_count s)\<rparr>)"
  using assms
proof (induction incoming arbitrary: s)
  case (Cons e incoming)
  obtain p k where e: "e = (p, k)" by (cases e)
  then have "int_range p" "int_range k" using Cons.prems by auto
  note spec = input_connections_spec [OF this]
  have "parse_arguments E hwm kept (input_arguments (e # incoming) @ rest) s =
      parse_arguments E hwm kept (input_arguments incoming @ rest)
        (input_connections (string_cast p @ ''+'' @ string_cast k) s)"
    by (simp add: input_arguments_def e parse_options)
  then show ?case using Cons by (simp only: spec) (simp add: e)
qed (simp add: input_arguments_def)

definition add_connection :: "nat \<Rightarrow> u64 \<Rightarrow> connection \<Rightarrow> 'u phish_scheme \<Rightarrow> 'u phish_scheme" where
  "add_connection n hwm c s =
     s\<lparr>zmq_log := zmq_log s @
         map (\<lambda>r. ZConnect r (Some hwm)) (map (input_port_internal n) (cn_input_indices c)),
       g_output_connections :=
         mput (cn_output_port c)
           (mat [] (g_output_connections s) (cn_output_port c) @ [launched_connection n c])
           (g_output_connections s)\<rparr>"

lemma parse_output_arguments:
  assumes "\<forall>c \<in> set outgoing. wire_readable c"
  shows "parse_arguments E hwm kept (output_arguments n outgoing @ rest) s =
    parse_arguments E hwm kept rest (fold (add_connection n hwm) outgoing s)"
  using assms
proof (induction outgoing arbitrary: s)
  case (Cons c outgoing)
  then obtain p where p: "send_pattern (cn_send_pattern c) = Some p"
      "int_range (cn_output_port c)" "int_range (cn_input_port c)"
    by (auto simp: wire_readable_def)
  have "parse_arguments E hwm kept (output_arguments n (c # outgoing) @ rest) s =
      continue_with (parse_output_connection E hwm
        (string_cast (cn_output_port c) @ ''+'' @ cn_send_pattern c @ ''+'' @
          string_cast (cn_input_port c) @
          concat (map ((#) (CHR ''+'')) (map (input_port_internal n) (cn_input_indices c)))) s) kept
      (parse_arguments E hwm kept (output_arguments n outgoing @ rest))"
    by (simp add: output_arguments_def parse_options)
  also have "\<dots> = parse_arguments E hwm kept (output_arguments n outgoing @ rest)
      (add_connection n hwm c s)"
    by (subst output_connection_spec [OF p(2,3,1) plain_input_ports])
      (simp add: continue_with_def add_connection_def launched_connection_def p)
  finally show ?case using Cons by simp
qed (simp add: output_arguments_def)


text \<open>Reading a sorted map entry by entry builds it again.\<close>

lemma fold_mput_Nil: "msorted m \<Longrightarrow> fold (\<lambda>(p, k). mput p k) m [] = m"
proof -
  assume m: "msorted m"
  have find: "mfind (fold (\<lambda>(p, k). mput p k) m m0) q =
      (case mfind m q of None \<Rightarrow> mfind m0 q | Some k \<Rightarrow> Some k)" if "msorted m" for q m0
    using that
  proof (induction m arbitrary: m0)
    case (Cons e m)
    obtain a b where e: "e = (a, b)" by (cases e)
    have "msorted m" and a: "a \<notin> set (mkeys m)"
      using Cons.prems by (auto simp: e msorted_Cons)
    then show ?case
      using Cons.IH by (auto simp: e mfind_None_iff [symmetric] split: option.splits)
  qed simp
  have "msorted (fold (\<lambda>(p, k). mput p k) m m0)" if "msorted m0" for m0
    using that by (induction m arbitrary: m0) (auto simp: msorted_mput)
  then show ?thesis
    by (intro msorted_ext) (use m find [OF m, of "[]"] in \<open>auto split: option.splits\<close>)
qed

text \<open>The outgoing connections of a port, in the order of the hooks.\<close>

definition port_connections :: "nat \<Rightarrow> connection list \<Rightarrow> int \<Rightarrow> output_connection list" where
  "port_connections n outgoing p =
     map (launched_connection n) (filter (\<lambda>c. cn_output_port c = p) outgoing)"

lemma add_connections_mat:
  "mat [] (g_output_connections (fold (add_connection n hwm) cs s)) p =
     mat [] (g_output_connections s) p @ port_connections n cs p"
  by (induction cs arbitrary: s) (auto simp: add_connection_def port_connections_def)

lemma add_connections_mkeys:
  "set (mkeys (g_output_connections (fold (add_connection n hwm) cs s))) =
     set (mkeys (g_output_connections s)) \<union> cn_output_port ` set cs"
  by (induction cs arbitrary: s) (auto simp: add_connection_def)

lemma add_connections_msorted:
  "msorted (g_output_connections s) \<Longrightarrow>
     msorted (g_output_connections (fold (add_connection n hwm) cs s))"
  by (induction cs arbitrary: s) (auto simp: add_connection_def msorted_mput)

lemma add_connections_sends:
  "ZSend r bs b \<in> set (zmq_log (fold (add_connection n hwm) cs s)) \<longleftrightarrow> ZSend r bs b \<in> set (zmq_log s)"
  by (induction cs arbitrary: s) (auto simp: add_connection_def)

definition fresh_process :: "'u phish_scheme \<Rightarrow> bool" where
  "fresh_process s \<longleftrightarrow>
     \<not> g_initialized s \<and> \<not> g_checked s \<and> g_at_abort s = None \<and> g_port_required s = [] \<and>
     g_connection_count s = [] \<and> g_output_connections s = [] \<and>
     g_datum_pool s = [] \<and> g_unused_datum_pool s = [] \<and> pool_live s \<and> zmq_log s = []"

text \<open>The state of a minnow that was launched as minnow \<open>i\<close> of the description.\<close>

definition launched :: "bait \<Rightarrow> nat \<Rightarrow> 'u phish_scheme \<Rightarrow> bool" where
  "launched b i s \<longleftrightarrow>
     (let m = b_minnows b ! i; n = length (b_minnows b); school = b_schools b ! mn_school_index m
      in g_initialized s \<and> \<not> g_checked s \<and> g_at_abort s = None \<and> g_port_required s = [] \<and>
         g_school_id s = sc_id school \<and>
         g_local_id s = int (mn_local_id m) \<and> g_local_count s = sc_count school \<and>
         g_global_id s = int i \<and> g_global_count s = int n \<and>
         g_control_port s = Some (control_port_internal i) \<and>
         g_input_port s = Some (input_port_internal n i) \<and>
         g_connection_count s = mn_incoming m \<and>
         msorted (g_output_connections s) \<and>
         (\<forall>p. mat [] (g_output_connections s) p = port_connections n (mn_outgoing m) p) \<and>
         (\<forall>p. mcount (g_output_connections s) p \<longleftrightarrow> (\<exists>c \<in> set (mn_outgoing m). cn_output_port c = p)) \<and>
         packed [] s \<and> (\<forall>r bs b. ZSend r bs b \<in> set (zmq_log s) \<longrightarrow> length bs = 2))"

text \<open>What a description has to satisfy for its command lines to be readable.\<close>

definition launchable :: "bait \<Rightarrow> nat \<Rightarrow> bool" where
  "launchable b i \<longleftrightarrow>
     (let m = b_minnows b ! i; school = b_schools b ! mn_school_index m;
          mem = fst (get_int 1 (setting b ''memory'' ''1024'', False))
      in i < length (b_minnows b) \<and>
         sc_arguments school \<noteq> [] \<and>
         (\<forall>a \<in> set (sc_arguments school). a \<notin> set library_options) \<and>
         sc_id school \<noteq> [] \<and> sc_hosts school ! mn_local_id m \<noteq> [] \<and>
         int_range (sc_count school) \<and> int (length (b_minnows b)) < 2 ^ 30 \<and>
         0 < mem \<and> mem * 1024 < 2 ^ 31 \<and>
         (\<forall>(p, k) \<in> set (mn_incoming m). int_range p \<and> int_range k) \<and>
         (\<forall>c \<in> set (mn_outgoing m). wire_readable c))"

lemma get_int_cast: "int_range i \<Longrightarrow> fst (get_int old (string_cast i, False)) = i"
  using get_int_string_cast [of i "[]" "[]" old] by (simp add: int_range_def word_end_def)

lemma first_buffers_packed:
  assumes "g_datum_pool s = []" "g_unused_datum_pool s = []" "pool_live s" "4 \<le> g_datum_size s"
  shows "\<exists>d. length d = g_datum_size s \<and> take 4 d = le_bytes 4 (0 :: u32) \<and>
    first_buffers s = Ret () (s\<lparr>g_datum_pool := [d, replicate (g_datum_size s) 0],
      g_pack_begin := 0, g_pack_end := 4, g_unpack_begin := 1, g_unpack_current := 0,
      g_unpack_end := 0\<rparr>)"
  using assms
  by (intro exI [of _ "splice_at (replicate (g_datum_size s) 0) 0 (le_bytes 4 (0 :: u32))"])
    (simp add: first_buffers_def use_datum_def set_pack_count_def store_at_def in_datum_def
      splice_at_def)

lemma add_connections_fields [simp]:
  fixes s :: "'u phish_scheme" and cs :: "connection list" and hwm :: u64 and n :: nat
  defines "t \<equiv> fold (add_connection n hwm) cs s"
  shows "g_initialized t = g_initialized s" "g_backend t = g_backend s" "g_host t = g_host s"
    "g_school_id t = g_school_id s" "g_local_id t = g_local_id s"
    "g_local_count t = g_local_count s" "g_global_id t = g_global_id s"
    "g_global_count t = g_global_count s" "g_control_port t = g_control_port s"
    "g_input_port t = g_input_port s" "g_connection_count t = g_connection_count s"
    "g_datum_size t = g_datum_size s" "g_datum_pool t = g_datum_pool s"
    "g_unused_datum_pool t = g_unused_datum_pool s" "pool_live t = pool_live s"
    "g_checked t = g_checked s" "g_at_abort t = g_at_abort s" "g_port_required t = g_port_required s"
  unfolding t_def by (induction cs arbitrary: s) (simp_all add: add_connection_def)

lemma parse_minnow_arguments:
  fixes s :: "'u phish_scheme"
  assumes "launchable b i" "bait_ok b" "g_connection_count s = []" "g_output_connections s = []"
  defines "m \<equiv> b_minnows b ! i" and "n \<equiv> length (b_minnows b)"
  defines "school \<equiv> b_schools b ! mn_school_index m"
  shows "\<exists>t. parse_arguments E hwm [] (minnow_arguments b i) s = Ret (None, sc_arguments school) t \<and>
    g_initialized t = g_initialized s \<and> g_backend t = ''zmq'' \<and>
    g_host t = sc_hosts school ! mn_local_id m \<and> g_school_id t = sc_id school \<and>
    g_local_id t = int (mn_local_id m) \<and> g_local_count t = sc_count school \<and>
    g_global_id t = int i \<and> g_global_count t = int n \<and>
    g_control_port t = Some (control_port_internal i) \<and>
    g_input_port t = Some (input_port_internal n i) \<and> g_connection_count t = mn_incoming m \<and>
    msorted (g_output_connections t) \<and>
    (\<forall>p. mat [] (g_output_connections t) p = port_connections n (mn_outgoing m) p) \<and>
    (\<forall>p. mcount (g_output_connections t) p \<longleftrightarrow> (\<exists>c \<in> set (mn_outgoing m). cn_output_port c = p)) \<and>
    g_datum_pool t = g_datum_pool s \<and> g_unused_datum_pool t = g_unused_datum_pool s \<and>
    pool_live t = pool_live s \<and> 4 \<le> g_datum_size t \<and>
    g_checked t = g_checked s \<and> g_at_abort t = g_at_abort s \<and>
    g_port_required t = g_port_required s \<and>
    ((\<forall>r bs b. ZSend r bs b \<notin> set (zmq_log s)) \<longrightarrow> (\<forall>r bs b. ZSend r bs b \<notin> set (zmq_log t)))"
proof -
  define mem where "mem = fst (get_int 1 (setting b ''memory'' ''1024'', False))"
  have i: "i < n" "sc_arguments school \<noteq> []"
      "\<forall>a \<in> set (sc_arguments school). a \<notin> set library_options"
      "0 < mem" "mem * 1024 < 2 ^ 31" "int_range (sc_count school)"
      "\<forall>(p, k) \<in> set (mn_incoming m). int_range p \<and> int_range k"
      "\<forall>c \<in> set (mn_outgoing m). wire_readable c" "int n < 2 ^ 30"
    using assms(1) by (simp_all add: launchable_def Let_def m_def n_def school_def mem_def)
  have "int (mn_local_id m) < sc_count school"
    using assms(2) i(1) by (simp add: bait_ok_def schooled_def m_def n_def school_def)
  then have ints: "int_range (int i)" "int_range (int n)" "int_range (int (mn_local_id m))"
    using i by (auto simp: int_range_def)
  have "msorted (mn_incoming m)"
    using assms(2) i(1) by (simp add: bait_ok_def wired_def m_def n_def)
  note incoming = fold_mput_Nil [OF this]
  note step = parse_own_arguments [OF i(3)] parse_options get_int_cast ints i(6)
    parse_input_arguments [OF i(7)]
    parse_output_arguments [OF i(8), where rest = "[]", simplified] parse_no_arguments incoming
  have mem: "0 \<le> fst (get_int 1 (setting b ''memory'' ''1024'', False))"
      "fst (get_int 1 (setting b ''memory'' ''1024'', False)) * 1024 < 2 ^ 31"
    using i by (simp_all add: mem_def)
  show ?thesis
    using i(4,5) assms(3,4)
    by (simp add: minnow_arguments_def Let_def m_def [symmetric] n_def [symmetric]
        school_def [symmetric] step mem zmq_call_def mem_def [symmetric]
        add_connections_mat add_connections_mkeys add_connections_msorted mcount_iff
        add_connections_sends)
      (auto simp: mat_def)
qed

lemma launched_minnow_init:
  fixes s :: "'u phish_scheme"
  assumes "bait_ok b" "launchable b i" "fresh_process s" "start_request request"
  shows "\<exists>t. phish_init E (Some request) (minnow_arguments b i) s =
      Ret (0, sc_arguments (b_schools b ! mn_school_index (b_minnows b ! i))) t \<and> launched b i t"
proof -
  let ?args = "minnow_arguments b i" and ?m = "b_minnows b ! i"
  let ?school = "b_schools b ! mn_school_index ?m" and ?n = "length (b_minnows b)"
  let ?s = "s\<lparr>g_initialized := True, g_executable := hd ?args\<rparr>"
  have "?args \<noteq> []" by (simp add: minnow_arguments_def Let_def)
  obtain t where parse: "parse_arguments E 1000 [] ?args ?s = Ret (None, sc_arguments ?school) t"
    and t: "g_initialized t" "g_backend t = ''zmq''" "g_host t = sc_hosts ?school ! mn_local_id ?m"
      "g_school_id t = sc_id ?school" "g_control_port t = Some (control_port_internal i)"
      "g_datum_pool t = []" "g_unused_datum_pool t = []" "pool_live t" "4 \<le> g_datum_size t"
      "g_local_id t = int (mn_local_id ?m)" "g_local_count t = sc_count ?school"
      "g_global_id t = int i" "g_global_count t = int ?n"
      "g_input_port t = Some (input_port_internal ?n i)" "g_connection_count t = mn_incoming ?m"
      "msorted (g_output_connections t)"
      "\<forall>p. mat [] (g_output_connections t) p = port_connections ?n (mn_outgoing ?m) p"
      "\<forall>p. mcount (g_output_connections t) p \<longleftrightarrow> (\<exists>c \<in> set (mn_outgoing ?m). cn_output_port c = p)"
      "\<forall>r bs b. ZSend r bs b \<notin> set (zmq_log t)" "\<not> g_checked t" "g_at_abort t = None" "g_port_required t = []"
    using parse_minnow_arguments [OF assms(2,1), of ?s E 1000] assms(3)
    by (simp add: fresh_process_def) blast
  obtain d where d: "length d = g_datum_size t" "take 4 d = le_bytes 4 (0 :: u32)"
    and bufs: "first_buffers t = Ret () (t\<lparr>g_datum_pool := [d, replicate (g_datum_size t) 0],
      g_pack_begin := 0, g_pack_end := 4, g_unpack_begin := 1, g_unpack_current := 0,
      g_unpack_end := 0\<rparr>)"
    using first_buffers_packed [OF t(6-9)] by blast
  have set: "sc_id ?school \<noteq> []" "sc_hosts ?school ! mn_local_id ?m \<noteq> []"
    using assms(2) by (simp_all add: launchable_def Let_def)
  have "packed [] u" if "g_datum_pool u = [d, replicate (g_datum_size t) 0]" "g_pack_begin u = 0"
      "g_pack_end u = 4" "g_unpack_begin u = 1" "g_unused_datum_pool u = []" "pool_live u"
      "g_datum_size u = g_datum_size t" for u :: "'u phish_scheme"
    using that d t(9) by (simp add: packed_def pool_ok_def body_bytes_def)
  with t show ?thesis
    using assms(3,4) \<open>?args \<noteq> []\<close> set
    by (simp add: phish_init_def Let_def parse bufs handshake_def launched_def zmq_call_def
        fresh_process_def)
qed

section \<open>Properties\<close>

text \<open>
  C9: The command line that the launcher builds for a minnow of a description, read by that
  minnow's \<^verbatim>\<open>phish_init\<close>, gives it back its own arguments and exactly the identity, the
  ports, the expected connections and the outgoing connections the description has for it.
\<close>

theorem launch_round_trip:
  fixes s :: "'u phish_scheme"
  assumes "baited b" "launchable b i" "fresh_process s" "start_request request"
  shows "\<exists>t. phish_init E (Some request) (minnow_arguments b i) s =
      Ret (0, sc_arguments (b_schools b ! mn_school_index (b_minnows b ! i))) t \<and> launched b i t"
  by (rule launched_minnow_init [OF bait_ok_baited [OF assms(1)] assms(2-4)])

lemma sample_network_launchable: "i < 3 \<Longrightarrow> launchable sample_network i"
proof -
  have "launchable sample_network 0" by code_simp
  moreover have "launchable sample_network 1" by code_simp
  moreover have "launchable sample_network 2" by code_simp
  moreover assume "i < 3"
  then have "i = 0 \<or> i = 1 \<or> i = 2" by auto
  ultimately show ?thesis by blast
qed

lemma phish_start_fresh: "fresh_process phish_start"
  by (simp add: fresh_process_def phish_start_def)

theorem launch_round_trip_witness:
  "\<exists>t. phish_init no_callbacks (Some ''start'') (minnow_arguments sample_network 2) phish_start =
      Ret (0, sc_arguments (b_schools sample_network !
        mn_school_index (b_minnows sample_network ! 2))) t \<and> launched sample_network 2 t"
  by (rule launch_round_trip)
    (simp_all add: sample_network_baited sample_network_launchable phish_start_fresh start_request_def)

end
