(* ===== verification/Phish_Receive.thy ===== *)
theory Phish_Receive
  imports Phish_Loop Phish_Items
begin

text \<open>
  The receiving loop against its environment. A message is what one \<open>raw_send\<close> or one
  destructor of a connection puts on the wire. The locale \<open>minnow\<close> states what a minnow's
  callbacks promise, as steps on the minnow's own abstract state; inside it \<^verbatim>\<open>phish_loop\<close>
  is shown to return with the last close message and to have applied exactly these steps.
\<close>

section \<open>Messages on the wire\<close>

datatype message = Data int "byte list option" | Closing int

definition wire_frame :: "int \<Rightarrow> byte" where
  "wire_frame p = word_of_int p AND PORT_MASK"

fun message_parts :: "message \<Rightarrow> part list" where
  "message_parts (Data p None) = [([wire_frame p], False)]"
| "message_parts (Data p (Some body)) = [([wire_frame p], True), (body, False)]"
| "message_parts (Closing p) = [([wire_frame p OR CLOSE_MESSAGE], False)]"

fun message_port :: "message \<Rightarrow> int" where
  "message_port (Data p body) = p"
| "message_port (Closing p) = p"

text \<open>The frames survive the trip for the ports that fit the mask.\<close>

lemma wire_frame_bits:
  "bit (wire_frame p) i \<longleftrightarrow> i < 7 \<and> bit p i"
proof -
  have "bit (0x7f :: byte) i \<longleftrightarrow> i < 7"
    using bit_mask_iff [where 'a = byte, of 7 i] by (auto simp: mask_eq_exp_minus_1 bit_simps)
  then show ?thesis by (auto simp: wire_frame_def PORT_MASK_def bit_simps)
qed

lemma close_bit: "bit CLOSE_MESSAGE i \<longleftrightarrow> i = 7"
  using bit_exp_iff [where 'a = byte, of 7 i] by (auto simp: CLOSE_MESSAGE_def)

lemma type_mask_close: "TYPE_MASK = CLOSE_MESSAGE"
  by (simp add: TYPE_MASK_def CLOSE_MESSAGE_def)

lemma is_close_frames [simp]:
  "is_close (wire_frame p OR CLOSE_MESSAGE)" "\<not> is_close (wire_frame p)"
proof -
  show "is_close (wire_frame p OR CLOSE_MESSAGE)"
    unfolding is_close_def type_mask_close
    by (rule bit_word_eqI) (auto simp: bit_simps close_bit wire_frame_bits)
  have "\<not> bit (wire_frame p AND TYPE_MASK) 7" by (simp add: bit_simps wire_frame_bits)
  moreover have "bit CLOSE_MESSAGE 7" by (simp add: close_bit)
  ultimately show "\<not> is_close (wire_frame p)"
    unfolding is_close_def by metis
qed

lemma frame_port_bits:
  "frame_port f = take_bit 7 (uint f)"
proof -
  have "uint (f AND PORT_MASK) = uint f AND uint PORT_MASK" by (rule uint_and)
  also have "uint PORT_MASK = mask 7" by (simp add: PORT_MASK_def mask_eq_exp_minus_1)
  finally show ?thesis by (simp add: frame_port_def take_bit_eq_mask)
qed

lemma frame_port_frames:
  assumes "0 \<le> p" "p < 128"
  shows "frame_port (wire_frame p) = p" "frame_port (wire_frame p OR CLOSE_MESSAGE) = p"
proof -
  have p: "take_bit 7 p = p" using assms by (simp add: take_bit_int_eq_self)
  have "bit (frame_port (wire_frame p)) i \<longleftrightarrow> bit (take_bit 7 p) i"
      "bit (frame_port (wire_frame p OR CLOSE_MESSAGE)) i \<longleftrightarrow> bit (take_bit 7 p) i" for i
    by (auto simp: frame_port_bits bit_simps bit_uint_iff wire_frame_bits close_bit)
  then show "frame_port (wire_frame p) = p" "frame_port (wire_frame p OR CLOSE_MESSAGE) = p"
    by (metis bit_eqI p)+
qed

section \<open>What a minnow promises\<close>

text \<open>
  The body a data message leaves in the unpack buffer; without a second part it is the count 0.
\<close>

definition body_of :: "byte list option \<Rightarrow> byte list" where
  "body_of b = (case b of None \<Rightarrow> le_bytes 4 (0 :: u32) | Some bs \<Rightarrow> bs)"

definition holds :: "byte list \<Rightarrow> 'u phish_scheme \<Rightarrow> bool" where
  "holds body s \<longleftrightarrow>
     pool_ok s \<and> length body \<le> g_datum_size s \<and> g_unpack_current s = 4 \<and>
     g_unpack_end s = length body \<and> take (length body) (unpack_datum s) = body"

text \<open>What the library itself does to the state between two callbacks.\<close>

definition same_minnow :: "'u phish_scheme \<Rightarrow> 'u phish_scheme \<Rightarrow> bool" where
  "same_minnow s t \<longleftrightarrow>
     (\<exists>m r n d c e. t = s\<lparr>g_connection_count := m, g_running := r, g_received_count := n,
        g_datum_pool := (g_datum_pool s)[g_unpack_begin s := d],
        g_unpack_current := c, g_unpack_end := e\<rparr> \<and> length d = g_datum_size s)"

definition same_loop :: "'u phish_scheme \<Rightarrow> 'u phish_scheme \<Rightarrow> bool" where
  "same_loop s t \<longleftrightarrow>
     g_running t = g_running s \<and> g_connection_count t = g_connection_count s \<and>
     g_datum_size t = g_datum_size s"

lemma pool_ok_same: "pool_ok s \<Longrightarrow> same_minnow s t \<Longrightarrow> pool_ok t"
  by (auto simp: pool_ok_def same_minnow_def dest!: set_update_subset_insert [THEN subsetD])

lemma same_minnow_count [intro]:
  "pool_ok s \<Longrightarrow> same_minnow s (s\<lparr>g_connection_count := m\<rparr>)"
  unfolding same_minnow_def
  by (intro exI [of _ m] exI [of _ "g_running s"] exI [of _ "g_received_count s"]
      exI [of _ "unpack_datum s"] exI [of _ "g_unpack_current s"] exI [of _ "g_unpack_end s"])
    (simp add: pool_ok_sizes)

lemma same_minnow_running [intro]:
  "pool_ok s \<Longrightarrow> same_minnow s (s\<lparr>g_running := r\<rparr>)"
  unfolding same_minnow_def
  by (intro exI [of _ "g_connection_count s"] exI [of _ r] exI [of _ "g_received_count s"]
      exI [of _ "unpack_datum s"] exI [of _ "g_unpack_current s"] exI [of _ "g_unpack_end s"])
    (simp add: pool_ok_sizes)

text \<open>How many closes of a port a sequence of messages has.\<close>

definition closings :: "int \<Rightarrow> message list \<Rightarrow> nat" where
  "closings p ms = length (filter (\<lambda>m. m = Closing p) ms)"

lemma closings_simps [simp]:
  "closings p [] = 0"
  "closings p (Data q b # ms) = closings p ms"
  "closings p (Closing q # ms) = (if p = q then 1 else 0) + closings p ms"
  by (auto simp: closings_def)

locale minnow =
  fixes E :: "'u phish_scheme callbacks"
    and inv :: "'u phish_scheme \<Rightarrow> bool"
    and view :: "'u phish_scheme \<Rightarrow> 'a"
    and accepts :: "int \<Rightarrow> byte list \<Rightarrow> bool"
    and on_data :: "int \<Rightarrow> byte list \<Rightarrow> 'a \<Rightarrow> 'a"
    and ready :: "int \<Rightarrow> 'a \<Rightarrow> bool"
    and on_close :: "int \<Rightarrow> 'a \<Rightarrow> 'a"
    and on_end :: "'a \<Rightarrow> 'a"
  assumes inv_pool: "inv s \<Longrightarrow> pool_ok s \<and> 4 \<le> g_datum_size s"
    and inv_same: "inv s \<Longrightarrow> same_minnow s t \<Longrightarrow> inv t \<and> view t = view s"
    and data_step: "inv s \<Longrightarrow> accepts p body \<Longrightarrow> holds body s \<Longrightarrow>
      \<exists>t. run_message E p s = Ret () t \<and> inv t \<and> same_loop s t \<and> view t = on_data p body (view s)"
    and close_step: "inv s \<Longrightarrow> ready p (view s) \<Longrightarrow>
      \<exists>t. run_closed E True p s = Ret () t \<and> inv t \<and> same_loop s t \<and> view t = on_close p (view s)"
    and end_step: "inv s \<Longrightarrow>
      \<exists>t. run_all_closed E s = Ret () t \<and> inv t \<and> same_loop s t \<and> view t = on_end (view s)"
begin

text \<open>The steps a sequence of messages asks for, given how many closes each port still waits for.\<close>

fun absorb :: "(int, int) smap \<Rightarrow> message list \<Rightarrow> 'a \<Rightarrow> 'a" where
  "absorb cnt [] a = a"
| "absorb cnt (Data p b # ms) a = absorb cnt ms (on_data p (body_of b) a)"
| "absorb cnt (Closing p # ms) a =
     (let n = mat 0 cnt p - 1 in
      if n \<noteq> 0 then absorb (mput p n cnt) ms a
      else if merase p (mput p n cnt) = [] then on_end (on_close p a)
      else absorb (merase p (mput p n cnt)) ms (on_close p a))"

text \<open>The minnow is ready for each close of a port that comes.\<close>

fun closable :: "(int, int) smap \<Rightarrow> message list \<Rightarrow> 'a \<Rightarrow> bool" where
  "closable cnt [] a = True"
| "closable cnt (Data p b # ms) a = closable cnt ms (on_data p (body_of b) a)"
| "closable cnt (Closing p # ms) a =
     (let n = mat 0 cnt p - 1 in
      if n \<noteq> 0 then closable (mput p n cnt) ms a
      else ready p a \<and> closable (merase p (mput p n cnt)) ms (on_close p a))"

lemma always_closable: "(\<And>p a. ready p a) \<Longrightarrow> closable cnt ms a"
  by (induction cnt ms a rule: closable.induct) (simp_all add: Let_def)

text \<open>A minnow with one input port sees all the data and then one close.\<close>

fun absorb_data :: "message list \<Rightarrow> 'a \<Rightarrow> 'a" where
  "absorb_data [] a = a"
| "absorb_data (Data p b # ms) a = absorb_data ms (on_data p (body_of b) a)"
| "absorb_data (Closing p # ms) a = absorb_data ms a"

lemma absorb_one_port:
  assumes "\<forall>m \<in> set ms. message_port m = q" "mat 0 cnt q = int (closings q ms)"
    "\<forall>p. p \<noteq> q \<longrightarrow> mfind cnt p = None" "0 < closings q ms" "last ms = Closing q"
  shows "absorb cnt ms a = on_end (on_close q (absorb_data ms a)) \<and>
    (closable cnt ms a \<longleftrightarrow> ready q (absorb_data ms a))"
  using assms
proof (induction ms arbitrary: cnt a)
  case (Cons m ms)
  show ?case
  proof (cases m)
    case (Data p b)
    have "ms \<noteq> []" "last ms = Closing q"
      using Cons.prems(4,5) by (auto simp: Data split: if_splits)
    then show ?thesis
      using Cons.IH [of cnt] Cons.prems by (simp add: Data)
  next
    case (Closing p)
    then have p: "p = q" using Cons.prems(1) by simp
    show ?thesis
    proof (cases "closings q ms = 0")
      case last: True
      then have "Closing q \<notin> set ms" by (simp add: closings_def filter_empty_conv) auto
      then have "ms = []" using Cons.prems(5) by (metis last_ConsR last_in_set)
      moreover have "merase q (mput q 0 cnt) = []"
      proof -
        have "mfind (merase q (mput q 0 cnt)) r = None" for r
          using Cons.prems(3) by simp
        then show ?thesis by (metis list.exhaust list.set_intros(1) mfind_None_iff mkeys_simps(2))
      qed
      ultimately show ?thesis
        using Cons.prems(2) by (simp add: Closing p Let_def)
    next
      case False
      then have "ms \<noteq> []" by auto
      then show ?thesis
        using Cons.IH [of "mput q (mat 0 cnt q - 1) cnt"] Cons.prems False
        by (simp add: Closing p Let_def)
    qed
  qed
qed simp

lemma receive_data:
  assumes "inv s" "accepts p (body_of b)" "length (body_of b) \<le> g_datum_size s"
    "4 \<le> length (body_of b)" "0 \<le> p" "p < 128"
  shows "\<exists>t. handle_data E p (b \<noteq> None) (tl (message_parts (Data p b)) @ rest) s = Ret None t \<and>
    inv t \<and> same_loop s t \<and> view t = on_data p (body_of b) (view s)"
proof -
  have ok: "pool_ok s" "4 \<le> g_datum_size s" using inv_pool [OF assms(1)] by auto
  have ub: "g_unpack_begin s < length (g_datum_pool s)" using ok(1) by (simp add: pool_ok_def)
  note size = pool_ok_sizes(2) [OF ok(1)]
  define d where "d = (case b of
      None \<Rightarrow> splice_at (unpack_datum s) 0 (le_bytes 4 (0 :: u32))
    | Some bs \<Rightarrow> splice_at (splice_at (unpack_datum s) 0 (le_bytes 4 (0 :: u32))) 0 bs)"
  define r where "r = s\<lparr>g_received_count := g_received_count s + 1,
    g_datum_pool := (g_datum_pool s)[g_unpack_begin s := d], g_unpack_current := 4,
    g_unpack_end := length (body_of b)\<rparr>"
  have d: "length d = g_datum_size s" "take (length (body_of b)) d = body_of b"
    using assms(3) ok size
    by (auto simp: d_def body_of_def splice_at_def split: option.splits)
  have same: "same_minnow s r"
    unfolding same_minnow_def r_def using d(1)
    by (intro exI [of _ "g_connection_count s"] exI [of _ "g_running s"]
        exI [of _ "g_received_count s + 1"] exI [of _ d] exI [of _ 4]
        exI [of _ "length (body_of b)"]) simp
  have "holds (body_of b) r"
    using pool_ok_same [OF ok(1) same] assms(3) d ub by (simp add: holds_def r_def)
  then obtain t where t: "run_message E p r = Ret () t" "inv t" "same_loop r t"
      "view t = on_data p (body_of b) (view r)"
    using data_step assms(1,2) inv_same same by blast
  have "handle_data E p (b \<noteq> None) (tl (message_parts (Data p b)) @ rest) s =
      bnd (run_message E p r) (\<lambda>_. Ret None)"
  proof (cases b)
    case None
    then show ?thesis
      using ok size ub
      by (simp add: handle_data_def Let_def store_at_def in_datum_def pool_ok_def r_def d_def
          body_of_def)
  next
    case (Some bs)
    let ?u = "s\<lparr>g_received_count := g_received_count s + 1, g_unpack_current := 4,
      g_datum_pool := (g_datum_pool s)[g_unpack_begin s := d], g_unpack_end := length bs\<rparr>"
    have "handle_data E p True ((bs, False) # rest) s = bnd (run_message E p ?u) (\<lambda>_. Ret None)"
      using assms(3) ok size ub
      by (simp add: handle_data_def Let_def store_at_def in_datum_def receive_body_def
          pool_ok_def d_def body_of_def Some)
    moreover have "?u = r"
      by (rule phish.equality) (simp_all add: r_def Some body_of_def)
    ultimately show ?thesis by (simp add: Some)
  qed
  moreover have "view r = view s" using inv_same [OF assms(1) same] by simp
  moreover have "same_loop s r" by (simp add: same_loop_def r_def)
  ultimately show ?thesis using t by (simp add: same_loop_def)
qed

lemma receive_closing:
  fixes p :: int
  assumes "inv s" "closable (g_connection_count s) (Closing p # ms) (view s)"
  defines "n \<equiv> mat 0 (g_connection_count s) p - 1"
  defines "cnt \<equiv> mput p n (g_connection_count s)"
  shows "\<exists>l t. handle_close E True True p s = Ret l t \<and> inv t \<and>
    g_datum_size t = g_datum_size s \<and>
    g_connection_count t = (if n \<noteq> 0 then cnt else merase p cnt) \<and>
    g_running t = (g_running s \<and> (n \<noteq> 0 \<or> merase p cnt \<noteq> [])) \<and>
    view t = (if n \<noteq> 0 then view s
              else if merase p cnt = [] then on_end (on_close p (view s))
              else on_close p (view s))"
proof -
  have cnt: "inv (s\<lparr>g_connection_count := m\<rparr>)" "view (s\<lparr>g_connection_count := m\<rparr>) = view s" for m
    using inv_same [OF assms(1) same_minnow_count] inv_pool [OF assms(1)] by auto
  show ?thesis
  proof (cases "n \<noteq> 0")
    case True
    then show ?thesis
      using cnt by (auto simp: handle_close_def Let_def n_def cnt_def)
  next
    case False
    let ?s = "s\<lparr>g_connection_count := merase p cnt\<rparr>"
    have "ready p (view s)" using assms(2) False by (simp add: n_def)
    then obtain t where t: "run_closed E True p ?s = Ret () t" "inv t" "same_loop ?s t"
        "view t = on_close p (view s)"
      using close_step [OF cnt(1), where p = p] cnt(2) by metis
    have start: "handle_close E True True p s =
        bnd (run_closed E True p ?s) (\<lambda>_ s. if g_connection_count s \<noteq> [] then Ret False s
          else bnd (run_all_closed E (s\<lparr>g_running := False\<rparr>)) (\<lambda>_. Ret True))"
      using False by (simp add: handle_close_def Let_def n_def cnt_def cong: if_cong)
    show ?thesis
    proof (cases "merase p cnt = []")
      case empty: True
      have stop: "inv (t\<lparr>g_running := False\<rparr>)" "view (t\<lparr>g_running := False\<rparr>) = view t"
        using inv_same [OF t(2) same_minnow_running] inv_pool [OF t(2)] by auto
      obtain u where "run_all_closed E (t\<lparr>g_running := False\<rparr>) = Ret () u" "inv u"
          "same_loop (t\<lparr>g_running := False\<rparr>) u" "view u = on_end (view t)"
        using end_step [OF stop(1)] stop(2) by metis
      then show ?thesis
        using t False empty by (auto simp: start same_loop_def)
    next
      case False
      then show ?thesis
        using t \<open>\<not> n \<noteq> 0\<close> by (auto simp: start same_loop_def)
    qed
  qed
qed

text \<open>A message the minnow accepts: its frame fits the mask and its body the buffer.\<close>

definition proper :: "nat \<Rightarrow> message \<Rightarrow> bool" where
  "proper sz m \<longleftrightarrow>
     0 \<le> message_port m \<and> message_port m < 128 \<and>
     (case m of
        Data p b \<Rightarrow> accepts p (body_of b) \<and> 4 \<le> length (body_of b) \<and> length (body_of b) \<le> sz
      | Closing p \<Rightarrow> True)"

text \<open>
  The loop consumes the messages up to the last close and stops there, whatever the order in
  which the data and the close messages of the senders are interleaved.
\<close>

lemma loop_data:
  assumes "inv s" "g_running s" "proper (g_datum_size s) (Data p b)"
  shows "\<exists>t. run_loop E (message_parts (Data p b) @ rest) s = run_loop E rest t \<and>
    inv t \<and> same_loop s t \<and> view t = on_data p (body_of b) (view s)"
proof -
  have p: "0 \<le> p" "p < 128" "accepts p (body_of b)" "4 \<le> length (body_of b)"
      "length (body_of b) \<le> g_datum_size s"
    using assms(3) by (simp_all add: proper_def)
  obtain t where t: "handle_data E p (b \<noteq> None) (tl (message_parts (Data p b)) @ rest) s = Ret None t"
      "inv t" "same_loop s t" "view t = on_data p (body_of b) (view s)"
    using receive_data [OF assms(1) p(3,5,4,1,2)] by blast
  have "run_loop E (message_parts (Data p b) @ rest) s = run_loop E rest t"
    using t(1) p(1,2)
    by (subst run_loop.simps) (cases b; simp add: assms(2) frame_of_def handle_frame_def
        frame_port_frames catching_def inbox_after_def)
  with t show ?thesis by blast
qed

lemma loop_closing:
  assumes "inv s" "g_running s" "proper (g_datum_size s) (Closing p)"
    "closable (g_connection_count s) (Closing p # ms) (view s)"
  defines "n \<equiv> mat 0 (g_connection_count s) p - 1"
  defines "cnt \<equiv> mput p n (g_connection_count s)"
  shows "\<exists>t. run_loop E (message_parts (Closing p) @ rest) s = run_loop E rest t \<and> inv t \<and>
    g_datum_size t = g_datum_size s \<and>
    g_connection_count t = (if n \<noteq> 0 then cnt else merase p cnt) \<and>
    g_running t = (n \<noteq> 0 \<or> merase p cnt \<noteq> []) \<and>
    view t = (if n \<noteq> 0 then view s
              else if merase p cnt = [] then on_end (on_close p (view s))
              else on_close p (view s))"
proof -
  have p: "0 \<le> p" "p < 128" using assms(3) by (simp_all add: proper_def)
  obtain l t where t: "handle_close E True True p s = Ret l t" "inv t"
      "g_connection_count t = (if n \<noteq> 0 then cnt else merase p cnt)"
      "g_datum_size t = g_datum_size s"
      "g_running t = (g_running s \<and> (n \<noteq> 0 \<or> merase p cnt \<noteq> []))"
      "view t = (if n \<noteq> 0 then view s
              else if merase p cnt = [] then on_end (on_close p (view s))
              else on_close p (view s))"
    using receive_closing [OF assms(1,4)] unfolding n_def cnt_def by blast
  have "run_loop E (message_parts (Closing p) @ rest) s = run_loop E rest t"
    using t(1) p
    by (subst run_loop.simps) (simp add: assms(2) frame_of_def handle_frame_def
        frame_port_frames catching_def inbox_after_def)
  with t assms(2) show ?thesis by auto
qed

lemma run_loop_closes:
  assumes "inv s" "g_running s" "\<forall>m \<in> set ms. proper (g_datum_size s) m"
    "\<forall>p. mcount (g_connection_count s) p \<longrightarrow> 0 < mat 0 (g_connection_count s) p"
    "\<forall>p. int (closings p ms) = mat 0 (g_connection_count s) p"
    "ms \<noteq> []" "last ms = Closing q" "closable (g_connection_count s) ms (view s)"
  shows "\<exists>t. run_loop E (concat (map message_parts ms) @ rest) s = Ret (0, rest) t \<and>
    inv t \<and> \<not> g_running t \<and> g_connection_count t = [] \<and>
    view t = absorb (g_connection_count s) ms (view s)"
  using assms
proof (induction ms arbitrary: s)
  case (Cons m ms)
  show ?case
  proof (cases m)
    case (Data p b)
    have "ms \<noteq> []" "last ms = Closing q" using Cons.prems(7) Data by (auto split: if_splits)
    obtain t where t: "run_loop E (message_parts m @ (concat (map message_parts ms) @ rest)) s =
        run_loop E (concat (map message_parts ms) @ rest) t"
        "inv t" "same_loop s t" "view t = on_data p (body_of b) (view s)"
      using loop_data [OF Cons.prems(1,2)] Cons.prems(3) unfolding Data by force
    show ?thesis
      using Cons.IH [OF t(2)] Cons.prems t \<open>ms \<noteq> []\<close> \<open>last ms = _\<close>
      by (auto simp: same_loop_def Data)
  next
    case (Closing p)
    define n where "n = mat 0 (g_connection_count s) p - 1"
    define cnt where "cnt = mput p n (g_connection_count s)"
    obtain t where t: "run_loop E (message_parts m @ (concat (map message_parts ms) @ rest)) s =
        run_loop E (concat (map message_parts ms) @ rest) t"
        "inv t" "g_datum_size t = g_datum_size s"
        "g_connection_count t = (if n \<noteq> 0 then cnt else merase p cnt)"
        "g_running t = (n \<noteq> 0 \<or> merase p cnt \<noteq> [])"
        "view t = (if n \<noteq> 0 then view s
              else if merase p cnt = [] then on_end (on_close p (view s))
              else on_close p (view s))"
      using loop_closing [OF Cons.prems(1,2) _ Cons.prems(8) [unfolded Closing]] Cons.prems(3)
      unfolding Closing n_def cnt_def
      by force
    have left: "int (closings r ms) = mat 0 (g_connection_count t) r" for r
      using Cons.prems(5)[rule_format, of r] t(4)
      by (auto simp: Closing n_def cnt_def mat_def split: if_splits)
    have pos: "mcount (g_connection_count t) r \<longrightarrow> 0 < mat 0 (g_connection_count t) r" for r
      using Cons.prems(4)[rule_format, of r] left [of r] t(4)
      by (auto simp: n_def cnt_def mcount_def mat_def split: if_splits option.splits)
    show ?thesis
    proof (cases "ms = []")
      case True
      have "mfind (g_connection_count t) r = None" for r
        using pos [of r] left [of r] by (auto simp: True mcount_def)
      then have empty: "g_connection_count t = []"
        by (metis mfind_None_iff mkeys_simps(2) list.exhaust list.set_intros(1))
      have n: "n = 0"
        using empty t(4) by (auto simp: cnt_def dest: arg_cong [where f = "\<lambda>m. mfind m p"] split: if_splits)
      then have run: "\<not> g_running t" using t(4,5) empty by simp
      have "run_loop E rest t = Ret (0, rest) t" using run by (subst run_loop.simps) simp
      then show ?thesis
        using t empty n run by (simp add: True Closing n_def cnt_def Let_def)
    next
      case False
      then have last: "last ms = Closing q" using Cons.prems(7) by simp
      have "0 < closings q ms"
        using False last last_in_set [OF False] by (auto simp: closings_def filter_empty_conv)
      then have "g_connection_count t \<noteq> []" using left [of q] by (auto simp: mat_def)
      then have "g_running t" using t(4,5) by (auto split: if_splits)
      moreover have "closable (g_connection_count t) ms (view t)"
        using Cons.prems(8) t(4,6) \<open>g_connection_count t \<noteq> []\<close>
        by (auto simp: Closing n_def cnt_def Let_def split: if_splits)
      ultimately have "g_running t" "closable (g_connection_count t) ms (view t)" .
      with Cons.IH [OF t(2) this(1)] t left pos last False Cons.prems(3)
      obtain u where u: "run_loop E (concat (map message_parts ms) @ rest) t = Ret (0, rest) u"
          "inv u" "\<not> g_running u" "g_connection_count u = []"
          "view u = absorb (g_connection_count t) ms (view t)"
        by auto
      moreover have "absorb (g_connection_count t) ms (view t) =
          absorb (g_connection_count s) (m # ms) (view s)"
        using t(4,6) \<open>g_connection_count t \<noteq> []\<close>
        by (auto simp: Closing n_def cnt_def Let_def)
      ultimately show ?thesis using t(1) by auto
    qed
  qed
qed simp

lemma phish_loop_closes:
  assumes "inv s" "g_initialized s" "g_checked s" "\<not> g_running s"
    "\<forall>m \<in> set ms. proper (g_datum_size s) m"
    "\<forall>p. mcount (g_connection_count s) p \<longrightarrow> 0 < mat 0 (g_connection_count s) p"
    "\<forall>p. int (closings p ms) = mat 0 (g_connection_count s) p"
    "ms \<noteq> []" "last ms = Closing q" "closable (g_connection_count s) ms (view s)"
  shows "\<exists>t. phish_loop E (concat (map message_parts ms) @ rest) s = Ret (0, rest) t \<and>
    inv t \<and> \<not> g_running t \<and> g_connection_count t = [] \<and>
    view t = absorb (g_connection_count s) ms (view s)"
proof -
  let ?s = "s\<lparr>g_running := True\<rparr>"
  have s: "inv ?s" "view ?s = view s"
    using inv_same [OF assms(1) same_minnow_running] inv_pool [OF assms(1)] by auto
  show ?thesis
    using run_loop_closes [OF s(1), of ms q rest] assms(2-10) s(2)
    by (simp add: phish_loop_def)
qed

end

section \<open>Reading a message\<close>

text \<open>A received body, seen as items.\<close>

lemma holds_unpacking:
  assumes "holds (body_bytes its) s"
  shows "unpacking its s" "length its < 2 ^ 32 \<Longrightarrow> unpack_count s = Ret (of_nat (length its)) s"
proof -
  let ?bs = "concat (map item_bytes its)"
  have s: "pool_ok s" "length (body_bytes its) \<le> g_datum_size s" "g_unpack_current s = 4"
      "g_unpack_end s = length (body_bytes its)"
      "take (length (body_bytes its)) (unpack_datum s) = body_bytes its"
    using assms by (simp_all add: holds_def)
  note size = pool_ok_sizes(2) [OF s(1)]
  have "seg 4 (length ?bs) (unpack_datum s) = drop 4 (take (length (body_bytes its)) (unpack_datum s))"
    by (simp add: seg_def body_bytes_def take_drop add.commute)
  also have "\<dots> = ?bs" by (simp only: s(5)) (simp add: body_bytes_def)
  finally show "unpacking its s"
    using s(1-4) by (simp add: unpacking_def body_bytes_def)
  have "take 4 (unpack_datum s) = take 4 (take (length (body_bytes its)) (unpack_datum s))"
    by (simp add: body_bytes_def min_def)
  also have "\<dots> = le_bytes 4 (of_nat (length its) :: u32)"
    by (simp only: s(5)) (simp add: body_bytes_def)
  finally show "length its < 2 ^ 32 \<Longrightarrow> unpack_count s = Ret (of_nat (length its)) s"
    using s(1,2) size
    by (simp add: unpack_count_def load_at_def in_datum_def pool_ok_def seg_def body_bytes_def)
qed

text \<open>Receiving a body into the unpack buffer.\<close>

lemma receive_body_fits:
  assumes "pool_ok s" "length body \<le> g_datum_size s" "g_unpack_current s = 4"
  shows "\<exists>t. receive_body E ((body, b) # rest) s = Ret None t \<and> holds body t"
proof -
  have u: "g_unpack_begin s < length (g_datum_pool s)" using assms(1) by (simp add: pool_ok_def)
  let ?d = "splice_at (unpack_datum s) 0 body"
  let ?t = "s\<lparr>g_datum_pool := (g_datum_pool s)[g_unpack_begin s := ?d], g_unpack_end := length body\<rparr>"
  have d: "length ?d = g_datum_size s" "take (length body) ?d = body"
    using assms(2) pool_ok_sizes(2) [OF assms(1)] by (simp_all add: splice_at_def)
  have "receive_body E ((body, b) # rest) s = Ret None ?t"
    using assms u pool_ok_sizes(2) [OF assms(1)]
    by (simp add: receive_body_def store_at_def in_datum_def pool_ok_def)
  moreover have "pool_ok ?t"
    using assms(1) d(1) by (auto simp: pool_ok_def dest!: set_update_subset_insert [THEN subsetD])
  then have "holds body ?t" using assms d u by (simp add: holds_def)
  ultimately show ?thesis by blast
qed

section \<open>Properties\<close>

text \<open>
  C14: What one process packs, another one unpacks: the items that were packed into an empty
  buffer and travelled as the body of a message come out with their types, counts and bytes, in
  order, and nothing is left in the buffer.
\<close>

theorem pack_receive_unpack:
  assumes "packed [] s" "\<forall>it \<in> set its. item_ok it" "length (body_bytes its) \<le> g_datum_size s"
    "pool_ok r" "g_datum_size r = g_datum_size s" "g_unpack_current r = 4"
  shows "\<exists>t u. pack_items E its s = Ret () t \<and>
    bnd (receive_body E' [(seg 0 (g_pack_end t) (pack_datum t), False)] r)
      (\<lambda>_. unpack_items E' type_width (length its)) = Ret (map item_view its) u \<and>
    phish_unpack E' u = phish_return_error E' ''No data to unpack.'' (-1, None) u"
proof -
  have "g_pack_end s = 4" using assms(1) by (simp add: packed_def body_bytes_def)
  then obtain t where t: "pack_items E its s = Ret () t" "packed its t"
    using packed_pack_items [OF assms(1,2), of E] assms(3) by (auto simp: body_bytes_def)
  then have body: "seg 0 (g_pack_end t) (pack_datum t) = body_bytes its"
    unfolding packed_def seg_def by (metis drop0)
  obtain v where v: "receive_body E' [(body_bytes its, False)] r = Ret None v" "holds (body_bytes its) v"
    using receive_body_fits [of r "body_bytes its" E' False "[]"] assms(3-6) by auto
  obtain e where "unpack_items E' type_width (length its) v =
      Ret (map item_view its) (v\<lparr>g_unpack_current := e\<rparr>)" "unpacking [] (v\<lparr>g_unpack_current := e\<rparr>)"
    using unpack_items_all [OF holds_unpacking(1) [OF v(2)] assms(2), of E'] by blast
  then show ?thesis
    using t v(1) body phish_unpack_empty by force
qed

theorem pack_receive_unpack_witness:
  "\<exists>t u. pack_items no_callbacks [Scalar PHISH_INT16 [1, 2], Array PHISH_STRING 2 [104, 0]]
      (sample_process 16 []) = Ret () t \<and>
    bnd (receive_body no_callbacks [(seg 0 (g_pack_end t) (pack_datum t), False)]
      (sample_process 16 []\<lparr>g_unpack_current := 4\<rparr>))
      (\<lambda>_. unpack_items no_callbacks type_width (length [Scalar PHISH_INT16 [1, 2], Array PHISH_STRING 2 [104, 0]])) =
      Ret (map item_view [Scalar PHISH_INT16 [1, 2], Array PHISH_STRING 2 [104, 0]]) u \<and>
    phish_unpack no_callbacks u = phish_return_error no_callbacks ''No data to unpack.'' (-1, None) u"
proof (rule pack_receive_unpack)
  show "packed [] (sample_process 16 [])" by (simp add: sample_packed)
  then show "pool_ok (sample_process 16 []\<lparr>g_unpack_current := 4\<rparr>)" by (simp add: packed_def)
qed (simp_all add: unpack_switch_def sample_process_def body_bytes_def)

end
