(* ===== verification/Phish_Transmit.thy ===== *)
theory Phish_Transmit
  imports Phish_Send Phish_Items
begin

text \<open>
  What a send puts on the wire: for every connection of the port the calls its pattern asks for,
  with the packed items as the body, and an empty pack buffer afterwards.
\<close>

definition message_calls :: "output_connection \<Rightarrow> byte list \<Rightarrow> string \<Rightarrow> zcall list" where
  "message_calls c body r = [ZSend r [data_frame c] True, ZSend r body False]"

text \<open>The recipient of a send with a key, with a destination, or without either.\<close>

datatype addressee = Anyone | Keyed "byte list" | Direct_to int

definition chosen :: "addressee \<Rightarrow> output_connection \<Rightarrow> string list" where
  "chosen a c =
     (case (m_pattern c, a) of
        (Broadcast, Anyone) \<Rightarrow> m_recipients c
      | (Round_robin i, Anyone) \<Rightarrow> [m_recipients c ! i]
      | (Hashed, Keyed key) \<Rightarrow>
          [m_recipients c ! (unat (hash_spec key 0) mod length (m_recipients c))]
      | (Direct, Direct_to d) \<Rightarrow>
          [m_recipients c ! (nat (d mod 2 ^ 64) mod length (m_recipients c))]
      | _ \<Rightarrow> [])"

definition advanced :: "addressee \<Rightarrow> output_connection \<Rightarrow> output_connection" where
  "advanced a c =
     (case (m_pattern c, a) of
        (Round_robin i, Anyone) \<Rightarrow>
          c\<lparr>m_pattern := Round_robin ((i + 1) mod length (m_recipients c))\<rparr>
      | _ \<Rightarrow> c)"

definition emission :: "addressee \<Rightarrow> byte list \<Rightarrow> output_connection \<Rightarrow> zcall list" where
  "emission a body c = concat (map (message_calls c body) (chosen a c))"

text \<open>A connection has a recipient, and its round-robin index is the index of one.\<close>

definition connection_ok :: "output_connection \<Rightarrow> bool" where
  "connection_ok c \<longleftrightarrow>
     m_recipients c \<noteq> [] \<and>
     (case m_pattern c of Round_robin i \<Rightarrow> i < length (m_recipients c) | _ \<Rightarrow> True)"

lemma connection_ok_advanced: "connection_ok c \<Longrightarrow> connection_ok (advanced a c)"
  by (auto simp: connection_ok_def advanced_def split: pattern.splits addressee.splits)

lemma chosen_recipients:
  assumes "connection_ok c"
  shows "set (chosen a c) \<subseteq> set (m_recipients c)"
proof -
  have "x mod length (m_recipients c) < length (m_recipients c)" for x
    using assms by (simp add: connection_ok_def)
  then show ?thesis
    using assms
    by (auto simp: chosen_def connection_ok_def split: pattern.splits addressee.splits)
qed

lemma raw_send_run:
  assumes "packed its s" "its \<noteq> []" "length its < 2 ^ 32"
  shows "raw_send c r s = Ret () (s\<lparr>zmq_log := zmq_log s @ message_calls c (body_bytes its) r\<rparr>)"
proof -
  have ok: "pool_ok s" "4 \<le> g_pack_end s" "g_pack_end s \<le> g_datum_size s"
    using packed_sizes [OF assms(1)] by auto
  have "take 4 (pack_datum s) = take 4 (take (g_pack_end s) (pack_datum s))"
    using ok(2) by (simp add: min_def)
  also have "\<dots> = take 4 (body_bytes its)" using assms(1) unfolding packed_def by metis
  also have "\<dots> = le_bytes 4 (of_nat (length its) :: u32)" by (simp add: body_bytes_def)
  finally have "take 4 (pack_datum s) = le_bytes 4 (of_nat (length its) :: u32)" .
  then have "pack_count s = Ret (of_nat (length its)) s"
    using pack_count_ok [OF ok(1)] ok(2,3) by simp
  moreover have "(of_nat (length its) :: u32) \<noteq> 0"
    using assms(2,3) by (simp add: word_of_nat_eq_0_iff nat_dvd_not_less)
  moreover have "take (g_pack_end s) (pack_datum s) = body_bytes its"
    using assms(1) unfolding packed_def by blast
  then have "seg 0 (g_pack_end s) (pack_datum s) = body_bytes its" by (simp add: seg_def)
  ultimately show ?thesis
    using ok pool_ok_sizes(1) [OF ok(1)]
    by (simp add: raw_send_def zmq_call_def load_at_def in_datum_def pool_ok_def message_calls_def)
qed

lemma packed_log: "packed its (s\<lparr>zmq_log := l\<rparr>) = packed its s"
  by (simp add: packed_def pool_ok_def)

lemma packed_stderr: "packed its (s\<lparr>stderr_log := l\<rparr>) = packed its s"
  by (simp add: packed_def pool_ok_def)

lemma raw_send_all_run:
  assumes "packed its s" "its \<noteq> []" "length its < 2 ^ 32"
  shows "raw_send_all c rs s =
    Ret () (s\<lparr>zmq_log := zmq_log s @ concat (map (message_calls c (body_bytes its)) rs)\<rparr>)"
  using assms(1)
  by (induction rs arbitrary: s) (simp_all add: raw_send_run [OF _ assms(2,3)] packed_log)

text \<open>The three ways to send, by addressee; a key lies in memory at \<open>key\<close>.\<close>

definition sender ::
  "addressee \<Rightarrow> memory \<Rightarrow> nat \<Rightarrow> output_connection \<Rightarrow> 'u phish_scheme
     \<Rightarrow> ('u phish_scheme, output_connection) res" where
  "sender a mem key =
     (case a of Anyone \<Rightarrow> send | Keyed k \<Rightarrow> send_hashed mem key (length k) | Direct_to d \<Rightarrow> send_direct d)"

definition key_at :: "addressee \<Rightarrow> memory \<Rightarrow> nat \<Rightarrow> bool" where
  "key_at a mem key \<longleftrightarrow> (\<forall>k. a = Keyed k \<longrightarrow> mem_bytes mem key (length k) = k)"

lemma phish_warn_run:
  "phish_warn msg s = Ret () (s\<lparr>stderr_log := stderr_log s @ [(''WARNING'', msg)]\<rparr>)"
  by (simp add: phish_warn_def phish_message_def)

lemma sender_warns:
  assumes "chosen a c = []" "connection_ok c" "key_at a mem key"
  shows "\<exists>msg. sender a mem key c s = bnd (phish_warn msg s) (\<lambda>_. Ret c) \<and> advanced a c = c"
  using assms
  by (cases a; cases "m_pattern c")
    (auto simp: sender_def send_def send_hashed_def send_direct_def chosen_def advanced_def
      connection_ok_def)

lemma sender_sends:
  assumes "chosen a c \<noteq> []" "connection_ok c" "key_at a mem key"
  shows "sender a mem key c s =
    bnd (raw_send_all c (chosen a c) s) (\<lambda>_. Ret (advanced a c))"
proof -
  have mod: "x mod length (m_recipients c) < length (m_recipients c)" for x
    using assms(2) by (simp add: connection_ok_def)
  have key: "mem_bytes mem key (length k) = k" if "a = Keyed k" for k
    using assms(3) that by (simp add: key_at_def)
  note defs = sender_def chosen_def advanced_def raw_send_nth_def connection_ok_def
    hashlittle_hash_spec
  show ?thesis
    using assms(1,2) mod key
    by (cases a; cases "m_pattern c")
      (simp_all add: defs send_def send_hashed_def send_direct_def run_simps)
qed

lemma sender_run:
  assumes "packed its s" "its \<noteq> []" "length its < 2 ^ 32" "connection_ok c" "key_at a mem key"
  shows "\<exists>l. sender a mem key c s =
    Ret (advanced a c)
      (s\<lparr>zmq_log := zmq_log s @ emission a (body_bytes its) c, stderr_log := l\<rparr>)"
proof (cases "chosen a c = []")
  case True
  then obtain msg where "sender a mem key c s = bnd (phish_warn msg s) (\<lambda>_. Ret c)"
      "advanced a c = c"
    using sender_warns [OF _ assms(4,5)] by blast
  then show ?thesis
    by (intro exI [of _ "stderr_log s @ [(''WARNING'', msg)]"])
      (simp add: phish_warn_run emission_def True)
next
  case False
  then show ?thesis
    by (intro exI [of _ "stderr_log s"])
      (simp add: sender_sends [OF _ assms(4,5)] raw_send_all_run [OF assms(1-3)] emission_def)
qed

lemma send_each_run:
  assumes "packed its s" "its \<noteq> []" "length its < 2 ^ 32" "\<forall>c \<in> set cs. connection_ok c"
    "key_at a mem key"
  shows "\<exists>l. send_each (sender a mem key) cs s =
    Ret (map (advanced a) cs)
      (s\<lparr>zmq_log := zmq_log s @ concat (map (emission a (body_bytes its)) cs), stderr_log := l\<rparr>)"
  using assms(1,4)
proof (induction cs arbitrary: s)
  case Nil
  then show ?case by (intro exI [of _ "stderr_log s"]) simp
next
  case (Cons c cs)
  obtain l where l: "sender a mem key c s = Ret (advanced a c)
      (s\<lparr>zmq_log := zmq_log s @ emission a (body_bytes its) c, stderr_log := l\<rparr>)"
    using sender_run [OF Cons.prems(1) assms(2,3) _ assms(5), of c] Cons.prems(2) by auto
  let ?s = "s\<lparr>zmq_log := zmq_log s @ emission a (body_bytes its) c, stderr_log := l\<rparr>"
  have "packed its ?s" using Cons.prems(1) by (simp add: packed_log packed_stderr)
  then obtain l' where "send_each (sender a mem key) cs ?s = Ret (map (advanced a) cs)
      (?s\<lparr>zmq_log := zmq_log ?s @ concat (map (emission a (body_bytes its)) cs), stderr_log := l'\<rparr>)"
    using Cons.IH [of ?s] Cons.prems(2) by auto
  with l show ?case by (intro exI [of _ l']) simp
qed

text \<open>
  A send on a port with connections: the messages of its connections in order, one more send
  counted, round-robin indices moved on, and the pack buffer empty.
\<close>

definition sent ::
  "addressee \<Rightarrow> byte list \<Rightarrow> int \<Rightarrow> output_connection list \<Rightarrow> byte list \<Rightarrow> (string \<times> string) list
     \<Rightarrow> 'u phish_scheme \<Rightarrow> 'u phish_scheme" where
  "sent a body port cs d l s =
     s\<lparr>zmq_log := zmq_log s @ concat (map (emission a body) cs),
       g_output_connections := mput port (map (advanced a) cs) (g_output_connections s),
       g_sent_count := g_sent_count s + 1,
       g_datum_pool := (g_datum_pool s)[g_pack_begin s := d], g_pack_end := 4, stderr_log := l\<rparr>"

lemma send_port_run:
  assumes "packed its s" "its \<noteq> []" "length its < 2 ^ 32" "\<forall>c \<in> set cs. connection_ok c"
    "key_at a mem key" "mfind (g_output_connections s) port = Some cs"
  shows "\<exists>d l. send_port (sender a mem key) port s = Ret () (sent a (body_bytes its) port cs d l s) \<and>
    packed [] (sent a (body_bytes its) port cs d l s)"
proof -
  have ok: "pool_ok s" "4 \<le> g_pack_end s" "g_pack_end s \<le> g_datum_size s"
    using packed_sizes [OF assms(1)] by auto
  obtain l where l: "send_each (sender a mem key) cs s = Ret (map (advanced a) cs)
      (s\<lparr>zmq_log := zmq_log s @ concat (map (emission a (body_bytes its)) cs), stderr_log := l\<rparr>)"
    using send_each_run [OF assms(1-5)] by blast
  define d where "d = splice_at (pack_datum s) 0 (le_bytes 4 (0 :: u32))"
  let ?t = "sent a (body_bytes its) port cs d l s"
  have len: "length d = g_datum_size s"
    using ok pool_ok_sizes(1) [OF ok(1)] by (simp add: d_def)
  have "send_port (sender a mem key) port s = Ret () ?t"
    using assms(6) ok l pool_ok_sizes(1) [OF ok(1)]
    by (simp add: send_port_def Let_def set_pack_count_def store_at_def in_datum_def pool_ok_def)
      (auto simp: sent_def d_def intro!: phish.equality)
  moreover have "pool_ok ?t"
    using ok(1) len by (auto simp: pool_ok_def sent_def dest!: set_update_subset_insert [THEN subsetD])
  moreover have "g_datum_pool ?t ! g_pack_begin ?t = d"
    using pack_begin_lt [OF ok(1)] by (simp add: sent_def)
  ultimately show ?thesis
    using ok by (intro exI [of _ d] exI [of _ l])
      (simp add: packed_def body_bytes_def sent_def d_def splice_at_def)
qed

lemma send_port_closed:
  "mfind (g_output_connections s) port = None \<Longrightarrow>
     \<exists>l. send_port f port s = Ret () (s\<lparr>stderr_log := l\<rparr>)"
  by (simp only: send_port_def phish_warn_run option.case) blast

section \<open>Properties\<close>

text \<open>The three send functions of the library, by addressee.\<close>

definition send_to :: "addressee \<Rightarrow> memory \<Rightarrow> nat \<Rightarrow> int \<Rightarrow> 'u phish_scheme \<Rightarrow> ('u phish_scheme, unit) res"
where
  "send_to a mem key port =
     (case a of
        Anyone \<Rightarrow> phish_send port
      | Keyed k \<Rightarrow> phish_send_key port mem key (length k)
      | Direct_to d \<Rightarrow> phish_send_direct port d)"

lemma send_to_port: "send_to a mem key port = send_port (sender a mem key) port"
  by (cases a) (simp_all add: send_to_def sender_def phish_send_def phish_send_key_def
      phish_send_direct_def)

text \<open>
  C16: A send on an open port puts, for every connection of the port in order, exactly the
  messages its pattern asks for on the wire (all recipients, the next one in turn, the one the
  key hashes to, the one addressed), each as the port frame and the packed items; it counts one
  sent message, moves the round-robin index on, and leaves an empty pack buffer.
\<close>

theorem send_emits:
  assumes "packed its s" "its \<noteq> []" "length its < 2 ^ 32" "\<forall>c \<in> set cs. connection_ok c"
    "key_at a mem key" "mfind (g_output_connections s) port = Some cs"
  shows "\<exists>t. send_to a mem key port s = Ret () t \<and> packed [] t \<and>
    zmq_log t = zmq_log s @ concat (map (emission a (body_bytes its)) cs) \<and>
    g_output_connections t = mput port (map (advanced a) cs) (g_output_connections s) \<and>
    g_sent_count t = g_sent_count s + 1"
proof -
  obtain d l where "send_to a mem key port s = Ret () (sent a (body_bytes its) port cs d l s)"
      "packed [] (sent a (body_bytes its) port cs d l s)"
    using send_port_run [OF assms] by (auto simp: send_to_port)
  then show ?thesis by (intro exI [of _ "sent a (body_bytes its) port cs d l s"]) (simp add: sent_def)
qed

theorem send_emits_witness:
  "\<exists>(s :: phish) t. send_to (Keyed [7]) (\<lambda>_. 7) 0 0 s = Ret () t \<and> packed [] t \<and>
    zmq_log t = zmq_log s @ concat (map (emission (Keyed [7]) (body_bytes [Scalar PHISH_CHAR [7]]))
      [\<lparr>m_input_port = 3, m_recipients = [''a'', ''b'', ''c''], m_pattern = Hashed\<rparr>]) \<and>
    g_output_connections t = mput 0 (map (advanced (Keyed [7]))
      [\<lparr>m_input_port = 3, m_recipients = [''a'', ''b'', ''c''], m_pattern = Hashed\<rparr>])
        (g_output_connections s) \<and>
    g_sent_count t = g_sent_count s + 1"
proof -
  let ?c = "\<lparr>m_input_port = 3, m_recipients = [''a'', ''b'', ''c''], m_pattern = Hashed\<rparr>"
  let ?s = "sample_process 16 [(0, [?c])]"
  have "packed [] ?s" by (rule sample_packed) simp
  from packed_pack_items [OF this, of "[Scalar PHISH_CHAR [7]]" no_callbacks]
  obtain d e where "packed [Scalar PHISH_CHAR [7]] (set_pack d e ?s)"
    by (auto simp: unpack_switch_def sample_process_def)
  then have "\<exists>t. send_to (Keyed [7]) (\<lambda>_. 7) 0 0 (set_pack d e ?s) = Ret () t \<and> packed [] t \<and>
    zmq_log t = zmq_log (set_pack d e ?s) @ concat (map (emission (Keyed [7]) (body_bytes [Scalar PHISH_CHAR [7]])) [?c]) \<and>
    g_output_connections t = mput 0 (map (advanced (Keyed [7])) [?c]) (g_output_connections (set_pack d e ?s)) \<and>
    g_sent_count t = g_sent_count (set_pack d e ?s) + 1"
    by (rule send_emits) (simp_all add: connection_ok_def key_at_def mem_bytes_def set_pack_def sample_process_def)
  then show ?thesis by blast
qed

text \<open>
  C26: A send on a port without connections only warns: nothing is put on the wire, nothing is
  counted, and the packed items stay in the buffer, so that they are part of the next message.
\<close>

theorem send_closed_keeps_items:
  assumes "packed its s" "mfind (g_output_connections s) port = None"
  shows "\<exists>t. send_to a mem key port s = Ret () t \<and> packed its t \<and> zmq_log t = zmq_log s \<and>
    g_sent_count t = g_sent_count s"
proof -
  obtain l where "send_to a mem key port s = Ret () (s\<lparr>stderr_log := l\<rparr>)"
    using send_port_closed [OF assms(2)] unfolding send_to_port by blast
  then show ?thesis using assms(1) by (auto simp: packed_stderr)
qed

theorem send_closed_keeps_items_witness:
  "\<exists>t. send_to Anyone (\<lambda>_. 0) 0 5 (sample_process 16 []) = Ret () t \<and> packed [] t \<and>
    zmq_log t = zmq_log (sample_process 16 []) \<and> g_sent_count t = g_sent_count (sample_process 16 [])"
  by (rule send_closed_keeps_items) (simp_all add: sample_packed, simp add: sample_process_def)

end
