(* ===== verification/Phish_Shutdown.thy ===== *)
theory Phish_Shutdown
  imports Phish_Receive Phish_Launch Phish_Transmit
begin

text \<open>
  The accounts of the close messages. What a minnow has sent and what its open connections still
  owe is kept by every send and every close, and an exit pays it all; summed over the launched
  network this is, for every minnow and port, the number of closes its loop waits for.
\<close>

section \<open>Sent and owed\<close>

definition closes_sent :: "zcall list \<Rightarrow> string \<Rightarrow> int \<Rightarrow> nat" where
  "closes_sent log r p = count_list log (ZSend r [wire_frame p OR CLOSE_MESSAGE] False)"

definition connection_closes :: "string \<Rightarrow> int \<Rightarrow> output_connection \<Rightarrow> nat" where
  "connection_closes r p c =
     (if close_frame c = wire_frame p OR CLOSE_MESSAGE then count_list (m_recipients c) r else 0)"

definition closes_owed :: "(int, output_connection list) smap \<Rightarrow> string \<Rightarrow> int \<Rightarrow> nat" where
  "closes_owed m r p = sum_list (map (connection_closes r p) (concat (map snd m)))"

definition closing_account :: "'u phish_scheme \<Rightarrow> string \<Rightarrow> int \<Rightarrow> nat" where
  "closing_account s r p =
     closes_sent (zmq_log s) r p + closes_owed (g_output_connections s) r p"

lemma closes_sent_append [simp]:
  "closes_sent (xs @ ys) r p = closes_sent xs r p + closes_sent ys r p"
  by (simp add: closes_sent_def)

lemma close_frame_wire: "close_frame c = wire_frame (m_input_port c) OR CLOSE_MESSAGE"
  by (simp add: close_frame_def wire_frame_def)

lemma data_frame_not_close: "data_frame c \<noteq> wire_frame p OR CLOSE_MESSAGE"
proof -
  have "data_frame c = wire_frame (m_input_port c)" by (simp add: data_frame_def wire_frame_def)
  then show ?thesis by (metis is_close_frames)
qed

lemma count_list_ZSend: "count_list (map (\<lambda>r. ZSend r [f] False) rs) (ZSend r [g] False) =
    (if f = g then count_list rs r else 0)"
  by (induction rs) auto

lemma count_list_ZClose: "count_list (map ZClose rs) (ZSend r bs b) = 0"
  by (induction rs) auto

lemma closes_sent_close_calls: "closes_sent (close_calls c) r p = connection_closes r p c"
  by (simp add: closes_sent_def close_calls_def connection_closes_def count_list_ZSend
      count_list_ZClose)

section \<open>Closing\<close>

lemma fold_zmq_call: "fold zmq_call cs s = s\<lparr>zmq_log := zmq_log s @ cs\<rparr>"
  by (induction cs arbitrary: s) (simp_all add: zmq_call_def)

lemma delete_connections:
  "fold delete_connection cs s = s\<lparr>zmq_log := zmq_log s @ concat (map close_calls cs)\<rparr>"
  by (induction cs arbitrary: s) (simp_all add: delete_connection_def fold_zmq_call)

lemma closes_sent_concat:
  "closes_sent (concat (map close_calls cs)) r p = sum_list (map (connection_closes r p) cs)"
  by (induction cs) (simp_all add: closes_sent_close_calls, simp add: closes_sent_def)

lemma closes_owed_split:
  "msorted m \<Longrightarrow> mfind m port = Some cs \<Longrightarrow>
     closes_owed m r p = sum_list (map (connection_closes r p) cs) + closes_owed (merase port m) r p"
proof (induction m)
  case (Cons e m)
  obtain a b where e: "e = (a, b)" by (cases e)
  show ?case
  proof (cases "a = port")
    case True
    then have "port \<notin> set (mkeys m)" using Cons.prems(1) by (auto simp: e msorted_Cons)
    then have "merase port m = m" by (auto simp: merase_def mkeys_def filter_id_conv)
    with True Cons.prems(2) show ?thesis
      by (simp add: e closes_owed_def) (simp add: merase_def)
  next
    case False
    with Cons show ?thesis
      by (simp add: e closes_owed_def msorted_Cons) (simp add: merase_def)
  qed
qed simp

text \<open>Closing a port pays what its connections owe.\<close>

lemma phish_close_run:
  assumes "g_initialized s" "g_checked s" "msorted (g_output_connections s)"
  shows "\<exists>log. phish_close E port s = Ret 0 (s\<lparr>zmq_log := zmq_log s @ log,
      g_output_connections := merase port (g_output_connections s)\<rparr>) \<and>
    (\<forall>r p. closes_sent log r p + closes_owed (merase port (g_output_connections s)) r p =
      closes_owed (g_output_connections s) r p)"
proof (cases "mfind (g_output_connections s) port")
  case None
  then have "port \<notin> set (mkeys (g_output_connections s))" by (simp add: mfind_None_iff)
  then have "merase port (g_output_connections s) = g_output_connections s"
    by (auto simp: merase_def mkeys_def filter_id_conv)
  with None assms show ?thesis
    by (intro exI [of _ "[]"])
      (simp add: phish_close_def phish_assert_initialized_def phish_assert_checked_def closes_sent_def)
next
  case (Some cs)
  with assms show ?thesis
    by (intro exI [of _ "concat (map close_calls cs)"])
      (simp add: phish_close_def phish_assert_initialized_def phish_assert_checked_def Let_def
        delete_connections closes_sent_concat closes_owed_split)
qed

lemma close_ports_run:
  assumes "g_initialized s" "g_checked s" "msorted (g_output_connections s)"
  shows "\<exists>log. close_ports E ps s = Ret () (s\<lparr>zmq_log := zmq_log s @ log,
      g_output_connections := fold merase ps (g_output_connections s)\<rparr>) \<and>
    (\<forall>r p. closes_sent log r p + closes_owed (fold merase ps (g_output_connections s)) r p =
      closes_owed (g_output_connections s) r p)"
  using assms
proof (induction ps arbitrary: s)
  case Nil
  then show ?case by (intro exI [of _ "[]"]) (simp add: closes_sent_def)
next
  case (Cons port ps)
  obtain log where log: "phish_close E port s = Ret 0 (s\<lparr>zmq_log := zmq_log s @ log,
      g_output_connections := merase port (g_output_connections s)\<rparr>)"
      "\<forall>r p. closes_sent log r p + closes_owed (merase port (g_output_connections s)) r p =
        closes_owed (g_output_connections s) r p"
    using phish_close_run [OF Cons.prems] by blast
  let ?s = "s\<lparr>zmq_log := zmq_log s @ log,
    g_output_connections := merase port (g_output_connections s)\<rparr>"
  obtain log' where log': "close_ports E ps ?s = Ret () (?s\<lparr>zmq_log := zmq_log ?s @ log',
      g_output_connections := fold merase ps (g_output_connections ?s)\<rparr>)"
      "\<forall>r p. closes_sent log' r p + closes_owed (fold merase ps (g_output_connections ?s)) r p =
        closes_owed (g_output_connections ?s) r p"
    using Cons.IH [of ?s] Cons.prems by (auto simp: msorted_merase)
  show ?case
    using log log' by (intro exI [of _ "log @ log'"]) (simp add: add.assoc)
qed

lemma merase_all: "fold merase ps m = filter (\<lambda>e. fst e \<notin> set ps) m"
  by (induction ps arbitrary: m) (auto simp: merase_def intro: filter_cong)

lemma merase_own_keys: "fold merase (mkeys m) m = []"
  by (simp add: merase_all mkeys_def filter_empty_conv)

lemma phish_exit_pays:
  assumes "g_initialized s" "g_checked s" "msorted (g_output_connections s)" "pool_live s"
  shows "\<exists>t. phish_exit E s = Ret 0 t \<and> g_output_connections t = [] \<and> \<not> g_running t \<and>
    (\<forall>r p. closes_sent (zmq_log t) r p = closing_account s r p)"
proof -
  obtain log where log: "close_ports E (mkeys (g_output_connections s)) s =
      Ret () (s\<lparr>zmq_log := zmq_log s @ log, g_output_connections := []\<rparr>)"
      "\<forall>r p. closes_sent log r p = closes_owed (g_output_connections s) r p"
    using close_ports_run [OF assms(1-3), of E "mkeys (g_output_connections s)"]
    by (auto simp: merase_own_keys) (simp add: closes_owed_def)
  have zclose: "closes_sent [ZClose a] r p = 0" "closes_sent [ZClose a, ZClose a'] r p = 0"
    for a a' r p by (simp_all add: closes_sent_def)
  show ?thesis
    using log assms
    by (cases "g_input_port s"; cases "g_control_port s")
      (simp_all add: phish_exit_def phish_assert_initialized_def phish_assert_checked_def Let_def
        zmq_close_port_def zmq_call_def phish_message_def phish_stats_def delete_datums_def
        closing_account_def zclose)
qed

section \<open>Sending\<close>

text \<open>What a minnow that is set up and not shut down keeps.\<close>

definition sound :: "'u phish_scheme \<Rightarrow> bool" where
  "sound s \<longleftrightarrow> msorted (g_output_connections s) \<and> 4 \<le> g_pack_end s \<and> g_at_abort s = None \<and>
     pool_live s \<and> g_initialized s"

definition same_wiring :: "output_connection \<Rightarrow> output_connection \<Rightarrow> bool" where
  "same_wiring c c' \<longleftrightarrow> m_input_port c' = m_input_port c \<and> m_recipients c' = m_recipients c"

definition closes_kept :: "'u phish_scheme \<Rightarrow> 'u phish_scheme \<Rightarrow> bool" where
  "closes_kept s t \<longleftrightarrow>
     (\<forall>r p. closes_sent (zmq_log t) r p = closes_sent (zmq_log s) r p) \<and>
     g_output_connections t = g_output_connections s \<and> g_pack_end t = g_pack_end s \<and>
     g_at_abort t = g_at_abort s \<and> pool_live t = pool_live s \<and> g_initialized t = g_initialized s"

lemma raw_send_kept:
  assumes "raw_send c rcpt s = Ret u t" "g_pack_end s \<noteq> 1"
  shows "closes_kept s t"
  using assms
  by (auto simp: raw_send_def pack_count_def load_at_def zmq_call_def bnd_eq_Ret Let_def closes_kept_def
      closes_sent_def data_frame_not_close data_frame_not_close [symmetric] seg_def in_datum_def
      split: if_splits dest!: arg_cong [where f = length and y = "[_]"])

lemma closes_kept_refl [simp]: "closes_kept s s"
  by (simp add: closes_kept_def)

lemma closes_kept_trans: "closes_kept s t \<Longrightarrow> closes_kept t u \<Longrightarrow> closes_kept s u"
  by (simp add: closes_kept_def)

lemma raw_send_all_kept:
  "raw_send_all c rs s = Ret u t \<Longrightarrow> g_pack_end s \<noteq> 1 \<Longrightarrow> closes_kept s t"
proof (induction rs arbitrary: s)
  case (Cons r rs)
  then obtain v s' where "raw_send c r s = Ret v s'" "raw_send_all c rs s' = Ret u t"
    by (auto simp: bnd_eq_Ret)
  moreover from this have "closes_kept s s'" using raw_send_kept Cons.prems(2) by blast
  ultimately show ?case
    using Cons.IH Cons.prems(2) closes_kept_trans by (metis closes_kept_def)
qed simp

lemma phish_warn_kept: "phish_warn msg s = Ret u t \<Longrightarrow> closes_kept s t"
  by (auto simp: phish_warn_def phish_message_def closes_kept_def)

lemma raw_send_nth_kept:
  "raw_send_nth c i s = Ret u t \<Longrightarrow> g_pack_end s \<noteq> 1 \<Longrightarrow> closes_kept s t"
  by (auto simp: raw_send_nth_def split: if_splits intro: raw_send_kept)

lemma sends_kept:
  "send c s = Ret c' t \<Longrightarrow> g_pack_end s \<noteq> 1 \<Longrightarrow> closes_kept s t \<and> same_wiring c c'"
  "send_hashed mem k n c s = Ret c' t \<Longrightarrow> g_pack_end s \<noteq> 1 \<Longrightarrow> closes_kept s t \<and> same_wiring c c'"
  "send_direct dst c s = Ret c' t \<Longrightarrow> g_pack_end s \<noteq> 1 \<Longrightarrow> closes_kept s t \<and> same_wiring c c'"
  by (auto simp: send_def send_hashed_def send_direct_def bnd_eq_Ret same_wiring_def
      split: pattern.splits if_splits
      intro: raw_send_all_kept raw_send_nth_kept phish_warn_kept)

lemma send_each_kept:
  assumes "\<And>c s c' t. f c s = Ret c' t \<Longrightarrow> g_pack_end s \<noteq> 1 \<Longrightarrow> closes_kept s t \<and> same_wiring c c'"
    "send_each f cs s = Ret cs' t" "g_pack_end s \<noteq> 1"
  shows "closes_kept s t \<and> list_all2 same_wiring cs cs'"
  using assms(2,3)
proof (induction cs arbitrary: s cs')
  case (Cons c cs)
  then obtain c' s' cs'' where step: "f c s = Ret c' s'" "send_each f cs s' = Ret cs'' t"
      "cs' = c' # cs''"
    by (auto simp: bnd_eq_Ret)
  then have first: "closes_kept s s'" "same_wiring c c'" using assms(1) Cons.prems(2) by blast+
  moreover from this have "g_pack_end s' \<noteq> 1" using Cons.prems(2) by (simp add: closes_kept_def)
  ultimately show ?case
    using Cons.IH [OF step(2)] step(3) closes_kept_trans by auto
qed simp

lemma same_wiring_closes:
  "list_all2 same_wiring cs cs' \<Longrightarrow>
     map (connection_closes r p) cs' = map (connection_closes r p) cs"
  by (induction cs cs' rule: list_all2_induct)
    (auto simp: same_wiring_def connection_closes_def close_frame_wire)

lemma closes_owed_mput:
  "mfind m k = Some cs \<Longrightarrow> msorted m \<Longrightarrow>
   map (connection_closes r p) cs' = map (connection_closes r p) cs \<Longrightarrow>
     closes_owed (mput k cs' m) r p = closes_owed m r p"
proof (induction k cs' m rule: mput.induct)
  case (2 k v a b m)
  then show ?case
    by (auto simp: closes_owed_def msorted_Cons mfind_in_set dest!: mfind_in_set split: if_splits)
      (force simp: mkeys_def)+
qed simp

lemma set_pack_count_kept:
  "set_pack_count n s = Ret u t \<Longrightarrow> zmq_log t = zmq_log s \<and>
     g_output_connections t = g_output_connections s \<and> g_at_abort t = g_at_abort s \<and>
     pool_live t = pool_live s \<and> g_initialized t = g_initialized s"
  by (auto simp: set_pack_count_def store_at_def split: if_splits)

text \<open>Sending neither adds a close message nor drops one that is owed.\<close>

lemma send_port_account:
  assumes "\<And>c s c' t. f c s = Ret c' t \<Longrightarrow> g_pack_end s \<noteq> 1 \<Longrightarrow> closes_kept s t \<and> same_wiring c c'"
    "send_port f port s = Ret u t" "sound s"
  shows "sound t \<and> closing_account t r p = closing_account s r p"
proof (cases "mfind (g_output_connections s) port")
  case None
  then show ?thesis
    using assms(2,3) phish_warn_kept [of _ s u t]
    by (auto simp: send_port_def closing_account_def closes_kept_def sound_def)
next
  case (Some cs)
  then obtain cs' s' v s'' where run: "send_each f cs s = Ret cs' s'"
      "set_pack_count 0 (s'\<lparr>g_output_connections := mput port cs' (g_output_connections s'),
         g_sent_count := g_sent_count s' + 1\<rparr>) = Ret v s''" "t = s''\<lparr>g_pack_end := 4\<rparr>"
    using assms(2) by (auto simp: send_port_def bnd_eq_Ret Let_def)
  have s: "g_pack_end s \<noteq> 1" "msorted (g_output_connections s)" using assms(3) by (simp_all add: sound_def)
  have kept: "closes_kept s s'" "list_all2 same_wiring cs cs'"
    using send_each_kept [OF assms(1) run(1) s(1)] by auto
  have out: "g_output_connections t = mput port cs' (g_output_connections s)"
      "zmq_log t = zmq_log s'" "g_at_abort t = g_at_abort s" "pool_live t = pool_live s"
      "g_initialized t = g_initialized s" "g_pack_end t = 4"
    using set_pack_count_kept [OF run(2)] kept(1) by (simp_all add: run(3) closes_kept_def)
  then show ?thesis
    using kept closes_owed_mput [OF Some s(2) same_wiring_closes [OF kept(2)]] assms(3) s(2)
    by (simp add: closing_account_def closes_kept_def msorted_mput sound_def)
qed

lemma send_account:
  assumes "send_to a mem key port s = Ret u t" "sound s"
  shows "sound t \<and> closing_account t r p = closing_account s r p"
proof -
  have "sender a mem key c s = Ret c' t \<Longrightarrow> g_pack_end s \<noteq> 1 \<Longrightarrow>
      closes_kept s t \<and> same_wiring c c'" for c s c' t
    by (cases a) (simp_all add: sender_def sends_kept)
  from send_port_account [OF this assms(1) [unfolded send_to_port] assms(2)]
  show ?thesis .
qed

section \<open>The launched network\<close>

lemma wire_close_eq:
  assumes "0 \<le> p" "p < 128" "0 \<le> q" "q < 128"
  shows "wire_frame p OR CLOSE_MESSAGE = wire_frame q OR CLOSE_MESSAGE \<longleftrightarrow> p = q"
  using frame_port_frames(2) assms by metis

lemma sum_list_of_concat: "sum_list (concat xss) = sum_list (map sum_list xss)"
  by (induction xss) simp_all

lemma concat_snd_mkeys:
  "msorted m \<Longrightarrow> concat (map snd m) = concat (map (mat [] m) (mkeys m))"
proof (induction m)
  case (Cons e m)
  obtain a b where e: "e = (a, b)" by (cases e)
  have "msorted m" "a \<notin> set (mkeys m)" using Cons.prems by (auto simp: e msorted_Cons)
  then have "map (mat [] (e # m)) (mkeys m) = map (mat [] m) (mkeys m)"
    by (auto simp: e mat_def)
  moreover have "mat [] (e # m) a = b" by (simp add: e mat_def)
  ultimately show ?case using Cons.IH \<open>msorted m\<close> by (simp add: e cong: map_cong)
qed simp

lemma sum_by_port:
  assumes "finite K" "\<forall>c \<in> set cs. cn_output_port c \<in> K"
  shows "(\<Sum>k\<in>K. sum_list (map g (filter (\<lambda>c. cn_output_port c = k) cs))) =
    (sum_list (map g cs) :: nat)"
  using assms(2)
proof (induction cs)
  case (Cons c cs)
  have "(\<Sum>k\<in>K. sum_list (map g (filter (\<lambda>c. cn_output_port c = k) (c # cs)))) =
      (\<Sum>k\<in>K. (if cn_output_port c = k then g c else 0) +
        sum_list (map g (filter (\<lambda>c. cn_output_port c = k) cs)))"
    by (rule sum.cong) auto
  also have "\<dots> = g c + sum_list (map g cs)"
    using Cons assms(1) by (simp add: sum.distrib)
  finally show ?case by simp
qed simp

lemma launched_owes:
  assumes "launched b i s" "n = length (b_minnows b)" "5555 + 2 * n < 2 ^ 31" "m < n"
    "\<forall>c \<in> set (mn_outgoing (b_minnows b ! i)). 0 \<le> cn_input_port c \<and> cn_input_port c < 128 \<and>
       (\<forall>k \<in> set (cn_input_indices c). k < n)" "0 \<le> p" "p < 128"
  shows "closing_account s (input_port_internal n m) p = wires_in (mn_outgoing (b_minnows b ! i)) m p"
proof -
  let ?out = "mn_outgoing (b_minnows b ! i)" and ?M = "g_output_connections s"
  let ?r = "input_port_internal n m"
  have s: "msorted ?M" "\<And>q. mat [] ?M q = port_connections n ?out q"
      "\<And>q. mcount ?M q \<longleftrightarrow> (\<exists>c \<in> set ?out. cn_output_port c = q)"
      "\<And>r bs x. ZSend r bs x \<in> set (zmq_log s) \<Longrightarrow> length bs = 2"
    using assms(1) unfolding launched_def Let_def assms(2) by blast+
  have one: "connection_closes ?r p (launched_connection n c) =
      (if cn_input_port c = p then count_list (cn_input_indices c) m else 0)" if "c \<in> set ?out" for c
  proof -
    have "input_port_internal n k = ?r \<longleftrightarrow> k = m" if "k \<in> set (cn_input_indices c)" for k
    proof -
      have "k < n" using assms(5) that \<open>c \<in> set ?out\<close> by blast
      then show ?thesis
        using endpoint_eq [of "5555 + n + k" "5555 + n + m"] assms(3,4)
        by (auto simp: input_port_internal_def)
    qed
    then have "count_list (map (input_port_internal n) ks) ?r = count_list ks m"
      if "set ks \<subseteq> set (cn_input_indices c)" for ks
      using that by (induction ks) auto
    then show ?thesis
      using assms(5-7) that
      by (simp add: connection_closes_def launched_connection_def close_frame_wire wire_close_eq)
  qed
  have "closes_owed ?M ?r p =
      sum_list (map (\<lambda>k. sum_list (map (connection_closes ?r p) (port_connections n ?out k))) (mkeys ?M))"
    unfolding closes_owed_def concat_snd_mkeys [OF s(1)]
    by (simp add: map_concat sum_list_of_concat comp_def s(2))
  also have "\<dots> = (\<Sum>k\<in>set (mkeys ?M). sum_list (map (connection_closes ?r p) (port_connections n ?out k)))"
    using msorted_distinct [OF s(1)] by (simp add: sum_list_distinct_conv_sum_set)
  also have "\<dots> = sum_list (map (\<lambda>c. connection_closes ?r p (launched_connection n c)) ?out)"
  proof -
    have "\<forall>c \<in> set ?out. cn_output_port c \<in> set (mkeys ?M)"
      using s(3) unfolding mcount_iff by blast
    then show ?thesis
      using sum_by_port [of "set (mkeys ?M)" ?out "\<lambda>c. connection_closes ?r p (launched_connection n c)"]
      by (simp add: port_connections_def comp_def)
  qed
  also have "\<dots> = wires_in ?out m p"
    unfolding wires_in_def using one by (auto intro: arg_cong [where f = sum_list])
  finally have "closes_owed ?M ?r p = wires_in ?out m p" .
  moreover have "ZSend ?r [wire_frame p OR CLOSE_MESSAGE] False \<notin> set (zmq_log s)"
    using s(4) by fastforce
  ultimately show ?thesis by (simp add: closing_account_def closes_sent_def count_list_0_iff)
qed

lemma wires_in_concat: "wires_in (concat css) m p = sum_list (map (\<lambda>cs. wires_in cs m p) css)"
  by (induction css) (simp_all, simp add: wires_in_def)

lemma network_closes:
  assumes "bait_ok b" "n = length (b_minnows b)" "5555 + 2 * n < 2 ^ 31" "m < n"
    "\<forall>c \<in> set (all_wires (b_minnows b)). 0 \<le> cn_input_port c \<and> cn_input_port c < 128"
    "\<forall>i < n. launched b i (s i)"
    "\<forall>i < n. \<forall>r p. closes_sent (log i) r p = closing_account (s i) r p" "0 \<le> p" "p < 128"
  shows "int (\<Sum>i<n. closes_sent (log i) (input_port_internal n m) p) =
    mat 0 (mn_incoming (b_minnows b ! m)) p"
proof -
  have each: "closes_sent (log i) (input_port_internal n m) p =
      wires_in (mn_outgoing (b_minnows b ! i)) m p" if i: "i < n" for i
  proof -
    have sub: "set (mn_outgoing (b_minnows b ! i)) \<subseteq> set (all_wires (b_minnows b))"
      using nth_mem [of i "b_minnows b"] i assms(2) unfolding all_wires_def set_concat set_map
      by blast
    have "\<forall>c \<in> set (mn_outgoing (b_minnows b ! i)). 0 \<le> cn_input_port c \<and> cn_input_port c < 128 \<and>
       (\<forall>k \<in> set (cn_input_indices c). k < n)"
      using sub assms(1,2,5) by (fastforce simp: bait_ok_def wired_def)
    then show ?thesis
      using launched_owes [OF _ assms(2,3,4) _ assms(8,9), of i "s i"] assms(6,7) i by simp
  qed
  have "(\<Sum>i<n. closes_sent (log i) (input_port_internal n m) p) =
      (\<Sum>i<n. wires_in (mn_outgoing (b_minnows b ! i)) m p)"
    by (rule sum.cong) (simp_all add: each)
  also have "\<dots> = sum_list (map (\<lambda>mn. wires_in (mn_outgoing mn) m p) (b_minnows b))"
    by (simp add: assms(2) sum_list_sum_nth atLeast0LessThan)
  also have "\<dots> = wires_in (all_wires (b_minnows b)) m p"
    by (simp add: all_wires_def wires_in_concat comp_def)
  finally show ?thesis
    using assms(1,2,4) by (simp add: bait_ok_def wired_def)
qed

section \<open>A minnow at work\<close>

text \<open>
  The calls a minnow makes between \<^verbatim>\<open>phish_init\<close> and \<^verbatim>\<open>phish_exit\<close>, in any order.
  What the receiving loop itself does to the state between two callbacks is \<open>same_minnow\<close>.
  A repacked buffer is one that was received, so it has at least its count.
\<close>

datatype api_call =
  Input int cb cb int
| Output int
| Check
| Pack item
| Unpack
| Repack
| Send addressee memory nat int
| Close_port int

fun api_step ::
  "'u phish_scheme callbacks \<Rightarrow> api_call \<Rightarrow> 'u phish_scheme \<Rightarrow> ('u phish_scheme, unit) res" where
  "api_step E (Input p f g required) s = bnd (phish_input E p f g required s) (\<lambda>_. Ret ())"
| "api_step E (Output p) s = bnd (phish_output E p s) (\<lambda>_. Ret ())"
| "api_step E Check s = bnd (phish_check E s) (\<lambda>_. Ret ())"
| "api_step E (Pack it) s = pack_item E it s"
| "api_step E Unpack s = bnd (phish_unpack E s) (\<lambda>_. Ret ())"
| "api_step E Repack s = phish_repack s"
| "api_step E (Send a mem key p) s = send_to a mem key p s"
| "api_step E (Close_port p) s = bnd (phish_close E p s) (\<lambda>_. Ret ())"

inductive works ::
  "'u phish_scheme callbacks \<Rightarrow> 'u phish_scheme \<Rightarrow> 'u phish_scheme \<Rightarrow> bool" for E s where
  works_start: "works E s s"
| works_call: "works E s t \<Longrightarrow> api_step E call t = Ret () u \<Longrightarrow>
    (call = Repack \<Longrightarrow> 4 \<le> g_unpack_end t) \<Longrightarrow> works E s u"
| works_receive: "works E s t \<Longrightarrow> same_minnow t u \<Longrightarrow> works E s u"

text \<open>Calls that touch neither the wire nor the connections.\<close>

definition off_wire :: "'u phish_scheme \<Rightarrow> 'u phish_scheme \<Rightarrow> bool" where
  "off_wire s t \<longleftrightarrow> zmq_log t = zmq_log s \<and> g_output_connections t = g_output_connections s \<and>
     g_pack_end s \<le> g_pack_end t \<and> g_at_abort t = g_at_abort s \<and> pool_live t = pool_live s \<and>
     g_initialized t = g_initialized s"

lemma off_wire_refl [simp]: "off_wire s s"
  by (simp add: off_wire_def)

lemma off_wire_trans: "off_wire s t \<Longrightarrow> off_wire t u \<Longrightarrow> off_wire s u"
  by (auto simp: off_wire_def)

lemma off_wire_account:
  "off_wire s t \<Longrightarrow> sound s \<Longrightarrow> sound t \<and> closing_account t r p = closing_account s r p"
  by (auto simp: off_wire_def sound_def closing_account_def)

lemma phish_error_no_Ret: "g_at_abort s = None \<Longrightarrow> phish_error E msg s \<noteq> Ret u t"
  using phish_error_no_callback [of s E msg] by auto

lemma pack_off_wire:
  "pack_count s = Ret n t \<Longrightarrow> off_wire s t"
  "set_pack_count k s = Ret u t \<Longrightarrow> off_wire s t"
  "pack_push bs s = Ret u t \<Longrightarrow> off_wire s t"
  "load_at d off m s = Ret v t \<Longrightarrow> off_wire s t"
  "check_overflow E sz s = Ret u t \<Longrightarrow> g_at_abort s = None \<Longrightarrow> off_wire s t"
  by (auto simp: pack_count_def set_pack_count_def pack_push_def store_at_def load_at_def
      check_overflow_def off_wire_def bnd_eq_Ret phish_error_no_Ret split: if_splits)

lemma off_wire_abort: "off_wire s t \<Longrightarrow> g_at_abort s = None \<Longrightarrow> g_at_abort t = None"
  by (simp add: off_wire_def)

lemma pack_item_off_wire:
  assumes "pack_item E it s = Ret u t" "g_at_abort s = None"
  shows "off_wire s t"
  using assms
  by (cases it)
    (auto simp: pack_value_def pack_array_def Let_def bnd_eq_Ret split: if_splits
      dest!: pack_off_wire, (meson off_wire_trans)+)

lemma phish_return_error_no_Ret: "g_at_abort s = None \<Longrightarrow> phish_return_error E msg code s \<noteq> Ret u t"
  by (simp add: phish_return_error_def bnd_eq_Ret phish_error_no_Ret)

lemma phish_unpack_off_wire:
  assumes "phish_unpack E s = Ret u t" "g_at_abort s = None"
  shows "off_wire s t"
  using assms
  by (auto simp: phish_unpack_def Let_def bnd_eq_Ret load_at_def unpack_value_def unpack_array_def
      phish_return_error_no_Ret off_wire_def split: if_splits option.splits bool.splits)

lemma ports_off_wire:
  assumes "g_at_abort s = None" "g_initialized s"
  shows "phish_input E p f g required s = Ret u t \<Longrightarrow> off_wire s t"
    "phish_output E p s = Ret u t \<Longrightarrow> off_wire s t"
    "phish_check E s = Ret u t \<Longrightarrow> off_wire s t"
  using assms
  by (auto simp: phish_input_def phish_output_def phish_check_def phish_assert_initialized_def
      phish_assert_not_checked_def phish_return_error_no_Ret off_wire_def Let_def
      split: if_splits option.splits)

lemma phish_close_account:
  assumes "phish_close E port s = Ret u t" "sound s"
  shows "sound t \<and> closing_account t r p = closing_account s r p"
proof -
  have "g_checked s"
    using assms
    by (auto simp: phish_close_def phish_assert_initialized_def phish_assert_checked_def sound_def
        phish_return_error_no_Ret split: if_splits)
  then obtain log where log: "t = s\<lparr>zmq_log := zmq_log s @ log,
      g_output_connections := merase port (g_output_connections s)\<rparr>"
    "\<forall>r p. closes_sent log r p + closes_owed (merase port (g_output_connections s)) r p =
      closes_owed (g_output_connections s) r p"
    using phish_close_run [of s E port] assms by (auto simp: sound_def)
  then show ?thesis
    using assms(2) by (simp add: sound_def closing_account_def msorted_merase)
qed

lemma api_step_account:
  assumes "api_step E call s = Ret () t" "sound s" "call = Repack \<Longrightarrow> 4 \<le> g_unpack_end s"
  shows "sound t \<and> closing_account t r p = closing_account s r p"
proof -
  have s: "g_at_abort s = None" "g_initialized s" using assms(2) by (simp_all add: sound_def)
  note off = off_wire_account [OF _ assms(2)]
  show ?thesis
  proof (cases call)
    case Repack
    then show ?thesis
      using assms by (auto simp: phish_repack_def release_datum_def use_datum_def sound_def
          closing_account_def split: if_splits)
  next
    case (Send a mem key port)
    then show ?thesis using assms(1,2) send_account by simp
  next
    case (Close_port port)
    then obtain a where "phish_close E port s = Ret a t" using assms(1) by (auto simp: bnd_eq_Ret)
    then show ?thesis using phish_close_account assms(2) by blast
  qed (use assms(1) s in \<open>auto simp: bnd_eq_Ret
         intro!: off dest: ports_off_wire [OF s] pack_item_off_wire phish_unpack_off_wire\<close>)
qed

lemma works_account:
  assumes "works E s t" "sound s"
  shows "sound t \<and> closing_account t r p = closing_account s r p"
  using assms
proof (induction rule: works.induct)
  case (works_call t call u)
  then show ?case using api_step_account [of E call t u r p] by simp
next
  case (works_receive t u)
  then show ?case by (auto simp: same_minnow_def sound_def closing_account_def)
qed simp

lemma exit_account:
  assumes "phish_exit E s = Ret 0 t" "sound s" "pool_live s"
  shows "closes_sent (zmq_log t) r p = closing_account s r p"
proof -
  have "g_checked s"
    using assms
    by (auto simp: phish_exit_def phish_assert_initialized_def phish_assert_checked_def sound_def
        phish_return_error_no_Ret split: if_splits)
  then show ?thesis using phish_exit_pays [of s E] assms by (auto simp: sound_def)
qed

section \<open>Properties\<close>

text \<open>A minnow's life: started by the launcher, at work, shut down; \<open>log\<close> is all it sent.\<close>

definition minnow_life :: "'u phish_scheme callbacks \<Rightarrow> bait \<Rightarrow> nat \<Rightarrow> zcall list \<Rightarrow> bool" where
  "minnow_life E b i log \<longleftrightarrow>
     (\<exists>request s0 args s t u. fresh_process s0 \<and> start_request request \<and>
        phish_init E (Some request) (minnow_arguments b i) s0 = Ret (0, args) s \<and>
        works E s t \<and> phish_exit E t = Ret 0 u \<and> log = zmq_log u)"

lemma launched_sound: "launched b i s \<Longrightarrow> sound s"
  using packed_sizes [of "[]" s] by (auto simp: launched_def Let_def sound_def pool_ok_def)

lemma life_account:
  fixes E :: "'u phish_scheme callbacks"
  assumes "minnow_life E b i log" "bait_ok b" "launchable b i"
  shows "\<exists>s :: 'u phish_scheme. launched b i s \<and> (\<forall>r p. closes_sent log r p = closing_account s r p)"
proof -
  obtain request s0 args and s t u :: "'u phish_scheme" where life: "fresh_process s0" "start_request request"
      "phish_init E (Some request) (minnow_arguments b i) s0 = Ret (0, args) s"
      "works E s t" "phish_exit E t = Ret 0 u" "log = zmq_log u"
    using assms(1) unfolding minnow_life_def by blast
  have launched: "launched b i s"
    using launched_minnow_init [OF assms(2,3) life(1,2), of E] life(3) by auto
  note work = works_account [OF life(4) launched_sound [OF launched]]
  then have "pool_live t" by (simp add: sound_def)
  then have "closes_sent log r p = closing_account s r p" for r p
    using exit_account [OF life(5)] work life(6) by simp
  then show ?thesis using launched by blast
qed

text \<open>
  C1: In a network that was described and launched with the library, whatever its minnows pack,
  send, receive and close in whatever order, once they have all exited each minnow has been
  sent, on each input port, exactly as many close messages as its loop waits for.
\<close>

theorem network_closes_all:
  fixes E :: "nat \<Rightarrow> 'u phish_scheme callbacks"
  assumes "baited b" "n = length (b_minnows b)" "5555 + 2 * n < 2 ^ 31"
    "\<forall>c \<in> set (all_wires (b_minnows b)). 0 \<le> cn_input_port c \<and> cn_input_port c < 128"
    "\<forall>i < n. launchable b i" "\<forall>i < n. minnow_life (E i) b i (log i)"
    "m < n" "0 \<le> p" "p < 128"
  shows "int (\<Sum>i<n. closes_sent (log i) (input_port_internal n m) p) =
    mat 0 (mn_incoming (b_minnows b ! m)) p"
proof -
  have ok: "bait_ok b" using assms(1) by (rule bait_ok_baited)
  have "\<forall>i < n. \<exists>s :: 'u phish_scheme. launched b i s \<and>
      (\<forall>r p. closes_sent (log i) r p = closing_account s r p)"
    using life_account [OF _ ok] assms(5,6) by blast
  then obtain s :: "nat \<Rightarrow> 'u phish_scheme" where "\<forall>i < n. launched b i (s i)"
      "\<forall>i < n. \<forall>r p. closes_sent (log i) r p = closing_account (s i) r p"
    by metis
  then show ?thesis
    using network_closes [OF ok assms(2,3,7,4)] assms(8,9) by blast
qed

text \<open>Every minnow of the sample network can define its ports, check them and exit.\<close>

lemma sample_life:
  assumes "i < 3"
  shows "\<exists>log. minnow_life (no_callbacks :: phish callbacks) sample_network i log"
proof -
  let ?E = "no_callbacks :: phish callbacks"
  obtain args s where s: "phish_init ?E (Some ''start'') (minnow_arguments sample_network i) phish_start = Ret (0, args) s"
      "launched sample_network i s"
    using launched_minnow_init [OF bait_ok_baited [OF sample_network_baited]
        sample_network_launchable [OF assms] phish_start_fresh, of "''start''" ?E]
    by (auto simp: start_request_def)
  have net: "\<forall>m \<in> set (b_minnows sample_network). set (mkeys (mn_incoming m)) \<subseteq> {0} \<and>
      (\<forall>c \<in> set (mn_outgoing m). cn_output_port c = 0)" "length (b_minnows sample_network) = 3"
    by code_simp+
  have "set (mkeys (g_connection_count s)) \<subseteq> {0}"
      "set (mkeys (g_output_connections s)) \<subseteq> {0}"
    using s(2) net assms nth_mem [of i "b_minnows sample_network"]
    by (fastforce simp: launched_def Let_def mcount_iff)+
  moreover have ok: "sound s" "\<not> g_checked s" "g_port_required s = []"
    using launched_sound [OF s(2)] s(2) by (simp_all add: launched_def Let_def)
  moreover define t where "t = s\<lparr>g_message_callback := mput 0 None (g_message_callback s),
      g_closed_callback := mput 0 None (g_closed_callback s), g_port_required := [(0, False)],
      g_defined_output_ports := List.insert 0 (g_defined_output_ports s)\<rparr>"
  ultimately have "wired_up t"
    by (auto simp: wired_up_def mcount_iff)
  then have check: "api_step ?E Check t = Ret () (t\<lparr>g_checked := True\<rparr>)"
    using wired_up_check [of t ?E] ok by (simp add: t_def sound_def)
  have "works ?E s (t\<lparr>g_checked := True\<rparr>)"
    by (rule works_call [where call = Check, OF works_call [where call = "Output 0",
            OF works_call [where call = "Input 0 None None 0", OF works_start]] check])
      (use ok in \<open>auto simp: sound_def phish_input_def phish_output_def t_def
         phish_assert_initialized_def phish_assert_not_checked_def\<close>)
  moreover have "sound (t\<lparr>g_checked := True\<rparr>)" using ok by (simp add: t_def sound_def)
  then obtain u where "phish_exit ?E (t\<lparr>g_checked := True\<rparr>) = Ret 0 u"
    using phish_exit_pays [of "t\<lparr>g_checked := True\<rparr>" ?E] by (auto simp: sound_def)
  moreover have "start_request ''start''" by (simp add: start_request_def)
  ultimately show ?thesis
    using s(1) phish_start_fresh unfolding minnow_life_def by blast
qed

theorem network_closes_all_witness:
  "\<exists>log. (\<forall>i < 3. minnow_life (no_callbacks :: phish callbacks) sample_network i (log i)) \<and>
    int (\<Sum>i<3. closes_sent (log i) (input_port_internal 3 2) 0) =
      mat 0 (mn_incoming (b_minnows sample_network ! 2)) 0"
proof -
  obtain log where log: "\<forall>i < 3. minnow_life (no_callbacks :: phish callbacks) sample_network i (log i)"
    using sample_life by metis
  have "int (\<Sum>i<3. closes_sent (log i) (input_port_internal 3 2) 0) =
      mat 0 (mn_incoming (b_minnows sample_network ! 2)) 0"
  proof (rule network_closes_all [where E = "\<lambda>_. no_callbacks :: phish callbacks"])
    show "baited sample_network" by (rule sample_network_baited)
    show "3 = length (b_minnows sample_network)" by code_simp
    show "\<forall>c \<in> set (all_wires (b_minnows sample_network)). 0 \<le> cn_input_port c \<and> cn_input_port c < 128"
      by code_simp
  qed (use log in \<open>simp_all add: sample_network_launchable\<close>)
  then show ?thesis using log by blast
qed

text \<open>
  C13: Between its start and its exit, whatever calls a minnow makes, the close messages it has
  sent and those its open connections still owe add up to the same number for every recipient
  and port.
\<close>

theorem work_keeps_account:
  assumes "works E s t" "sound s"
  shows "sound t \<and> closing_account t r p = closing_account s r p"
  using assms by (rule works_account)

theorem work_keeps_account_witness:
  "let s = sample_process 16 [(0, [\<lparr>m_input_port = 3, m_recipients = [''a''], m_pattern = Hashed\<rparr>])]
   in \<exists>t. works no_callbacks s t \<and> g_output_connections t = [] \<and>
        (sound t \<and> closing_account t ''a'' 3 = closing_account s ''a'' 3)"
proof -
  let ?s = "sample_process 16 [(0, [\<lparr>m_input_port = 3, m_recipients = [''a''], m_pattern = Hashed\<rparr>])]"
  have s: "sound ?s" by (simp add: sound_def sample_process_def phish_start_def msorted_Cons)
  let ?t = "fold delete_connection [\<lparr>m_input_port = 3, m_recipients = [''a''], m_pattern = Hashed\<rparr>] ?s
    \<lparr>g_output_connections := []\<rparr>"
  have "api_step no_callbacks (Close_port 0) ?s = Ret () ?t"
    by (simp add: phish_close_def phish_assert_initialized_def phish_assert_checked_def
        sample_process_def delete_connection_def fold_zmq_call merase_def)
  then have "works no_callbacks ?s ?t"
    using works_call [OF works_start, of no_callbacks "Close_port 0" ?s ?t] by simp
  then show ?thesis
    using work_keeps_account [OF _ s, of no_callbacks ?t "''a''" 3] unfolding Let_def
    by (intro exI [of _ ?t]) simp
qed

end
