(* ===== verification/Minnow_Kit.thy ===== *)
theory Minnow_Kit
  imports Phish_Receive Phish_Transmit Phish_Init
begin

text \<open>
  What the minnows of \<^verbatim>\<open>apps/phish/minnow\<close> share: the argument checks that report an
  error and go on, C strings and 32-bit integers as items, the message that carries a count and
  a word.
\<close>

text \<open>\<open>if(!b) phish_error(msg);\<close>\<close>

definition require :: "bool \<Rightarrow> string \<Rightarrow> 'u phish_scheme \<Rightarrow> ('u phish_scheme, unit) res" where
  "require b msg s = (if b then Ret () s else phish_error no_callbacks msg s)"

lemma require_True [simp]: "require True msg s = Ret () s"
  by (simp add: require_def)

lemma packed_unpack_current [simp]: "packed its (s\<lparr>g_unpack_current := e\<rparr>) = packed its s"
  by (simp add: packed_def pool_ok_def)

text \<open>A C string as an item, and the body of a message with the given items.\<close>

definition string_item :: "byte list \<Rightarrow> item" where
  "string_item w = Array PHISH_STRING (of_nat (length w + 1)) (w @ [0])"

definition int32_item :: "u32 \<Rightarrow> item" where
  "int32_item v = Scalar PHISH_INT32 (le_bytes 4 v)"

definition c_string :: "nat \<Rightarrow> byte list \<Rightarrow> bool" where
  "c_string n w \<longleftrightarrow> 0 \<notin> set w \<and> length w \<le> n \<and> n < 2 ^ 31 - 1"

lemma unat_u32: "m < 2 ^ 32 \<Longrightarrow> unat (of_nat m :: u32) = m"
  by (simp add: unat_of_nat take_bit_nat_eq_self)

lemma string_item_ok [simp]:
  assumes "c_string n w"
  shows "item_ok (string_item w)" "length (item_bytes (string_item w)) = length w + 6"
proof -
  have "length w + 1 < 2 ^ 31" using assms by (simp add: c_string_def)
  then have "unat (of_nat (length w + 1) :: u32) = length w + 1"
    by (intro unat_u32) (simp add: less_trans)
  with \<open>length w + 1 < _\<close>
  show "item_ok (string_item w)" "length (item_bytes (string_item w)) = length w + 6"
    by (simp_all add: string_item_def unpack_switch_def)
qed

lemma string_item_view [simp]:
  assumes "c_string n w"
  shows "item_type (string_item w) = PHISH_STRING" "item_count (string_item w) = int (length w + 1)"
    "item_data (string_item w) = w @ [0]"
proof -
  have "length w + 1 < 2 ^ 32" using assms by (simp add: c_string_def)
  from unat_u32 [OF this] show "item_count (string_item w) = int (length w + 1)"
    by (simp only: string_item_def item_count.simps uint_nat)
qed (simp_all add: string_item_def)

lemma int32_item_ok [simp]: "item_ok (int32_item v)" "length (item_bytes (int32_item v)) = 5"
  by (simp_all add: int32_item_def unpack_switch_def)

lemma pack_string_item:
  assumes "c_string n w"
  shows "phish_pack_string E (w @ 0 # rest) s = pack_array E 1 (w @ 0 # rest) (uint (of_nat (length w + 1) :: u32)) PHISH_STRING s"
    "pack_array E 1 (w @ 0 # rest) (uint (of_nat (length w + 1) :: u32)) PHISH_STRING s =
       pack_item E (string_item w) s"
proof -
  have len: "length w + 1 < 2 ^ 31" using assms by (simp add: c_string_def)
  then have unat: "unat (of_nat (length w + 1) :: u32) = length w + 1"
    by (intro unat_u32) (simp add: less_trans)
  have strlen: "c_strlen (w @ 0 # rest) = length w"
    using assms by (induction w) (simp_all add: c_strlen_def c_string_def)
  show "phish_pack_string E (w @ 0 # rest) s = pack_array E 1 (w @ 0 # rest) (uint (of_nat (length w + 1) :: u32)) PHISH_STRING s"
    using sint_small_u32 [of "of_nat (length w + 1)"] len unat
    by (simp add: phish_pack_string_def strlen)
  show "pack_array E 1 (w @ 0 # rest) (uint (of_nat (length w + 1) :: u32)) PHISH_STRING s =
       pack_item E (string_item w) s"
    using unat by (simp add: string_item_def pack_array_def Let_def unpack_switch_def)
qed

lemma pack_int32_item: "phish_pack_int32 E v s = pack_item E (int32_item v) s"
  by (simp add: phish_pack_int32_def int32_item_def)


text \<open>The bytes of a C string in a datum; a string that does not end inside it is read past it.\<close>

definition load_c_string ::
  "nat \<Rightarrow> int \<Rightarrow> 'u phish_scheme \<Rightarrow> ('u phish_scheme, byte list) res" where
  "load_c_string d off s =
     (let bs = drop (nat off) (g_datum_pool s ! d) in
      if in_datum d off 1 s \<and> 0 \<in> set bs then Ret (takeWhile (\<lambda>b. b \<noteq> 0) bs) s else Fault)"

lemma load_c_string_loaded:
  assumes "load_at d off (length w + 1) s = Ret (w @ [0]) s" "0 \<notin> set w"
  shows "load_c_string d off s = Ret w s"
proof -
  have in_d: "in_datum d off (length w + 1) s" and eq: "seg (nat off) (length w + 1) (g_datum_pool s ! d) = w @ [0]"
    using assms(1) by (auto simp: load_at_def split: if_splits)
  let ?bs = "drop (nat off) (g_datum_pool s ! d)"
  have "?bs = (w @ [0]) @ drop (length w + 1) ?bs"
    using eq by (metis append_take_drop_id seg_def)
  then obtain rest where bs: "?bs = w @ 0 # rest" by simp
  have "takeWhile (\<lambda>b. b \<noteq> 0) (w @ 0 # rest) = w"
    using assms(2) by (induction w) auto
  then show ?thesis using in_d bs by (simp add: load_c_string_def in_datum_def)
qed

text \<open>\<open>atoi\<close>: \<open>strtol\<close>, which stays inside 64 bits, cut to an \<open>int\<close>.\<close>

definition atoi :: "string \<Rightarrow> int" where
  "atoi str =
     (let t = dropWhile is_space str;
          neg = (t \<noteq> [] \<and> hd t = CHR ''-'');
          u = (if t \<noteq> [] \<and> (hd t = CHR ''-'' \<or> hd t = CHR ''+'') then tl t else t);
          n = int (read_digits (takeWhile is_digit u));
          v = (if neg then max (- (2 ^ 63)) (- n) else min (2 ^ 63 - 1) n)
      in sint (word_of_int v :: u32))"

end
