(* ===== verification/Minnow_Count.thy ===== *)
theory Minnow_Count
  imports Minnow_Kit
begin

text \<open>
  The minnow \<^verbatim>\<open>count\<close> (\<^verbatim>\<open>apps/phish/minnow/count.cpp\<close>): it counts the strings it
  receives and, when its input closes, sends every string with its count. The interpretation of
  the locale \<open>minnow\<close> turns the receiving loop into a fold over the messages, and the fold into
  counting.
\<close>

section \<open>The minnow\<close>

record count_minnow = phish +
  hash :: "(byte list, u32) smap"

text \<open>
  The counter is an \<open>int\<close>, kept as its 32 bits. A negative length makes the constructor of
  \<open>std::string\<close> throw.
\<close>

definition count_string :: "int \<Rightarrow> count_minnow \<Rightarrow> (count_minnow, unit) res" where
  "count_string nvalues s =
     bnd (require (nvalues = 1) ''Count processes one-value datums'' s) (\<lambda>_ s.
     bnd (phish_unpack no_callbacks s) (\<lambda>(type, data) s.
     bnd (require (type = uint PHISH_STRING) ''Count processes string values'' s) (\<lambda>_ s.
     case data of
       None \<Rightarrow> Fault
     | Some (buf, len) \<Rightarrow>
         if len < 0 then Raise ''std::length_error'' s
         else bnd (load_at (g_unpack_begin s) buf (nat len) s) (\<lambda>str s.
           Ret () (s\<lparr>hash := mput str (mat 0 (hash s) str + 1) (hash s)\<rparr>)))))"

primrec dump_entries ::
  "(byte list \<times> u32) list \<Rightarrow> 'u phish_scheme \<Rightarrow> ('u phish_scheme, unit) res" where
  "dump_entries [] s = Ret () s"
| "dump_entries (e # es) s =
     bnd (phish_pack_int32 no_callbacks (snd e) s) (\<lambda>_ s.
     bnd (phish_pack_string no_callbacks (fst e @ [0]) s) (\<lambda>_ s.
     bnd (phish_send 0 s) (\<lambda>_. dump_entries es)))"

definition dump :: "count_minnow \<Rightarrow> (count_minnow, unit) res" where
  "dump s = dump_entries (hash s) s"

definition count_callbacks :: "count_minnow callbacks" where
  "count_callbacks =
     \<lparr>on_message = \<lambda>f nvalues. if f = 0 then count_string nvalues else (\<lambda>_. Fault),
      on_closed = \<lambda>f. if f = 0 then dump else (\<lambda>_. Fault),
      on_abort = \<lambda>_ _. Fault\<rparr>"

definition count_main ::
  "string option \<Rightarrow> string list \<Rightarrow> part list \<Rightarrow> count_minnow \<Rightarrow> (count_minnow, int) res" where
  "count_main request args inbox s =
     (let E = count_callbacks in
      bnd (phish_init E request args s) (\<lambda>(_, args) s.
      bnd (phish_input E 0 (Some 0) (Some 0) 1 s) (\<lambda>_ s.
      bnd (phish_output E 0 s) (\<lambda>_ s.
      bnd (phish_check E s) (\<lambda>_ s.
      bnd (require (length args = 1) ''Count syntax: count'' s) (\<lambda>_ s.
      bnd (phish_loop E inbox s) (\<lambda>_ s.
      bnd (phish_exit E s) (\<lambda>_. Ret 0))))))))"

section \<open>Its promise\<close>

text \<open>
  \<open>N\<close> is the size of a datum. A word leaves with the five bytes of its count, so a word that
  arrives in a full datum would not fit; the invariant leaves room for it.
\<close>

definition count_word :: "nat \<Rightarrow> byte list \<Rightarrow> bool" where
  "count_word N w \<longleftrightarrow> c_string (N - 15) w \<and> 15 \<le> N"

definition count_inv :: "nat \<Rightarrow> count_minnow \<Rightarrow> bool" where
  "count_inv N s \<longleftrightarrow>
     packed [] s \<and> g_datum_size s = N \<and> 4 \<le> N \<and> g_at_abort s = None \<and>
     g_message_callback s = [(0, Some 0)] \<and> g_closed_callback s = [(0, Some 0)] \<and>
     g_all_input_ports_closed s = None \<and>
     (\<forall>k \<in> set (mkeys (hash s)). \<exists>w. k = w @ [0] \<and> count_word N w) \<and>
     (\<exists>cs. mfind (g_output_connections s) 0 = Some cs \<and> (\<forall>c \<in> set cs. connection_ok c))"

type_synonym count_view = "(byte list, u32) smap \<times> output_connection list \<times> zcall list"

definition count_view :: "count_minnow \<Rightarrow> count_view" where
  "count_view s = (hash s, mat [] (g_output_connections s) 0, zmq_log s)"

definition count_accepts :: "nat \<Rightarrow> int \<Rightarrow> byte list \<Rightarrow> bool" where
  "count_accepts N p body \<longleftrightarrow>
     p = 0 \<and> (\<exists>w. count_word N w \<and> body = body_bytes [string_item w])"

text \<open>The string of a one-string body, with its final null.\<close>

definition body_string :: "byte list \<Rightarrow> byte list" where
  "body_string body = drop 9 body"

definition count_data :: "int \<Rightarrow> byte list \<Rightarrow> count_view \<Rightarrow> count_view" where
  "count_data p body = (\<lambda>(h, cs, log).
     (mput (body_string body) (mat 0 h (body_string body) + 1) h, cs, log))"

definition entry_body :: "byte list \<times> u32 \<Rightarrow> byte list" where
  "entry_body e = body_bytes [int32_item (snd e), string_item (butlast (fst e))]"

primrec dump_view ::
  "(byte list \<times> u32) list \<Rightarrow> output_connection list \<times> zcall list
     \<Rightarrow> output_connection list \<times> zcall list" where
  "dump_view [] v = v"
| "dump_view (e # es) v =
     dump_view es (map (advanced Anyone) (fst v),
       snd v @ concat (map (emission Anyone (entry_body e)) (fst v)))"

definition count_close :: "int \<Rightarrow> count_view \<Rightarrow> count_view" where
  "count_close p = (\<lambda>(h, v). (h, if p = 0 then dump_view h v else v))"

lemma count_inv_same: "count_inv N s \<Longrightarrow> same_minnow s t \<Longrightarrow> count_inv N t \<and> count_view t = count_view s"
  by (auto simp: count_inv_def count_view_def same_minnow_def packed_def pool_ok_def
      dest!: set_update_subset_insert [THEN subsetD])

lemma body_string_item: "count_word N w \<Longrightarrow> body_string (body_bytes [string_item w]) = w @ [0]"
  by (simp add: body_string_def body_bytes_def string_item_def)

lemma count_string_run:
  assumes "count_inv N s" "holds (body_bytes [string_item w]) s" "count_word N w"
  shows "\<exists>e. run_message count_callbacks 0 s =
    Ret () (s\<lparr>g_unpack_current := e, hash := mput (w @ [0]) (mat 0 (hash s) (w @ [0]) + 1) (hash s)\<rparr>)"
proof -
  have w: "c_string (N - 15) w" using assms(3) by (simp add: count_word_def)
  obtain off e where e: "phish_unpack no_callbacks s =
      Ret (uint PHISH_STRING, Some (off, int (length w + 1))) (s\<lparr>g_unpack_current := e\<rparr>)"
      "load_at (g_unpack_begin s) off (length w + 1) (s\<lparr>g_unpack_current := e\<rparr>) =
        Ret (w @ [0]) (s\<lparr>g_unpack_current := e\<rparr>)"
    using phish_unpack_item [OF holds_unpacking(1) [OF assms(2)] string_item_ok(1) [OF w], of no_callbacks]
    unfolding string_item_view [OF w] by (auto simp del: of_nat_add)
  have one: "sint (1 :: u32) = 1" by simp
  have "run_message count_callbacks 0 s = count_string 1 s"
    using assms(1) holds_unpacking(2) [OF assms(2)]
    by (simp add: run_message_def count_inv_def count_callbacks_def)
  also have "\<dots> = Ret () (s\<lparr>g_unpack_current := e,
      hash := mput (w @ [0]) (mat 0 (hash s) (w @ [0]) + 1) (hash s)\<rparr>)"
    using e by (simp add: count_string_def nat_add_distrib)
  finally show ?thesis by blast
qed

lemma packed_count_update:
  "packed its (s\<lparr>g_unpack_current := e, hash := h\<rparr>) = packed its (s :: count_minnow)"
  by (simp add: packed_def pool_ok_def)

lemma count_data_step:
  assumes "count_inv N s" "count_accepts N p body" "holds body s"
  shows "\<exists>t. run_message count_callbacks p s = Ret () t \<and> count_inv N t \<and> same_loop s t \<and>
    count_view t = count_data p body (count_view s)"
proof -
  obtain w where w: "p = 0" "count_word N w" "body = body_bytes [string_item w]"
    using assms(2) by (auto simp: count_accepts_def)
  obtain e where "run_message count_callbacks 0 s = Ret () (s\<lparr>g_unpack_current := e,
      hash := mput (w @ [0]) (mat 0 (hash s) (w @ [0]) + 1) (hash s)\<rparr>)"
    using count_string_run [OF assms(1) assms(3) [unfolded w(3)] w(2)] by blast
  then show ?thesis
    using assms(1) w body_string_item [OF w(2)]
    by (auto simp: count_inv_def same_loop_def count_view_def count_data_def packed_count_update)
qed

text \<open>One entry of the dump: two values packed, one message sent, an empty buffer again.\<close>

lemma send_entry_run:
  assumes "packed [] s" "g_datum_size s = N" "count_word N w"
    "mfind (g_output_connections s) 0 = Some cs" "\<forall>c \<in> set cs. connection_ok c"
  shows "\<exists>d l. bnd (phish_pack_int32 no_callbacks v s) (\<lambda>_ s.
      bnd (phish_pack_string no_callbacks (w @ [0, 0]) s) (\<lambda>_. phish_send 0)) =
    Ret () (sent Anyone (entry_body (w @ [0], v)) 0 cs d l s) \<and>
    packed [] (sent Anyone (entry_body (w @ [0], v)) 0 cs d l s)"
proof -
  have w: "c_string (N - 15) w" "15 \<le> N" using assms(3) by (simp_all add: count_word_def)
  have N: "length w + 15 \<le> N" using w by (auto simp: c_string_def)
  have end4: "g_pack_end s = 4" using assms(1) by (simp add: packed_def body_bytes_def)
  obtain d1 e1 where one: "pack_item no_callbacks (int32_item v) s = Ret () (set_pack d1 e1 s)"
      "packed [int32_item v] (set_pack d1 e1 s)"
    using packed_pack_item [OF assms(1) int32_item_ok(1)] assms(2) end4 w(2) by fastforce
  have e1: "e1 = 9" using one(2) by (simp add: packed_def body_bytes_def)
  obtain d2 e2 where two: "pack_item no_callbacks (string_item w) (set_pack d1 e1 s) =
        Ret () (set_pack d2 e2 s)"
      "packed [int32_item v, string_item w] (set_pack d2 e2 s)"
    using packed_pack_item [OF one(2) string_item_ok(1) [OF w(1)], of no_callbacks] assms(2) e1 N
      string_item_ok(2) [OF w(1)] by fastforce
  have three: "phish_pack_string no_callbacks (w @ [0, 0]) t = pack_item no_callbacks (string_item w) t"
    for t :: "'a phish_scheme"
    using pack_string_item [OF w(1), where rest = "[0]"] by (metis append_Cons)
  have key: "key_at Anyone (\<lambda>_. 0) 0" by (simp add: key_at_def)
  have out: "mfind (g_output_connections (set_pack d2 e2 s)) 0 = Some cs"
    by (simp add: set_pack_def assms(4))
  obtain d l where send: "send_port send 0 (set_pack d2 e2 s) =
        Ret () (sent Anyone (body_bytes [int32_item v, string_item w]) 0 cs d l (set_pack d2 e2 s))"
      "packed [] (sent Anyone (body_bytes [int32_item v, string_item w]) 0 cs d l (set_pack d2 e2 s))"
    using send_port_run [OF two(2) _ _ assms(5) key out] by (auto simp: sender_def)
  have merge: "sent a body p cs d l (set_pack d2 e2 s) = sent a body p cs d l s" for a body p
    by (simp add: sent_def set_pack_def)
  have body: "body_bytes [int32_item v, string_item w] = entry_body (w @ [0], v)"
    by (simp add: entry_body_def)
  show ?thesis
    using one(1) two(1) send
    by (intro exI [of _ d] exI [of _ l])
      (simp add: pack_int32_item three phish_send_def merge body)
qed

text \<open>What sending does to a minnow, and a whole sequence of entries.\<close>

definition same_receiver :: "'u phish_scheme \<Rightarrow> 'u phish_scheme \<Rightarrow> bool" where
  "same_receiver s t \<longleftrightarrow>
     (\<exists>m log n d e l. t = s\<lparr>g_output_connections := m, zmq_log := log, g_sent_count := n,
        g_datum_pool := d, g_pack_end := e, stderr_log := l\<rparr>)"

lemma same_receiver_refl: "same_receiver s s"
  unfolding same_receiver_def
  by (intro exI [of _ "g_output_connections s"] exI [of _ "zmq_log s"] exI [of _ "g_sent_count s"]
      exI [of _ "g_datum_pool s"] exI [of _ "g_pack_end s"] exI [of _ "stderr_log s"]) simp

lemma same_receiver_sent: "same_receiver (sent a body p cs d l s) t \<Longrightarrow> same_receiver s t"
  by (auto simp: same_receiver_def sent_def)

lemma dump_entries_run:
  assumes "packed [] s" "g_datum_size s = N" "mfind (g_output_connections s) 0 = Some cs"
    "\<forall>c \<in> set cs. connection_ok c" "\<forall>e \<in> set es. \<exists>w. fst e = w @ [0] \<and> count_word N w"
  shows "\<exists>t cs'. dump_entries es s = Ret () t \<and> packed [] t \<and> same_receiver s t \<and>
    mfind (g_output_connections t) 0 = Some cs' \<and> (\<forall>c \<in> set cs'. connection_ok c) \<and>
    (cs', zmq_log t) = dump_view es (cs, zmq_log s)"
  using assms
proof (induction es arbitrary: s cs)
  case Nil
  then show ?case by (simp add: same_receiver_refl)
next
  case (Cons e es)
  obtain w v where e: "e = (w @ [0], v)" "count_word N w"
    using Cons.prems(5) by (cases e) auto
  obtain d l where run: "bnd (phish_pack_int32 no_callbacks v s) (\<lambda>_ s.
      bnd (phish_pack_string no_callbacks (w @ [0, 0]) s) (\<lambda>_. phish_send 0)) =
    Ret () (sent Anyone (entry_body e) 0 cs d l s)" "packed [] (sent Anyone (entry_body e) 0 cs d l s)"
    using send_entry_run [OF Cons.prems(1,2) e(2) Cons.prems(3,4)] unfolding e(1) by blast
  let ?s = "sent Anyone (entry_body e) 0 cs d l s"
  have after: "g_datum_size ?s = N" "mfind (g_output_connections ?s) 0 = Some (map (advanced Anyone) cs)"
      "\<forall>c \<in> set (map (advanced Anyone) cs). connection_ok c"
    using Cons.prems(2,4) by (auto simp: sent_def connection_ok_advanced)
  obtain t cs' where t: "dump_entries es ?s = Ret () t" "packed [] t" "same_receiver ?s t"
      "mfind (g_output_connections t) 0 = Some cs'" "\<forall>c \<in> set cs'. connection_ok c"
      "(cs', zmq_log t) = dump_view es (map (advanced Anyone) cs, zmq_log ?s)"
    using Cons.IH [OF run(2) after] Cons.prems(5) by auto
  have "dump_entries (e # es) s = bnd (bnd (phish_pack_int32 no_callbacks v s) (\<lambda>_ s.
      bnd (phish_pack_string no_callbacks (w @ [0, 0]) s) (\<lambda>_. phish_send 0)))
      (\<lambda>_. dump_entries es)"
    by (simp add: e run_simps)
  with run(1) t same_receiver_sent [OF t(3)] show ?case by (simp add: sent_def)
qed

lemma count_inv_receiver:
  assumes "count_inv N s" "same_receiver s t" "packed [] t"
    "mfind (g_output_connections t) 0 = Some cs" "\<forall>c \<in> set cs. connection_ok c"
  shows "count_inv N t \<and> same_loop s t \<and> hash t = hash s"
  using assms by (auto simp: count_inv_def same_receiver_def same_loop_def)

lemma count_close_step:
  assumes "count_inv N s"
  shows "\<exists>t. run_closed count_callbacks True p s = Ret () t \<and> count_inv N t \<and> same_loop s t \<and>
    count_view t = count_close p (count_view s)"
proof (cases "p = 0")
  case False
  then show ?thesis
    using assms by (simp add: run_closed_def count_inv_def same_loop_def count_close_def count_view_def)
next
  case True
  obtain cs where cs: "packed [] s" "g_datum_size s = N" "mfind (g_output_connections s) 0 = Some cs"
      "\<forall>c \<in> set cs. connection_ok c"
    using assms by (auto simp: count_inv_def)
  have "\<forall>e \<in> set (hash s). \<exists>w. fst e = w @ [0] \<and> count_word N w"
    using assms by (auto simp: count_inv_def mkeys_def)
  from dump_entries_run [OF cs this]
  obtain t cs' where t: "dump_entries (hash s) s = Ret () t" "packed [] t" "same_receiver s t"
    "mfind (g_output_connections t) 0 = Some cs'" "\<forall>c \<in> set cs'. connection_ok c"
    "(cs', zmq_log t) = dump_view (hash s) (cs, zmq_log s)"
    by blast
  moreover have "run_closed count_callbacks True 0 s = dump_entries (hash s) s"
    using assms by (simp add: run_closed_def count_inv_def count_callbacks_def dump_def)
  moreover have "mat [] (g_output_connections s) 0 = cs" "mat [] (g_output_connections t) 0 = cs'"
    by (simp_all add: mat_def cs(3) t(4))
  ultimately show ?thesis
    using True count_inv_receiver [OF assms t(3,2,4,5)] by (simp add: count_view_def count_close_def)
qed

interpretation count: minnow count_callbacks "count_inv N" count_view "count_accepts N"
  count_data "\<lambda>_ _. True" count_close "\<lambda>v. v" for N
proof unfold_locales
  fix s t :: count_minnow and p body
  assume inv: "count_inv N s"
  then show "pool_ok s \<and> 4 \<le> g_datum_size s" by (simp add: count_inv_def packed_def)
  show "same_minnow s t \<Longrightarrow> count_inv N t \<and> count_view t = count_view s"
    using count_inv_same [OF inv] .
  show "count_accepts N p body \<Longrightarrow> holds body s \<Longrightarrow>
      \<exists>t. run_message count_callbacks p s = Ret () t \<and> count_inv N t \<and> same_loop s t \<and>
        count_view t = count_data p body (count_view s)"
    using count_data_step [OF inv] .
  show "\<exists>t. run_closed count_callbacks True p s = Ret () t \<and> count_inv N t \<and> same_loop s t \<and>
      count_view t = count_close p (count_view s)"
    using count_close_step [OF inv] .
  show "\<exists>t. run_all_closed count_callbacks s = Ret () t \<and> count_inv N t \<and> same_loop s t \<and>
      count_view t = count_view s"
    using inv by (simp add: run_all_closed_def count_inv_def same_loop_def)
qed

section \<open>Counting\<close>

text \<open>The words of a sequence of messages, and what the minnow makes of them.\<close>

definition word_message :: "byte list \<Rightarrow> message" where
  "word_message w = Data 0 (Some (body_bytes [string_item w]))"

fun count_words :: "message list \<Rightarrow> byte list list" where
  "count_words [] = []"
| "count_words (Data p (Some body) # ms) = body_string body # count_words ms"
| "count_words (Data p None # ms) = count_words ms"
| "count_words (Closing p # ms) = count_words ms"

definition tally :: "byte list list \<Rightarrow> (byte list, u32) smap \<Rightarrow> (byte list, u32) smap" where
  "tally ws h = fold (\<lambda>w h. mput w (mat 0 h w + 1) h) ws h"

lemma tally_mat: "mat 0 (tally ws h) w = mat 0 h w + of_nat (count_list ws w)"
  by (induction ws arbitrary: h) (auto simp: tally_def)

lemma tally_keys: "set (mkeys (tally ws h)) = set (mkeys h) \<union> set ws"
  by (induction ws arbitrary: h) (auto simp: tally_def)

lemma tally_msorted: "msorted h \<Longrightarrow> msorted (tally ws h)"
  by (induction ws arbitrary: h) (auto simp: tally_def msorted_mput)

lemma word_proper:
  assumes "count_word N w"
  shows "count.proper N N (word_message w)"
proof -
  have w: "c_string (N - 15) w" "15 \<le> N" using assms by (simp_all add: count_word_def)
  have "length w + 15 \<le> N" using w by (auto simp: c_string_def)
  then show ?thesis
    using assms w string_item_ok(2) [OF w(1)]
    by (auto simp: count.proper_def word_message_def count_accepts_def body_of_def body_bytes_def)
qed

lemma count_data_apply:
  "count_data p body (h, v) =
     (mput (body_string body) (mat 0 h (body_string body) + 1) h, v)"
  by (cases v) (simp add: count_data_def)

lemma count_close_apply: "count_close 0 (h, v) = (h, dump_view h v)"
  by (simp add: count_close_def)

lemma absorb_words:
  "\<forall>m \<in> set ms. (\<exists>w. m = word_message w) \<or> m = Closing 0 \<Longrightarrow>
   count.absorb_data ms (h, v) = (tally (count_words ms) h, v)"
  by (induction ms arbitrary: h) (auto simp: word_message_def count_data_apply body_of_def tally_def)

lemma word_message_port [simp]: "message_port (word_message w) = 0"
  by (simp add: word_message_def)

section \<open>Properties\<close>

text \<open>
  C10: The counting minnow, fed any interleaving of words and close messages that ends with the
  last close it waits for, leaves its loop with that message; it then has counted every word as
  often as it came (modulo the 32 bits of the counter), and has sent one message for each
  different word, in the order of the words, holding the count and the word.
\<close>

theorem count_minnow_counts:
  assumes "count_inv N s" "g_initialized s" "g_checked s" "\<not> g_running s" "hash s = []"
    "g_connection_count s = [(0, int k)]" "closings 0 ms = k"
    "\<forall>m \<in> set ms. (\<exists>w. count_word N w \<and> m = word_message w) \<or> m = Closing 0"
    "ms \<noteq> []" "last ms = Closing 0"
  shows "\<exists>t. phish_loop count_callbacks (concat (map message_parts ms) @ rest) s = Ret (0, rest) t \<and>
    msorted (hash t) \<and> set (mkeys (hash t)) = set (count_words ms) \<and>
    (\<forall>w. mat 0 (hash t) w = of_nat (count_list (count_words ms) w)) \<and>
    (mat [] (g_output_connections t) 0, zmq_log t) =
      dump_view (hash t) (mat [] (g_output_connections s) 0, zmq_log s)"
proof -
  have pos: "0 < k"
    using assms(7,9,10) last_in_set [OF assms(9)] by (auto simp: closings_def filter_empty_conv)
  have port: "\<forall>m \<in> set ms. message_port m = 0"
    and words: "\<forall>m \<in> set ms. (\<exists>w. m = word_message w) \<or> m = Closing 0"
    using assms(8) by auto
  have N: "g_datum_size s = N" using assms(1) by (simp add: count_inv_def)
  have only: "closings p ms = 0" if "p \<noteq> 0" for p
    using assms(8) that by (auto simp: closings_def filter_empty_conv word_message_def)
  have "\<forall>m \<in> set ms. count.proper N (g_datum_size s) m"
    using assms(8) word_proper unfolding N by (auto simp: count.proper_def)
  moreover have "\<forall>p. mcount (g_connection_count s) p \<longrightarrow> 0 < mat 0 (g_connection_count s) p"
    using pos by (simp add: assms(6) mcount_def mat_def)
  moreover have "\<forall>p. int (closings p ms) = mat 0 (g_connection_count s) p"
    using only assms(7) by (simp add: assms(6) mat_def)
  ultimately obtain t where t: "phish_loop count_callbacks (concat (map message_parts ms) @ rest) s = Ret (0, rest) t"
      "count_view t = count.absorb (g_connection_count s) ms (count_view s)"
    using count.phish_loop_closes [OF assms(1-4), of ms 0 rest] assms(9,10)
      count.always_closable by blast
  have "count.absorb (g_connection_count s) ms (count_view s) =
      (tally (count_words ms) (hash s),
       dump_view (tally (count_words ms) (hash s)) (mat [] (g_output_connections s) 0, zmq_log s))"
    unfolding count_view_def
    using count.absorb_one_port [OF port, of "g_connection_count s"] absorb_words [OF words, of "hash s"]
      assms(6,7,10) pos by (simp add: mat_def count_close_apply)
  then have "hash t = tally (count_words ms) []"
      "(mat [] (g_output_connections t) 0, zmq_log t) =
        dump_view (hash t) (mat [] (g_output_connections s) 0, zmq_log s)"
    using t(2) by (simp_all add: assms(5) count_view_def)
  then show ?thesis
    using t(1) tally_mat [of "count_words ms" "[]"] tally_keys [of "count_words ms" "[]"]
      tally_msorted [of "[]" "count_words ms"] by (simp add: mat_def)
qed

definition sample_count :: count_minnow where
  "sample_count = phish.extend
     (sample_process 32 [(0, [\<lparr>m_input_port = 1, m_recipients = [''a''], m_pattern = Broadcast\<rparr>])]
        \<lparr>g_connection_count := [(0, 1)], g_message_callback := [(0, Some 0)],
          g_closed_callback := [(0, Some 0)]\<rparr>)
     \<lparr>hash = []\<rparr>"

theorem count_minnow_counts_witness:
  "let ms = [word_message [104, 105], word_message [104, 105], Closing 0] in
   \<exists>t. phish_loop count_callbacks (concat (map message_parts ms) @ []) sample_count = Ret (0, []) t \<and>
    msorted (hash t) \<and> set (mkeys (hash t)) = set (count_words ms) \<and>
    (\<forall>w. mat 0 (hash t) w = of_nat (count_list (count_words ms) w)) \<and>
    (mat [] (g_output_connections t) 0, zmq_log t) =
      dump_view (hash t) (mat [] (g_output_connections sample_count) 0, zmq_log sample_count)"
proof -
  have "packed [] (sample_process 32 m)" for m by (simp add: sample_packed)
  then have "packed [] sample_count"
    by (simp add: packed_def pool_ok_def sample_count_def sample_process_def phish.defs)
  then have "count_inv 32 sample_count"
    by (simp add: count_inv_def sample_count_def sample_process_def phish_start_def connection_ok_def
        phish.defs)
  then show ?thesis
    unfolding Let_def
    by (rule count_minnow_counts [where N = 32])
      (auto simp: sample_count_def sample_process_def phish_start_def phish.defs word_message_def
        count_word_def c_string_def intro!: exI [of _ "[104, 105]"])
qed

end
