(* ===== verification/Minnow_Sort.thy ===== *)
theory Minnow_Sort
  imports Minnow_Count "HOL-Library.Product_Lexorder"
begin

text \<open>
  The minnow \<^verbatim>\<open>sort\<close> (\<^verbatim>\<open>apps/phish/minnow/sort.cpp\<close>): it keeps the pairs of a count and
  a word it receives and, when its input closes, sends the \<open>ntop\<close> greatest in descending
  order. It reads them without looking at how many there are.
\<close>

section \<open>The minnow\<close>

record sort_minnow = phish +
  pairs :: "(int \<times> byte list) list"
  ntop :: int

definition store :: "int \<Rightarrow> sort_minnow \<Rightarrow> (sort_minnow, unit) res" where
  "store nvalues s =
     bnd (require (nvalues = 2) ''Sort processes two-value datums'' s) (\<lambda>_ s.
     bnd (phish_unpack no_callbacks s) (\<lambda>(type1, data1) s.
     bnd (phish_unpack no_callbacks s) (\<lambda>(type2, data2) s.
     bnd (require (type1 = uint PHISH_INT32) ''Sort processes int/string datums'' s) (\<lambda>_ s.
     bnd (require (type2 = uint PHISH_STRING) ''Sort processes int/string datums'' s) (\<lambda>_ s.
     case (data1, data2) of
       (Some (cnt, _), Some (word, _)) \<Rightarrow>
         bnd (load_at (g_unpack_begin s) cnt 4 s) (\<lambda>bs s.
         bnd (load_c_string (g_unpack_begin s) word s) (\<lambda>str s.
         Ret () (s\<lparr>pairs := pairs s @ [(sint (le_word bs :: u32), str)]\<rparr>)))
     | _ \<Rightarrow> Fault)))))"

text \<open>
  The loop over \<open>list[i]\<close> for \<open>i < n\<close>, where \<open>es\<close> is what the list has from \<open>i\<close> on;
  \<open>operator[]\<close> does not check.
\<close>

primrec emit_top ::
  "nat \<Rightarrow> (int \<times> byte list) list \<Rightarrow> 'u phish_scheme \<Rightarrow> ('u phish_scheme, unit) res" where
  "emit_top 0 = (\<lambda>es. Ret ())"
| "emit_top (Suc n) = (\<lambda>es s.
     case es of
       [] \<Rightarrow> Fault
     | e # es \<Rightarrow>
         bnd (phish_pack_int32 no_callbacks (word_of_int (fst e)) s) (\<lambda>_ s.
         bnd (phish_pack_string no_callbacks (snd e @ [0]) s) (\<lambda>_ s.
         bnd (phish_send 0 s) (\<lambda>_. emit_top n es))))"

text \<open>\<open>std::sort\<close> with \<open>greater\<close>, by the count and then by the bytes of the word.\<close>

definition descending :: "(int \<times> byte list) list \<Rightarrow> (int \<times> byte list) list" where
  "descending es = rev (sort es)"

definition sort_close :: "sort_minnow \<Rightarrow> (sort_minnow, unit) res" where
  "sort_close s =
     (let s = s\<lparr>pairs := descending (pairs s)\<rparr> in emit_top (nat (ntop s)) (pairs s) s)"

definition sort_callbacks :: "sort_minnow callbacks" where
  "sort_callbacks =
     \<lparr>on_message = \<lambda>f nvalues. if f = 0 then store nvalues else (\<lambda>_. Fault),
      on_closed = \<lambda>f. if f = 0 then sort_close else (\<lambda>_. Fault),
      on_abort = \<lambda>_ _. Fault\<rparr>"

definition sort_main ::
  "string option \<Rightarrow> string list \<Rightarrow> part list \<Rightarrow> sort_minnow \<Rightarrow> (sort_minnow, int) res" where
  "sort_main request args inbox s =
     (let E = sort_callbacks in
      bnd (phish_init E request args s) (\<lambda>(_, args) s.
      bnd (phish_input E 0 (Some 0) (Some 0) 1 s) (\<lambda>_ s.
      bnd (phish_output E 0 s) (\<lambda>_ s.
      bnd (phish_check E s) (\<lambda>_ s.
      bnd (require (length args = 2) ''Sort syntax: sort N'' s) (\<lambda>_ s.
      bnd (phish_loop E inbox (s\<lparr>ntop := atoi (args ! 1)\<rparr>)) (\<lambda>_ s.
      bnd (phish_exit E s) (\<lambda>_. Ret 0))))))))"

section \<open>Its promise\<close>

text \<open>
  A pair takes as many bytes when it leaves as when it came, so each one fits a datum of the
  size \<open>N\<close> it came in.
\<close>

definition sort_inv :: "nat \<Rightarrow> sort_minnow \<Rightarrow> bool" where
  "sort_inv N s \<longleftrightarrow>
     packed [] s \<and> g_datum_size s = N \<and> 4 \<le> N \<and> g_at_abort s = None \<and>
     g_message_callback s = [(0, Some 0)] \<and> g_closed_callback s = [(0, Some 0)] \<and>
     g_all_input_ports_closed s = None \<and> (\<forall>e \<in> set (pairs s). count_word N (snd e)) \<and>
     (\<exists>cs. mfind (g_output_connections s) 0 = Some cs \<and> (\<forall>c \<in> set cs. connection_ok c))"

type_synonym sort_view =
  "int \<times> (int \<times> byte list) list \<times> output_connection list \<times> zcall list"

definition sort_view :: "sort_minnow \<Rightarrow> sort_view" where
  "sort_view s = (ntop s, pairs s, mat [] (g_output_connections s) 0, zmq_log s)"

definition pair_items :: "int \<times> byte list \<Rightarrow> item list" where
  "pair_items e = [int32_item (word_of_int (fst e)), string_item (snd e)]"

definition sort_accepts :: "nat \<Rightarrow> int \<Rightarrow> byte list \<Rightarrow> bool" where
  "sort_accepts N p body \<longleftrightarrow>
     p = 0 \<and> (\<exists>v w. count_word N w \<and> body = body_bytes [int32_item v, string_item w])"

text \<open>The pair in a body that holds one.\<close>

definition body_pair :: "byte list \<Rightarrow> int \<times> byte list" where
  "body_pair body = (sint (le_word (take 4 (drop 5 body)) :: u32), butlast (drop 14 body))"

definition sort_data :: "int \<Rightarrow> byte list \<Rightarrow> sort_view \<Rightarrow> sort_view" where
  "sort_data p body = (\<lambda>(n, es, v). (n, es @ [body_pair body], v))"

definition sort_ready :: "int \<Rightarrow> sort_view \<Rightarrow> bool" where
  "sort_ready p = (\<lambda>(n, es, v). p = 0 \<longrightarrow> n \<le> int (length es))"

text \<open>What \<open>emit_top\<close> sends are entries as the counting minnow sends them.\<close>

definition as_entry :: "int \<times> byte list \<Rightarrow> byte list \<times> u32" where
  "as_entry e = (snd e @ [0], word_of_int (fst e))"

definition sort_closed :: "int \<Rightarrow> sort_view \<Rightarrow> sort_view" where
  "sort_closed p = (\<lambda>(n, es, v).
     if p = 0 then (n, descending es, dump_view (map as_entry (take (nat n) (descending es))) v)
     else (n, es, v))"

lemma sort_inv_same: "sort_inv N s \<Longrightarrow> same_minnow s t \<Longrightarrow> sort_inv N t \<and> sort_view t = sort_view s"
  by (auto simp: sort_inv_def sort_view_def same_minnow_def packed_def pool_ok_def
      dest!: set_update_subset_insert [THEN subsetD])

lemma set_descending [simp]: "set (descending es) = set es" "length (descending es) = length es"
  by (simp_all add: descending_def)

lemma body_pair_items:
  "body_pair (body_bytes [int32_item v, string_item w]) = (sint v, w)"
  by (simp add: body_pair_def body_bytes_def int32_item_def string_item_def)

lemma store_run:
  assumes "sort_inv N s" "holds (body_bytes [int32_item v, string_item w]) s" "count_word N w"
  shows "\<exists>e. run_message sort_callbacks 0 s =
    Ret () (s\<lparr>g_unpack_current := e, pairs := pairs s @ [(sint v, w)]\<rparr>)"
proof -
  have w: "c_string (N - 15) w" using assms(3) by (simp add: count_word_def)
  obtain off1 e1 where one: "phish_unpack no_callbacks s =
      Ret (uint PHISH_INT32, Some (off1, 1)) (s\<lparr>g_unpack_current := e1\<rparr>)"
      "load_at (g_unpack_begin s) off1 4 (s\<lparr>g_unpack_current := e1\<rparr>) =
        Ret (le_bytes 4 v) (s\<lparr>g_unpack_current := e1\<rparr>)"
      "unpacking [string_item w] (s\<lparr>g_unpack_current := e1\<rparr>)"
    using phish_unpack_item [OF holds_unpacking(1) [OF assms(2)] int32_item_ok(1), of no_callbacks]
    by (auto simp: int32_item_def)
  obtain off2 e2 where two: "phish_unpack no_callbacks (s\<lparr>g_unpack_current := e1\<rparr>) =
      Ret (uint PHISH_STRING, Some (off2, int (length w + 1))) (s\<lparr>g_unpack_current := e2\<rparr>)"
      "load_at (g_unpack_begin s) off2 (length w + 1) (s\<lparr>g_unpack_current := e2\<rparr>) =
        Ret (w @ [0]) (s\<lparr>g_unpack_current := e2\<rparr>)"
    using phish_unpack_item [OF one(3) string_item_ok(1) [OF w], of no_callbacks]
    unfolding string_item_view [OF w] by (auto simp del: of_nat_add)
  have str: "load_c_string (g_unpack_begin s) off2 (s\<lparr>g_unpack_current := e2\<rparr>) =
      Ret w (s\<lparr>g_unpack_current := e2\<rparr>)"
    by (rule load_c_string_loaded [OF two(2)]) (use w in \<open>simp add: c_string_def\<close>)
  have cnt: "load_at (g_unpack_begin s) off1 4 (s\<lparr>g_unpack_current := e2\<rparr>) =
      Ret (le_bytes 4 v) (s\<lparr>g_unpack_current := e2\<rparr>)"
    using one(2) by (auto simp: load_at_def in_datum_def split: if_splits)
  have two': "sint (2 :: u32) = 2" by simp
  have "run_message sort_callbacks 0 s = store 2 s"
    using assms(1) holds_unpacking(2) [OF assms(2)]
    by (simp add: run_message_def sort_inv_def sort_callbacks_def)
  also have "\<dots> = Ret () (s\<lparr>g_unpack_current := e2, pairs := pairs s @ [(sint v, w)]\<rparr>)"
    using one(1) two(1) str cnt by (simp add: store_def)
  finally show ?thesis by blast
qed

lemma packed_store_update:
  "packed its (s\<lparr>g_unpack_current := e, pairs := h\<rparr>) = packed its (s :: sort_minnow)"
  by (simp add: packed_def pool_ok_def)

lemma sort_data_step:
  assumes "sort_inv N s" "sort_accepts N p body" "holds body s"
  shows "\<exists>t. run_message sort_callbacks p s = Ret () t \<and> sort_inv N t \<and> same_loop s t \<and>
    sort_view t = sort_data p body (sort_view s)"
proof -
  obtain v w where w: "p = 0" "count_word N w" "body = body_bytes [int32_item v, string_item w]"
    using assms(2) by (auto simp: sort_accepts_def)
  obtain e where "run_message sort_callbacks 0 s =
      Ret () (s\<lparr>g_unpack_current := e, pairs := pairs s @ [(sint v, w)]\<rparr>)"
    using store_run [OF assms(1) assms(3) [unfolded w(3)] w(2)] by blast
  then show ?thesis
    using assms(1) w body_pair_items [of v w]
    by (auto simp: sort_inv_def same_loop_def sort_view_def sort_data_def packed_store_update)
qed


lemma pack_word_null:
  assumes "count_word N w"
  shows "phish_pack_string E (w @ [0]) s = phish_pack_string E (w @ [0, 0]) s"
proof -
  have w: "c_string (N - 15) w" using assms by (simp add: count_word_def)
  show ?thesis
    using pack_string_item [OF w, where rest = "[]"] pack_string_item [OF w, where rest = "[0]"] by metis
qed

text \<open>The loop of \<open>sort\<close> sends what the loop of \<open>count\<close> sends, and faults past the end.\<close>

lemma emit_top_dump:
  fixes s :: "'a phish_scheme"
  shows "n \<le> length es \<Longrightarrow> \<forall>e \<in> set es. count_word N (snd e) \<Longrightarrow>
   emit_top n es s = dump_entries (map as_entry (take n es)) s"
proof (induction n arbitrary: es s)
  case (Suc n)
  then obtain e es' where es: "es = e # es'" "count_word N (snd e)" by (cases es) auto
  have "(emit_top n es' :: 'a phish_scheme \<Rightarrow> _) = dump_entries (map as_entry (take n es'))"
    by (rule ext) (use Suc es(1) in auto)
  then show ?case by (simp add: es(1) pack_word_null [OF es(2)]) (simp add: as_entry_def)
qed simp

lemma emit_top_split:
  fixes s :: "'a phish_scheme"
  shows "k \<le> length es \<Longrightarrow> emit_top (k + n) es s = bnd (emit_top k es s) (\<lambda>_. emit_top n (drop k es))"
proof (induction k arbitrary: es s)
  case (Suc k)
  then obtain e es' where es: "es = e # es'" "k \<le> length es'" by (cases es) auto
  then have "(emit_top (k + n) es' :: 'a phish_scheme \<Rightarrow> _) = (\<lambda>s. bnd (emit_top k es' s) (\<lambda>_. emit_top n (drop k es')))"
    by (intro ext Suc.IH)
  then show ?case by (simp add: es(1) run_simps)
qed simp

lemma entries_words:
  "\<forall>e \<in> set es. count_word N (snd e) \<Longrightarrow> \<forall>e \<in> set (map as_entry es). \<exists>w. fst e = w @ [0] \<and> count_word N w"
  by (auto simp: as_entry_def)

lemma emit_top_run:
  assumes "packed [] s" "g_datum_size s = N" "mfind (g_output_connections s) 0 = Some cs"
    "\<forall>c \<in> set cs. connection_ok c" "\<forall>e \<in> set es. count_word N (snd e)" "n \<le> length es"
  shows "\<exists>t cs'. emit_top n es s = Ret () t \<and> packed [] t \<and> same_receiver s t \<and>
    mfind (g_output_connections t) 0 = Some cs' \<and> (\<forall>c \<in> set cs'. connection_ok c) \<and>
    (cs', zmq_log t) = dump_view (map as_entry (take n es)) (cs, zmq_log s)"
  using dump_entries_run [OF assms(1-4) entries_words, of "take n es"] assms(5,6)
  by (auto simp: emit_top_dump dest: in_set_takeD)

lemma sort_inv_receiver:
  assumes "sort_inv N s" "same_receiver s t" "packed [] t"
    "mfind (g_output_connections t) 0 = Some cs" "\<forall>c \<in> set cs. connection_ok c"
  shows "sort_inv N t \<and> same_loop s t \<and> ntop t = ntop s \<and> pairs t = pairs s"
  using assms by (auto simp: sort_inv_def same_receiver_def same_loop_def)

lemma packed_sorted: "packed its (s\<lparr>pairs := es\<rparr>) = packed its s"
  by (simp add: packed_def pool_ok_def)

lemma sort_inv_descending: "sort_inv N s \<Longrightarrow> sort_inv N (s\<lparr>pairs := descending (pairs s)\<rparr>)"
  by (simp add: sort_inv_def packed_sorted)

lemma sort_close_step:
  assumes "sort_inv N s" "sort_ready p (sort_view s)"
  shows "\<exists>t. run_closed sort_callbacks True p s = Ret () t \<and> sort_inv N t \<and> same_loop s t \<and>
    sort_view t = sort_closed p (sort_view s)"
proof (cases "p = 0")
  case False
  then show ?thesis
    using assms by (simp add: run_closed_def sort_inv_def same_loop_def sort_closed_def sort_view_def)
next
  case True
  let ?s = "s\<lparr>pairs := descending (pairs s)\<rparr>"
  have inv: "sort_inv N ?s" by (rule sort_inv_descending [OF assms(1)])
  obtain cs where cs: "packed [] ?s" "g_datum_size ?s = N" "mfind (g_output_connections ?s) 0 = Some cs"
      "\<forall>c \<in> set cs. connection_ok c" "\<forall>e \<in> set (pairs ?s). count_word N (snd e)"
    using inv by (auto simp: sort_inv_def)
  have n: "nat (ntop s) \<le> length (pairs ?s)"
    using assms(2) True by (simp add: sort_ready_def sort_view_def)
  obtain t cs' where t: "emit_top (nat (ntop s)) (pairs ?s) ?s = Ret () t" "packed [] t"
      "same_receiver ?s t" "mfind (g_output_connections t) 0 = Some cs'"
      "\<forall>c \<in> set cs'. connection_ok c" "(cs', zmq_log t) =
        dump_view (map as_entry (take (nat (ntop s)) (pairs ?s))) (cs, zmq_log ?s)"
    using emit_top_run [OF cs n] by blast
  moreover have "run_closed sort_callbacks True 0 s = emit_top (nat (ntop s)) (pairs ?s) ?s"
    using assms by (simp add: run_closed_def sort_inv_def sort_callbacks_def sort_close_def Let_def)
  moreover have "mat [] (g_output_connections s) 0 = cs" "mat [] (g_output_connections t) 0 = cs'"
    using cs(3) t(4) by (simp_all add: mat_def)
  moreover have "same_loop s ?s" by (simp add: same_loop_def)
  ultimately show ?thesis
    using True sort_inv_receiver [OF inv t(3,2,4,5)]
    by (simp add: sort_view_def sort_closed_def same_loop_def)
qed

interpretation sorting: minnow sort_callbacks "sort_inv N" sort_view "sort_accepts N"
  sort_data sort_ready sort_closed "\<lambda>v. v" for N
proof unfold_locales
  fix s t :: sort_minnow and p body
  assume inv: "sort_inv N s"
  then show "pool_ok s \<and> 4 \<le> g_datum_size s" by (simp add: sort_inv_def packed_def)
  show "same_minnow s t \<Longrightarrow> sort_inv N t \<and> sort_view t = sort_view s"
    using sort_inv_same [OF inv] .
  show "sort_accepts N p body \<Longrightarrow> holds body s \<Longrightarrow>
      \<exists>t. run_message sort_callbacks p s = Ret () t \<and> sort_inv N t \<and> same_loop s t \<and>
        sort_view t = sort_data p body (sort_view s)"
    using sort_data_step [OF inv] .
  show "sort_ready p (sort_view s) \<Longrightarrow>
      \<exists>t. run_closed sort_callbacks True p s = Ret () t \<and> sort_inv N t \<and> same_loop s t \<and>
        sort_view t = sort_closed p (sort_view s)"
    using sort_close_step [OF inv] .
  show "\<exists>t. run_all_closed sort_callbacks s = Ret () t \<and> sort_inv N t \<and> same_loop s t \<and>
      sort_view t = sort_view s"
    using inv by (simp add: run_all_closed_def sort_inv_def same_loop_def)
qed

section \<open>Sorting\<close>

text \<open>The pairs a sequence of messages carries; a pair on the wire has a 32-bit count.\<close>

definition pair_message :: "int \<times> byte list \<Rightarrow> message" where
  "pair_message e = Data 0 (Some (body_bytes (pair_items e)))"

definition pair_ok :: "nat \<Rightarrow> int \<times> byte list \<Rightarrow> bool" where
  "pair_ok N e \<longleftrightarrow> count_word N (snd e) \<and> - (2 ^ 31) \<le> fst e \<and> fst e < 2 ^ 31"

fun sent_pairs :: "message list \<Rightarrow> (int \<times> byte list) list" where
  "sent_pairs [] = []"
| "sent_pairs (Data p b # ms) = body_pair (body_of b) # sent_pairs ms"
| "sent_pairs (Closing p # ms) = sent_pairs ms"

lemma sint_word_of_int32: "- (2 ^ 31) \<le> i \<Longrightarrow> i < 2 ^ 31 \<Longrightarrow> sint (word_of_int i :: u32) = i"
  by (simp add: sint_sbintrunc' signed_take_bit_int_eq_self)

lemma sent_pairs_message:
  "pair_ok N e \<Longrightarrow> sent_pairs (pair_message e # ms) = e # sent_pairs ms"
  by (simp add: pair_message_def body_of_def pair_items_def body_pair_items pair_ok_def
      sint_word_of_int32)

lemma pair_proper:
  assumes "pair_ok N e"
  shows "sorting.proper N N (pair_message e)"
proof -
  have w: "c_string (N - 15) (snd e)" "15 \<le> N" using assms by (simp_all add: pair_ok_def count_word_def)
  have "length (snd e) + 15 \<le> N" using w by (auto simp: c_string_def)
  then show ?thesis
    using assms string_item_ok(2) [OF w(1)]
    by (auto simp: sorting.proper_def pair_message_def sort_accepts_def body_of_def body_bytes_def
        pair_items_def pair_ok_def)
qed

lemma sort_data_apply: "sort_data p body (n, es, v) = (n, es @ [body_pair body], v)"
  by (simp add: sort_data_def)

lemma absorb_pairs:
  "sorting.absorb_data ms (n, es, v) = (n, es @ sent_pairs ms, v)"
proof (induction ms arbitrary: es)
  case (Cons m ms)
  then show ?case by (cases m) (simp_all add: sort_data_apply)
qed simp

lemma descending_sorted: "sorted (rev (descending es))" "mset (descending es) = mset es"
  by (simp_all add: descending_def)

section \<open>Properties\<close>

text \<open>
  C11: The sorting minnow, fed any interleaving of at least \<open>ntop\<close> pairs and close messages that
  ends with the last close it waits for, leaves its loop with that message; it then holds the
  pairs in descending order and has sent the \<open>ntop\<close> first of them, in that order.
\<close>

theorem sort_minnow_sorts:
  assumes "sort_inv N s" "g_initialized s" "g_checked s" "\<not> g_running s" "pairs s = []"
    "g_connection_count s = [(0, int k)]" "closings 0 ms = k"
    "\<forall>m \<in> set ms. (\<exists>e. pair_ok N e \<and> m = pair_message e) \<or> m = Closing 0"
    "ms \<noteq> []" "last ms = Closing 0" "ntop s \<le> int (length (sent_pairs ms))"
  shows "\<exists>t. phish_loop sort_callbacks (concat (map message_parts ms) @ rest) s = Ret (0, rest) t \<and>
    mset (pairs t) = mset (sent_pairs ms) \<and> sorted (rev (pairs t)) \<and>
    (mat [] (g_output_connections t) 0, zmq_log t) =
      dump_view (map as_entry (take (nat (ntop s)) (pairs t)))
        (mat [] (g_output_connections s) 0, zmq_log s)"
proof -
  have pos: "0 < k"
    using assms(7,9,10) last_in_set [OF assms(9)] by (auto simp: closings_def filter_empty_conv)
  have port: "\<forall>m \<in> set ms. message_port m = 0"
    using assms(8) by (auto simp: pair_message_def)
  have N: "g_datum_size s = N" using assms(1) by (simp add: sort_inv_def)
  have only: "closings p ms = 0" if "p \<noteq> 0" for p
    using assms(8) that by (auto simp: closings_def filter_empty_conv pair_message_def)
  let ?v = "(ntop s, sent_pairs ms, mat [] (g_output_connections s) 0, zmq_log s)"
  have "sorting.absorb (g_connection_count s) ms (sort_view s) = sort_closed 0 ?v \<and>
      (sorting.closable (g_connection_count s) ms (sort_view s) \<longleftrightarrow> sort_ready 0 ?v)"
    using sorting.absorb_one_port [OF port, of "g_connection_count s"] assms(5,6,7,10) pos
    by (simp add: absorb_pairs sort_view_def mat_def)
  then have a: "sorting.absorb (g_connection_count s) ms (sort_view s) = sort_closed 0 ?v"
    "sorting.closable (g_connection_count s) ms (sort_view s)"
    using assms(11) by (simp_all add: sort_ready_def)
  have "\<forall>m \<in> set ms. sorting.proper N (g_datum_size s) m"
    using assms(8) pair_proper unfolding N by (auto simp: sorting.proper_def)
  moreover have "\<forall>p. mcount (g_connection_count s) p \<longrightarrow> 0 < mat 0 (g_connection_count s) p"
    using pos by (simp add: assms(6) mcount_def mat_def)
  moreover have "\<forall>p. int (closings p ms) = mat 0 (g_connection_count s) p"
    using only assms(7) by (simp add: assms(6) mat_def)
  ultimately obtain t where t: "phish_loop sort_callbacks (concat (map message_parts ms) @ rest) s = Ret (0, rest) t"
      "sort_view t = sort_closed 0 ?v"
    using sorting.phish_loop_closes [OF assms(1-4), of ms 0 rest] assms(9,10) a by metis
  then have "pairs t = descending (sent_pairs ms)" "(mat [] (g_output_connections t) 0, zmq_log t) =
      dump_view (map as_entry (take (nat (ntop s)) (pairs t)))
        (mat [] (g_output_connections s) 0, zmq_log s)"
    by (simp_all add: sort_view_def sort_closed_def)
  then show ?thesis using t(1) descending_sorted by metis
qed

definition sample_sort_minnow :: sort_minnow where
  "sample_sort_minnow = phish.extend
     (sample_process 32 [(0, [\<lparr>m_input_port = 1, m_recipients = [''a''], m_pattern = Broadcast\<rparr>])]
        \<lparr>g_connection_count := [(0, 1)], g_message_callback := [(0, Some 0)],
          g_closed_callback := [(0, Some 0)]\<rparr>)
     \<lparr>pairs = [], ntop = 1\<rparr>"

lemma sample_sort_inv: "sort_inv 32 sample_sort_minnow"
proof -
  have "packed [] (sample_process 32 m)" for m by (simp add: sample_packed)
  then have "packed [] sample_sort_minnow"
    by (simp add: packed_def pool_ok_def sample_sort_minnow_def sample_process_def phish.defs)
  then show ?thesis
    by (simp add: sort_inv_def sample_sort_minnow_def sample_process_def phish_start_def
        connection_ok_def phish.defs)
qed

theorem sort_minnow_sorts_witness:
  "let ms = [pair_message (2, [104, 105]), pair_message (3, [97]), Closing 0] in
   \<exists>t. phish_loop sort_callbacks (concat (map message_parts ms) @ []) sample_sort_minnow = Ret (0, []) t \<and>
    mset (pairs t) = mset (sent_pairs ms) \<and> sorted (rev (pairs t)) \<and>
    (mat [] (g_output_connections t) 0, zmq_log t) =
      dump_view (map as_entry (take (nat (ntop sample_sort_minnow)) (pairs t)))
        (mat [] (g_output_connections sample_sort_minnow) 0, zmq_log sample_sort_minnow)"
proof -
  have ok: "pair_ok 32 (2, [104, 105])" "pair_ok 32 (3, [97])"
    by (simp_all add: pair_ok_def count_word_def c_string_def)
  show ?thesis
    unfolding Let_def
    by (rule sort_minnow_sorts [where N = 32, OF sample_sort_inv])
      (use ok in \<open>auto simp: sample_sort_minnow_def sample_process_def phish_start_def phish.defs
        sent_pairs_message [OF ok(1)] sent_pairs_message [OF ok(2)] pair_message_def\<close>)
qed

text \<open>
  C38: When fewer pairs came than \<open>ntop\<close>, the callback reads past the end of its list.\<close>

theorem sort_too_few_faults:
  assumes "sort_inv N s" "int (length (pairs s)) < ntop s"
  shows "run_closed sort_callbacks True 0 s = Fault"
proof -
  let ?s = "s\<lparr>pairs := descending (pairs s)\<rparr>"
  let ?n = "length (pairs s)"
  obtain cs where cs: "packed [] ?s" "g_datum_size ?s = N" "mfind (g_output_connections ?s) 0 = Some cs"
      "\<forall>c \<in> set cs. connection_ok c" "\<forall>e \<in> set (pairs ?s). count_word N (snd e)"
    using sort_inv_descending [OF assms(1)] by (auto simp: sort_inv_def)
  obtain k where k: "nat (ntop s) = ?n + Suc k"
    using assms(2) by (metis add_Suc_right less_iff_Suc_add nat_int zless_nat_conj nat_less_iff
        of_nat_0_le_iff order_le_less_trans)
  obtain t where "emit_top ?n (pairs ?s) ?s = Ret () t"
    using emit_top_run [OF cs, of ?n] by auto
  then have "emit_top (nat (ntop s)) (pairs ?s) ?s = Fault"
    unfolding k using emit_top_split [of ?n "pairs ?s" "Suc k" ?s] by simp
  then show ?thesis
    using assms(1)
    by (simp add: run_closed_def sort_inv_def sort_callbacks_def sort_close_def Let_def)
qed

theorem sort_too_few_faults_witness: "run_closed sort_callbacks True 0 sample_sort_minnow = Fault"
  by (rule sort_too_few_faults [OF sample_sort_inv]) (simp add: sample_sort_minnow_def phish.defs)

end
