(* ===== verification/Minnow_Words.thy ===== *)
theory Minnow_Words
  imports Minnow_Count
begin

text \<open>
  The minnow \<^verbatim>\<open>file2words\<close> (\<^verbatim>\<open>apps/phish/minnow/file2words.cpp\<close>): for every file name
  it receives it sends the words of the file, each with itself as the key, so that a hashed
  connection takes equal words to the same counter. The files are the argument \<open>fs\<close>, from a
  name to the bytes of the file, and \<open>la\<close> is where the array \<open>line\<close> lies.
\<close>

section \<open>Lines and words\<close>

abbreviation "MAXLINE \<equiv> (1024 :: nat)"

text \<open>\<open>fgets\<close>: the line it stores (without the final null) and what is left of the file.\<close>

definition fgets :: "byte list \<Rightarrow> (byte list \<times> byte list) option" where
  "fgets bs =
     (if bs = [] then None
      else let chunk = take (MAXLINE - 1) bs;
               l = (if 10 \<in> set chunk then takeWhile (\<lambda>b. b \<noteq> 10) chunk @ [10] else chunk)
           in Some (l, drop (length l) bs))"

definition is_white :: "byte \<Rightarrow> bool" where
  "is_white b \<longleftrightarrow> b \<in> {32, 9, 10, 12, 13}"

text \<open>
  \<open>strtok\<close> at a position of the null-terminated line: where the next token starts, its length,
  the line with the byte behind the token cleared, and where the next call goes on.
\<close>

definition strtok :: "byte list \<Rightarrow> nat \<Rightarrow> (nat \<times> nat \<times> byte list \<times> nat) option" where
  "strtok line pos =
     (let start = pos + length (takeWhile is_white (drop pos line));
          n = length (takeWhile (\<lambda>b. b \<noteq> 0 \<and> \<not> is_white b) (drop start line));
          stop = start + n
      in if n = 0 then None
         else Some (start, n, line[stop := 0], if line ! stop = 0 then stop else stop + 1))"

lemma strtok_advances:
  assumes "strtok line pos = Some (start, n, line', next)"
  shows "pos < next" "pos < length line" "length line' = length line"
proof -
  define st where "st = pos + length (takeWhile is_white (drop pos line))"
  define k where "k = length (takeWhile (\<lambda>b. b \<noteq> 0 \<and> \<not> is_white b) (drop st line))"
  have k: "k \<noteq> 0" "line' = line[st + k := 0]" "next = (if line ! (st + k) = 0 then st + k else st + k + 1)"
    using assms unfolding strtok_def Let_def st_def [symmetric] k_def [symmetric]
    by (auto split: if_splits)
  have "k \<le> length line - st" unfolding k_def by (metis length_drop length_takeWhile_le)
  then show "pos < next" "pos < length line" "length line' = length line"
    using k unfolding st_def by (auto split: if_splits)
qed

lemma strtok_measure:
  "strtok line pos = Some (start, n, line', next) \<Longrightarrow> length line' - next < length line - pos"
  using strtok_advances [of line pos start n line' "next"] by linarith

definition array_at :: "nat \<Rightarrow> byte list \<Rightarrow> memory" where
  "array_at base bs = (\<lambda>a. if base \<le> a \<and> a < base + length bs then bs ! (a - base) else 0)"

text \<open>The inner loop.\<close>

function send_words ::
  "nat \<Rightarrow> byte list \<Rightarrow> nat \<Rightarrow> 'u phish_scheme \<Rightarrow> ('u phish_scheme, unit) res" where
  "send_words la line pos s =
     (case strtok line pos of
        None \<Rightarrow> Ret () s
      | Some (start, n, line', next) \<Rightarrow>
          bnd (phish_pack_string no_callbacks (drop start line') s) (\<lambda>_ s.
          bnd (phish_send_key 0 (array_at la line') (la + start) n s) (\<lambda>_ s.
          send_words la line' next s)))"
  by pat_completeness auto

termination
  by (relation "measure (\<lambda>(la, line, pos, s). length line - pos)")
    (auto intro: strtok_measure)

declare send_words.simps [simp del]

lemma fgets_shrinks: "fgets bs = Some (l, rest) \<Longrightarrow> length rest < length bs"
  by (auto simp: fgets_def Let_def split: if_splits)

function send_lines ::
  "nat \<Rightarrow> byte list \<Rightarrow> 'u phish_scheme \<Rightarrow> ('u phish_scheme, unit) res" where
  "send_lines la bs s =
     (case fgets bs of
        None \<Rightarrow> Ret () s
      | Some (l, rest) \<Rightarrow> bnd (send_words la (l @ [0]) 0 s) (\<lambda>_. send_lines la rest))"
  by pat_completeness auto

termination
  by (relation "measure (\<lambda>(la, bs, s). length bs)") (auto dest: fgets_shrinks)

declare send_lines.simps [simp del]

section \<open>The minnow\<close>

text \<open>\<open>fopen\<close> gives a null pointer for a name that is no file, and \<open>fgets\<close> does not test it.\<close>

definition read_file ::
  "(byte list \<Rightarrow> byte list option) \<Rightarrow> nat \<Rightarrow> int \<Rightarrow> 'u phish_scheme \<Rightarrow> ('u phish_scheme, unit) res" where
  "read_file fs la nvalues s =
     bnd (require (nvalues = 1) ''File2words processes one-value datums'' s) (\<lambda>_ s.
     bnd (phish_unpack no_callbacks s) (\<lambda>(type, data) s.
     bnd (require (type = uint PHISH_STRING) ''File2words processes string values'' s) (\<lambda>_ s.
     case data of
       None \<Rightarrow> Fault
     | Some (buf, _) \<Rightarrow>
         bnd (load_c_string (g_unpack_begin s) buf s) (\<lambda>filename s.
         case fs filename of None \<Rightarrow> Fault | Some bs \<Rightarrow> send_lines la bs s))))"

definition file2words_callbacks :: "(byte list \<Rightarrow> byte list option) \<Rightarrow> nat \<Rightarrow> phish callbacks" where
  "file2words_callbacks fs la =
     no_callbacks\<lparr>on_message := \<lambda>f nvalues. if f = 0 then read_file fs la nvalues else (\<lambda>_. Fault)\<rparr>"

definition file2words_main ::
  "(byte list \<Rightarrow> byte list option) \<Rightarrow> nat \<Rightarrow> string option \<Rightarrow> string list \<Rightarrow> part list \<Rightarrow> phish
     \<Rightarrow> (phish, int) res" where
  "file2words_main fs la request args inbox s =
     (let E = file2words_callbacks fs la in
      bnd (phish_init E request args s) (\<lambda>(_, args) s.
      bnd (phish_input E 0 (Some 0) None 1 s) (\<lambda>_ s.
      bnd (phish_output E 0 s) (\<lambda>_ s.
      bnd (phish_check E s) (\<lambda>_ s.
      bnd (require (length args = 1) ''File2words syntax: file2words'' s) (\<lambda>_ s.
      bnd (phish_loop E inbox s) (\<lambda>_ s.
      bnd (phish_exit E s) (\<lambda>_. Ret 0))))))))"

section \<open>Words as a list\<close>

lemma words_shrink:
  assumes "dropWhile is_white bs \<noteq> []"
  shows "length (dropWhile is_white bs) -
    length (takeWhile (\<lambda>b. \<not> is_white b) (dropWhile is_white bs)) < length bs"
proof -
  let ?t = "dropWhile is_white bs"
  have "\<not> is_white (hd ?t)" using assms by (rule hd_dropWhile)
  then have "takeWhile (\<lambda>b. \<not> is_white b) ?t \<noteq> []" using assms by (cases ?t) auto
  moreover have "length ?t \<le> length bs" by (rule length_dropWhile_le)
  ultimately show ?thesis using assms by (simp add: diff_less_mono2 less_le_trans [OF diff_less])
qed

function words_of :: "byte list \<Rightarrow> byte list list" where
  "words_of bs =
     (let t = dropWhile is_white bs; w = takeWhile (\<lambda>b. \<not> is_white b) t in
      if t = [] then [] else w # words_of (drop (length w) t))"
  by pat_completeness auto

termination
  by (relation "measure length") (simp, simp only: in_measure length_drop, erule words_shrink)

declare words_of.simps [simp del]


lemma words_of_white: "is_white b \<Longrightarrow> words_of (b # bs) = words_of bs"
  by (subst (1 2) words_of.simps) simp

lemma words_of_Nil [simp]: "words_of [] = []"
  by (subst words_of.simps) simp

text \<open>\<open>strtok\<close> finds the next word.\<close>

lemma strtok_none:
  assumes "drop pos line = bs @ [0]" "0 \<notin> set bs" "dropWhile is_white bs = []"
  shows "strtok line pos = None"
proof -
  have "takeWhile is_white (bs @ [0]) = bs"
    using assms(3) by (simp add: is_white_def takeWhile_eq_all_conv dropWhile_eq_Nil_conv)
  moreover have "drop (pos + length bs) line = [0]"
    using arg_cong [OF assms(1), of "drop (length bs)"] by (simp add: add.commute)
  ultimately show ?thesis using assms(1) by (simp add: strtok_def)
qed

lemma strtok_word:
  assumes bs: "drop pos line = bs @ [0]" "0 \<notin> set bs" and t: "dropWhile is_white bs \<noteq> []"
  defines "w \<equiv> takeWhile (\<lambda>b. \<not> is_white b) (dropWhile is_white bs)"
  shows "\<exists>start line' next rest more. strtok line pos = Some (start, length w, line', next) \<and>
    drop start line' = w @ 0 # rest \<and> drop next line' = more @ [0] \<and> 0 \<notin> set more \<and>
    words_of bs = w # words_of more"
proof -
  define sp where "sp = takeWhile is_white bs"
  define r where "r = drop (length w) (dropWhile is_white bs)"
  have split: "bs = sp @ w @ r"
    unfolding sp_def w_def r_def by (metis takeWhile_dropWhile_id append_take_drop_id takeWhile_eq_take length_takeWhile_le)
  have r: "r = dropWhile (\<lambda>b. \<not> is_white b) (dropWhile is_white bs)"
    unfolding r_def w_def by (simp add: dropWhile_eq_drop)
  have words: "words_of bs = w # words_of r"
    using t by (subst words_of.simps) (simp add: Let_def w_def r_def)
  have w_ne: "w \<noteq> []"
    using t hd_dropWhile [OF t] unfolding w_def by (cases "dropWhile is_white bs") auto
  have nz: "0 \<notin> set w" "0 \<notin> set r" using bs(2) unfolding split by auto
  have w_all: "\<forall>b \<in> set w. \<not> is_white b" unfolding w_def by (auto dest: set_takeWhileD)
  let ?start = "pos + length sp"
  have "takeWhile is_white (bs @ [0]) = sp"
    using t unfolding sp_def by (simp add: takeWhile_append1 dropWhile_eq_Nil_conv takeWhile_append)
      (auto simp: dropWhile_eq_Nil_conv)
  then have skip: "pos + length (takeWhile is_white (drop pos line)) = ?start"
    by (simp add: bs(1))
  have from_start: "drop ?start line = w @ r @ [0]"
    using arg_cong [OF bs(1), of "drop (length sp)"] by (simp add: split add.commute)
  have stop: "takeWhile (\<lambda>b. b \<noteq> 0 \<and> \<not> is_white b) (w @ r @ [0]) = w"
  proof -
    have "\<forall>b \<in> set w. b \<noteq> 0 \<and> \<not> is_white b" using w_all nz by auto
    moreover have "takeWhile (\<lambda>b. b \<noteq> 0 \<and> \<not> is_white b) (r @ [0]) = []"
      using hd_dropWhile [of "\<lambda>b. \<not> is_white b" "dropWhile is_white bs"] unfolding r [symmetric]
      by (cases r) auto
    ultimately show ?thesis by (simp add: takeWhile_append2)
  qed
  have from_stop: "drop (?start + length w) line = r @ [0]"
    using arg_cong [OF from_start, of "drop (length w)"] by (simp add: add.commute)
  have len: "?start + length w < length line"
    using from_stop by (metis append_is_Nil_conv drop_all leI not_Cons_self2)
  have at_stop: "line ! (?start + length w) = hd (r @ [0])"
    using from_stop hd_drop_conv_nth [OF len] by simp
  let ?line = "line[?start + length w := 0]"
  let ?next = "if line ! (?start + length w) = 0 then ?start + length w else ?start + length w + 1"
  have tok: "strtok line pos = Some (?start, length w, ?line, ?next)"
    unfolding strtok_def Let_def skip from_start stop using w_ne by simp
  have "drop ?start ?line = (w @ r @ [0])[length w := 0]"
    using from_start len by (simp add: drop_update_swap)
  then have word: "drop ?start ?line = w @ 0 # tl (r @ [0])"
    by (cases r) (simp_all add: list_update_append)
  show ?thesis
  proof (cases r)
    case Nil
    then have "drop ?next ?line = [] @ [0]"
      using at_stop from_stop len by (simp add: drop_update_swap)
    then show ?thesis using tok word words Nil by (metis empty_iff list.set(1) words_of_Nil)
  next
    case (Cons b r')
    then have b: "b \<noteq> 0" "is_white b"
      using nz hd_dropWhile [of "\<lambda>b. \<not> is_white b" "dropWhile is_white bs"] unfolding r [symmetric] by auto
    have "drop ?next ?line = drop (Suc (?start + length w)) line"
      using at_stop b by (simp add: Cons drop_update_cancel)
    also have "\<dots> = tl (drop (?start + length w) line)" by (simp only: drop_Suc tl_drop)
    finally have "drop ?next ?line = r' @ [0]" unfolding from_stop by (simp add: Cons)
    then show ?thesis
      using tok word words words_of_white [OF b(2), of r'] nz(2) unfolding Cons
      by (metis insert_iff list.set(2))
  qed
qed


section \<open>Its promise\<close>

text \<open>A word that fits a datum of \<open>N\<close> bytes on its own.\<close>

definition sendable :: "nat \<Rightarrow> byte list \<Rightarrow> bool" where
  "sendable N w \<longleftrightarrow> c_string (N - 10) w \<and> 10 \<le> N"

definition word_calls :: "output_connection list \<Rightarrow> byte list \<Rightarrow> zcall list" where
  "word_calls cs w = concat (map (emission (Keyed w) (body_bytes [string_item w])) cs)"

lemma advanced_keyed [simp]: "advanced (Keyed w) c = c"
  by (simp add: advanced_def split: pattern.splits)

lemma mem_bytes_array_at:
  assumes "drop start line = w @ rest"
  shows "mem_bytes (array_at la line) (la + start) (length w) = w"
proof (rule nth_equalityI)
  fix i assume "i < length (mem_bytes (array_at la line) (la + start) (length w))"
  then have i: "i < length w" by (simp add: mem_bytes_def)
  have "length w \<le> length line - start"
    using arg_cong [OF assms, of length] by simp
  moreover have "line ! (start + i) = (w @ rest) ! i"
    using i calculation by (simp flip: assms)
  ultimately show "mem_bytes (array_at la line) (la + start) (length w) ! i = w ! i"
    using i by (auto simp: mem_bytes_def array_at_def nth_append add.assoc)
qed (simp add: mem_bytes_def)

lemma send_word_run:
  assumes "packed [] s" "g_datum_size s = N" "sendable N w" "drop start line = w @ 0 # rest"
    "mfind (g_output_connections s) 0 = Some cs" "\<forall>c \<in> set cs. connection_ok c"
  shows "\<exists>t. bnd (phish_pack_string no_callbacks (drop start line) s) (\<lambda>_.
      phish_send_key 0 (array_at la line) (la + start) (length w)) = Ret () t \<and>
    packed [] t \<and> same_receiver s t \<and> mfind (g_output_connections t) 0 = Some cs \<and>
    zmq_log t = zmq_log s @ word_calls cs w"
proof -
  have w: "c_string (N - 10) w" "10 \<le> N" using assms(3) by (simp_all add: sendable_def)
  have end4: "g_pack_end s = 4" using assms(1) by (simp add: packed_def body_bytes_def)
  obtain d1 e1 where one: "pack_item no_callbacks (string_item w) s = Ret () (set_pack d1 e1 s)"
      "packed [string_item w] (set_pack d1 e1 s)"
    using packed_pack_item [OF assms(1) string_item_ok(1) [OF w(1)]] assms(2) end4 w
      string_item_ok(2) [OF w(1)] by (fastforce simp: c_string_def)
  have key: "key_at (Keyed w) (array_at la line) (la + start)"
    using mem_bytes_array_at [OF assms(4)] by (simp add: key_at_def)
  have out: "mfind (g_output_connections (set_pack d1 e1 s)) 0 = Some cs"
    by (simp add: set_pack_def assms(5))
  obtain d l where send: "send_port (sender (Keyed w) (array_at la line) (la + start)) 0 (set_pack d1 e1 s) =
        Ret () (sent (Keyed w) (body_bytes [string_item w]) 0 cs d l (set_pack d1 e1 s))"
      "packed [] (sent (Keyed w) (body_bytes [string_item w]) 0 cs d l (set_pack d1 e1 s))"
    using send_port_run [OF one(2) _ _ assms(6) key out] by auto
  have pack: "phish_pack_string no_callbacks (drop start line) s = pack_item no_callbacks (string_item w) s"
    unfolding assms(4) using pack_string_item [OF w(1), where rest = rest] by metis
  let ?t = "sent (Keyed w) (body_bytes [string_item w]) 0 cs d l (set_pack d1 e1 s)"
  have "same_receiver s ?t"
    unfolding same_receiver_def sent_def set_pack_def by (simp, intro exI, rule phish.equality) simp_all
  moreover have "mfind (g_output_connections ?t) 0 = Some cs" "zmq_log ?t = zmq_log s @ word_calls cs w"
    by (simp_all add: sent_def set_pack_def word_calls_def map_idI)
  moreover have "bnd (phish_pack_string no_callbacks (drop start line) s) (\<lambda>_.
      phish_send_key 0 (array_at la line) (la + start) (length w)) = Ret () ?t"
    using send(1) one(1) by (simp add: pack phish_send_key_def sender_def)
  ultimately show ?thesis using send(2) by blast
qed

lemma same_receiver_trans: "same_receiver s t \<Longrightarrow> same_receiver t u \<Longrightarrow> same_receiver s u"
  by (clarsimp simp: same_receiver_def, intro exI, rule refl)

definition sends_words ::
  "nat \<Rightarrow> output_connection list \<Rightarrow> byte list list \<Rightarrow> 'u phish_scheme \<Rightarrow> ('u phish_scheme, unit) res \<Rightarrow> bool"
where
  "sends_words N cs ws s r \<longleftrightarrow>
     (\<exists>t. r = Ret () t \<and> packed [] t \<and> g_datum_size t = N \<and> same_receiver s t \<and>
       mfind (g_output_connections t) 0 = Some cs \<and>
       zmq_log t = zmq_log s @ concat (map (word_calls cs) ws))"

lemma sends_words_Nil:
  "packed [] s \<Longrightarrow> g_datum_size s = N \<Longrightarrow> mfind (g_output_connections s) 0 = Some cs \<Longrightarrow>
   sends_words N cs [] s (Ret () s)"
  by (simp add: sends_words_def same_receiver_refl)

lemma sends_words_bnd:
  assumes "sends_words N cs ws s r"
    "\<And>t. packed [] t \<Longrightarrow> g_datum_size t = N \<Longrightarrow> mfind (g_output_connections t) 0 = Some cs \<Longrightarrow>
      sends_words N cs vs t (f t)"
  shows "sends_words N cs (ws @ vs) s (bnd r (\<lambda>_. f))"
proof -
  obtain t where t: "r = Ret () t" "packed [] t" "g_datum_size t = N" "same_receiver s t"
      "mfind (g_output_connections t) 0 = Some cs"
      "zmq_log t = zmq_log s @ concat (map (word_calls cs) ws)"
    using assms(1) by (auto simp: sends_words_def)
  then show ?thesis
    using assms(2) [OF t(2,3,5)] same_receiver_trans [OF t(4)] by (auto simp: sends_words_def)
qed

lemma send_words_run:
  fixes s :: "'u phish_scheme"
  assumes "packed [] s" "g_datum_size s = N" "mfind (g_output_connections s) 0 = Some cs"
    "\<forall>c \<in> set cs. connection_ok c" "drop pos line = bs @ [0]" "0 \<notin> set bs"
    "\<forall>w \<in> set (words_of bs). sendable N w"
  shows "sends_words N cs (words_of bs) s (send_words la line pos s)"
  using assms
proof (induction "length line - pos" arbitrary: line pos s bs rule: less_induct)
  case less
  show ?case
  proof (cases "dropWhile is_white bs = []")
    case True
    then have "words_of bs = []" by (subst words_of.simps) simp
    then show ?thesis
      using sends_words_Nil [OF less(2-4)] strtok_none [OF less(6,7) True]
      by (subst send_words.simps) simp
  next
    case False
    let ?w = "takeWhile (\<lambda>b. \<not> is_white b) (dropWhile is_white bs)"
    obtain start line' nx rest more where tok: "strtok line pos = Some (start, length ?w, line', nx)"
        "drop start line' = ?w @ 0 # rest" "drop nx line' = more @ [0]" "0 \<notin> set more"
        "words_of bs = ?w # words_of more"
      using strtok_word [OF less(6,7) False] by blast
    have ok: "sendable N ?w" "\<forall>w \<in> set (words_of more). sendable N w" using less(8) tok(5) by auto
    let ?r = "bnd (phish_pack_string no_callbacks (drop start line') s)
      (\<lambda>_. phish_send_key 0 (array_at la line') (la + start) (length ?w))"
    obtain t where t: "?r = Ret () t" "packed [] t" "same_receiver s t"
        "mfind (g_output_connections t) 0 = Some cs" "zmq_log t = zmq_log s @ word_calls cs ?w"
      using send_word_run [OF less(2,3) ok(1) tok(2) less(4,5)] by blast
    have "g_datum_size t = N" using t(3) less(3) by (auto simp: same_receiver_def)
    then have one: "sends_words N cs [?w] s ?r" using t by (simp add: sends_words_def)
    have run: "send_words la line pos s = bnd ?r (\<lambda>_. send_words la line' nx)"
      by (subst send_words.simps) (simp add: tok(1) run_simps)
    have "sends_words N cs (words_of more) u (send_words la line' nx u)"
      if "packed [] u" "g_datum_size u = N" "mfind (g_output_connections u) 0 = Some cs"
      for u :: "'u phish_scheme"
      using less(1) [OF strtok_measure [OF tok(1)] that less(5) tok(3,4) ok(2)] .
    from sends_words_bnd [OF one this] show ?thesis unfolding run tok(5) append_Cons append_Nil .
  qed
qed


text \<open>A file, as \<open>fgets\<close> cuts it and as \<open>strtok\<close> cuts the pieces.\<close>

function file_words :: "byte list \<Rightarrow> byte list list" where
  "file_words bs =
     (case fgets bs of None \<Rightarrow> [] | Some (l, rest) \<Rightarrow> words_of l @ file_words rest)"
  by pat_completeness auto

termination
  by (relation "measure length") (auto dest: fgets_shrinks)

declare file_words.simps [simp del]

lemma takeWhile_shorter: "x \<in> set c \<Longrightarrow> \<not> P x \<Longrightarrow> length (takeWhile P c) < length c"
  by (induction c) auto

lemma fgets_parts: "fgets bs = Some (l, rest) \<Longrightarrow> bs = l @ rest"
proof -
  assume *: "fgets bs = Some (l, rest)"
  let ?c = "take (MAXLINE - 1) bs"
  have "takeWhile (\<lambda>b. b \<noteq> 10) ?c @ [10] = take (Suc (length (takeWhile (\<lambda>b. b \<noteq> 10) ?c))) ?c"
    if "10 \<in> set ?c"
  proof -
    have "length (takeWhile (\<lambda>b. b \<noteq> 10) ?c) < length ?c"
      by (rule takeWhile_shorter [OF that]) simp
    moreover have "?c ! length (takeWhile (\<lambda>b. b \<noteq> 10) ?c) = 10"
      using nth_length_takeWhile [OF calculation] by simp
    ultimately show ?thesis by (metis take_Suc_conv_app_nth takeWhile_eq_take)
  qed
  then have "l = take (length l) bs"
    using * by (auto simp: fgets_def Let_def min_def split: if_splits)
  moreover have "rest = drop (length l) bs"
    using * by (auto simp: fgets_def Let_def split: if_splits)
  ultimately show ?thesis by (metis append_take_drop_id)
qed

lemma send_lines_run:
  fixes s :: "'u phish_scheme"
  assumes "packed [] s" "g_datum_size s = N" "mfind (g_output_connections s) 0 = Some cs"
    "\<forall>c \<in> set cs. connection_ok c" "0 \<notin> set bs" "\<forall>w \<in> set (file_words bs). sendable N w"
  shows "sends_words N cs (file_words bs) s (send_lines la bs s)"
  using assms
proof (induction "length bs" arbitrary: bs s rule: less_induct)
  case less
  show ?case
  proof (cases "fgets bs")
    case None
    then show ?thesis
      using sends_words_Nil [OF less(2-4)] by (subst send_lines.simps, subst file_words.simps) simp
  next
    case (Some lr)
    then obtain l rest where f: "fgets bs = Some (l, rest)" by (cases lr) auto
    have words: "file_words bs = words_of l @ file_words rest"
      by (subst file_words.simps) (simp add: f)
    have parts: "0 \<notin> set l" "0 \<notin> set rest" "\<forall>w \<in> set (words_of l). sendable N w"
        "\<forall>w \<in> set (file_words rest). sendable N w"
      using fgets_parts [OF f] less(6,7) words by auto
    have run: "send_lines la bs s = bnd (send_words la (l @ [0]) 0 s) (\<lambda>_. send_lines la rest)"
      by (subst send_lines.simps) (simp add: f)
    have one: "sends_words N cs (words_of l) s (send_words la (l @ [0]) 0 s)"
      by (rule send_words_run [OF less(2-5) _ parts(1,3)]) simp
    have "sends_words N cs (file_words rest) u (send_lines la rest u)"
      if "packed [] u" "g_datum_size u = N" "mfind (g_output_connections u) 0 = Some cs"
      for u :: "'u phish_scheme"
      using less(1) [OF fgets_shrinks [OF f] that less(5) parts(2,4)] .
    from sends_words_bnd [OF one this] show ?thesis unfolding run words .
  qed
qed

definition words_inv :: "nat \<Rightarrow> phish \<Rightarrow> bool" where
  "words_inv N s \<longleftrightarrow>
     packed [] s \<and> g_datum_size s = N \<and> 4 \<le> N \<and> g_at_abort s = None \<and>
     g_message_callback s = [(0, Some 0)] \<and> g_closed_callback s = [(0, None)] \<and>
     g_all_input_ports_closed s = None \<and>
     (\<exists>cs. mfind (g_output_connections s) 0 = Some cs \<and> (\<forall>c \<in> set cs. connection_ok c))"

type_synonym words_view = "output_connection list \<times> zcall list"

definition words_view :: "phish \<Rightarrow> words_view" where
  "words_view s = (mat [] (g_output_connections s) 0, zmq_log s)"

text \<open>A name that can be sent and names a readable text whose words can be sent.\<close>

definition readable :: "(byte list \<Rightarrow> byte list option) \<Rightarrow> nat \<Rightarrow> byte list \<Rightarrow> bool" where
  "readable fs N name \<longleftrightarrow> sendable N name \<and>
     (case fs name of
        None \<Rightarrow> False
      | Some bs \<Rightarrow> 0 \<notin> set bs \<and> (\<forall>w \<in> set (file_words bs). sendable N w))"

definition named_words :: "(byte list \<Rightarrow> byte list option) \<Rightarrow> byte list \<Rightarrow> byte list list" where
  "named_words fs name = (case fs name of None \<Rightarrow> [] | Some bs \<Rightarrow> file_words bs)"

definition words_accepts :: "(byte list \<Rightarrow> byte list option) \<Rightarrow> nat \<Rightarrow> int \<Rightarrow> byte list \<Rightarrow> bool" where
  "words_accepts fs N p body \<longleftrightarrow>
     p = 0 \<and> (\<exists>name. readable fs N name \<and> body = body_bytes [string_item name])"

definition words_data ::
  "(byte list \<Rightarrow> byte list option) \<Rightarrow> int \<Rightarrow> byte list \<Rightarrow> words_view \<Rightarrow> words_view" where
  "words_data fs p body = (\<lambda>(cs, log).
     (cs, log @ concat (map (word_calls cs) (named_words fs (butlast (body_string body))))))"

lemma words_inv_same: "words_inv N s \<Longrightarrow> same_minnow s t \<Longrightarrow> words_inv N t \<and> words_view t = words_view s"
  by (auto simp: words_inv_def words_view_def same_minnow_def packed_def pool_ok_def
      dest!: set_update_subset_insert [THEN subsetD])

lemma body_string_name: "body_string (body_bytes [string_item w]) = w @ [0]"
  by (simp add: body_string_def body_bytes_def string_item_def)

lemma words_data_step:
  assumes "words_inv N s" "words_accepts fs N p body" "holds body s"
  shows "\<exists>t. run_message (file2words_callbacks fs la) p s = Ret () t \<and> words_inv N t \<and> same_loop s t \<and>
    words_view t = words_data fs p body (words_view s)"
proof -
  obtain name where name: "p = 0" "readable fs N name" "body = body_bytes [string_item name]"
    using assms(2) by (auto simp: words_accepts_def)
  obtain bs where bs: "sendable N name" "fs name = Some bs" "0 \<notin> set bs"
      "\<forall>w \<in> set (file_words bs). sendable N w"
    using name(2) by (auto simp: readable_def split: option.splits)
  have w: "c_string (N - 10) name" using bs(1) by (simp add: sendable_def)
  obtain off e where e: "phish_unpack no_callbacks s =
      Ret (uint PHISH_STRING, Some (off, int (length name + 1))) (s\<lparr>g_unpack_current := e\<rparr>)"
      "load_at (g_unpack_begin s) off (length name + 1) (s\<lparr>g_unpack_current := e\<rparr>) =
        Ret (name @ [0]) (s\<lparr>g_unpack_current := e\<rparr>)"
    using phish_unpack_item [OF holds_unpacking(1) [OF assms(3) [unfolded name(3)]] string_item_ok(1) [OF w],
        of no_callbacks]
    unfolding string_item_view [OF w] by (auto simp del: of_nat_add)
  let ?s = "s\<lparr>g_unpack_current := e\<rparr>"
  have str: "load_c_string (g_unpack_begin s) off ?s = Ret name ?s"
    by (rule load_c_string_loaded [OF e(2)]) (use w in \<open>simp add: c_string_def\<close>)
  obtain cs where cs: "mfind (g_output_connections ?s) 0 = Some cs" "\<forall>c \<in> set cs. connection_ok c"
    using assms(1) by (auto simp: words_inv_def)
  have "packed [] ?s" "g_datum_size ?s = N"
    using assms(1) by (simp_all add: words_inv_def)
  from send_lines_run [OF this cs bs(3,4), of la]
  obtain t where t: "send_lines la bs ?s = Ret () t" "packed [] t" "same_receiver ?s t"
      "mfind (g_output_connections t) 0 = Some cs"
      "zmq_log t = zmq_log s @ concat (map (word_calls cs) (file_words bs))"
    by (auto simp: sends_words_def)
  have one: "sint (1 :: u32) = 1" by simp
  have "run_message (file2words_callbacks fs la) 0 s = read_file fs la 1 s"
    using assms(1) holds_unpacking(2) [OF assms(3) [unfolded name(3)]]
    by (simp add: run_message_def words_inv_def file2words_callbacks_def)
  also have "\<dots> = Ret () t" using e(1) str bs(2) t(1) by (simp add: read_file_def)
  finally have run: "run_message (file2words_callbacks fs la) p s = Ret () t" unfolding name(1) .
  have "words_inv N t \<and> same_loop s t"
    using assms(1) t(2-4) cs(2) by (auto simp: words_inv_def same_receiver_def same_loop_def)
  moreover have "words_view t = words_data fs p body (words_view s)"
    using t(4,5) cs(1) bs(2)
    by (simp add: words_view_def words_data_def mat_def name(3) body_string_name named_words_def)
  ultimately show ?thesis using run by blast
qed

interpretation reading: minnow "file2words_callbacks fs la" "words_inv N" words_view "words_accepts fs N"
  "words_data fs" "\<lambda>_ _. True" "\<lambda>_ v. v" "\<lambda>v. v" for fs la N
proof unfold_locales
  fix s t :: phish and p body
  assume inv: "words_inv N s"
  then show "pool_ok s \<and> 4 \<le> g_datum_size s" by (simp add: words_inv_def packed_def)
  show "same_minnow s t \<Longrightarrow> words_inv N t \<and> words_view t = words_view s"
    using words_inv_same [OF inv] .
  show "words_accepts fs N p body \<Longrightarrow> holds body s \<Longrightarrow>
      \<exists>t. run_message (file2words_callbacks fs la) p s = Ret () t \<and> words_inv N t \<and> same_loop s t \<and>
        words_view t = words_data fs p body (words_view s)"
    using words_data_step [OF inv] .
  show "\<exists>t. run_closed (file2words_callbacks fs la) True p s = Ret () t \<and> words_inv N t \<and>
      same_loop s t \<and> words_view t = words_view s"
    using inv by (simp add: run_closed_def words_inv_def same_loop_def)
  show "\<exists>t. run_all_closed (file2words_callbacks fs la) s = Ret () t \<and> words_inv N t \<and>
      same_loop s t \<and> words_view t = words_view s"
    using inv by (simp add: run_all_closed_def words_inv_def same_loop_def)
qed


section \<open>Properties\<close>

definition name_message :: "byte list \<Rightarrow> message" where
  "name_message name = Data 0 (Some (body_bytes [string_item name]))"

fun sent_names :: "message list \<Rightarrow> byte list list" where
  "sent_names [] = []"
| "sent_names (Data p b # ms) = butlast (body_string (body_of b)) # sent_names ms"
| "sent_names (Closing p # ms) = sent_names ms"

lemma absorb_names:
  "reading.absorb_data fs ms (cs, log) =
     (cs, log @ concat (map (word_calls cs) (concat (map (named_words fs) (sent_names ms)))))"
proof (induction ms arbitrary: log)
  case (Cons m ms)
  have "words_data fs p body (cs, log) =
      (cs, log @ concat (map (word_calls cs) (named_words fs (butlast (body_string body)))))" for p body
    by (simp add: words_data_def)
  then show ?case using Cons by (cases m) simp_all
qed simp

lemma name_proper:
  assumes "readable fs N name"
  shows "reading.proper fs N N (name_message name)"
proof -
  have w: "c_string (N - 10) name" "10 \<le> N" using assms by (simp_all add: readable_def sendable_def)
  have "length name + 10 \<le> N" using w by (auto simp: c_string_def)
  then show ?thesis
    using assms string_item_ok(2) [OF w(1)]
    by (auto simp: reading.proper_def name_message_def words_accepts_def body_of_def body_bytes_def)
qed

text \<open>
  C12: The minnow \<open>file2words\<close>, fed any interleaving of names of readable files and close messages
  that ends with the last close it waits for, leaves its loop with that message and has sent the
  words of all the files in order, each as a message of its own with the word as its key.\<close>

theorem file2words_sends_words:
  assumes "words_inv N s" "g_initialized s" "g_checked s" "\<not> g_running s"
    "g_connection_count s = [(0, int k)]" "closings 0 ms = k"
    "\<forall>m \<in> set ms. (\<exists>name. readable fs N name \<and> m = name_message name) \<or> m = Closing 0"
    "ms \<noteq> []" "last ms = Closing 0"
  shows "\<exists>t. phish_loop (file2words_callbacks fs la) (concat (map message_parts ms) @ rest) s =
      Ret (0, rest) t \<and>
    zmq_log t = zmq_log s @ concat (map (word_calls (mat [] (g_output_connections s) 0))
      (concat (map (named_words fs) (sent_names ms))))"
proof -
  have pos: "0 < k"
    using assms(6,8,9) last_in_set [OF assms(8)] by (auto simp: closings_def filter_empty_conv)
  have port: "\<forall>m \<in> set ms. message_port m = 0"
    using assms(7) by (auto simp: name_message_def)
  have N: "g_datum_size s = N" using assms(1) by (simp add: words_inv_def)
  have only: "closings p ms = 0" if "p \<noteq> 0" for p
    using assms(7) that by (auto simp: closings_def filter_empty_conv name_message_def)
  have a: "reading.absorb fs (g_connection_count s) ms (words_view s) = reading.absorb_data fs ms (words_view s)"
    "reading.closable fs (g_connection_count s) ms (words_view s)"
    using reading.absorb_one_port [OF port, of "g_connection_count s" fs "words_view s"] assms(5,6,9) pos
    by (simp_all add: mat_def)
  have "\<forall>m \<in> set ms. reading.proper fs N (g_datum_size s) m"
    using assms(7) name_proper unfolding N by (auto simp: reading.proper_def)
  moreover have "\<forall>p. mcount (g_connection_count s) p \<longrightarrow> 0 < mat 0 (g_connection_count s) p"
    using pos by (simp add: assms(5) mcount_def mat_def)
  moreover have "\<forall>p. int (closings p ms) = mat 0 (g_connection_count s) p"
    using only assms(6) by (simp add: assms(5) mat_def)
  ultimately obtain t where
      "phish_loop (file2words_callbacks fs la) (concat (map message_parts ms) @ rest) s = Ret (0, rest) t"
      "words_view t = reading.absorb_data fs ms (words_view s)"
    using reading.phish_loop_closes [OF assms(1-4), of ms fs 0 la rest] assms(8,9) a by metis
  then show ?thesis by (auto simp: words_view_def absorb_names)
qed

text \<open>Two files, and a process whose words go to one of two counters.\<close>

definition sample_files :: "byte list \<Rightarrow> byte list option" where
  "sample_files = [[97] \<mapsto> [104, 105, 32, 104, 111, 10], [98] \<mapsto> []]"

definition sample_words :: phish where
  "sample_words =
     sample_process 32 [(0, [\<lparr>m_input_port = 0, m_recipients = [''a'', ''b''], m_pattern = Hashed\<rparr>])]
       \<lparr>g_connection_count := [(0, 1)], g_message_callback := [(0, Some 0)],
         g_closed_callback := [(0, None)]\<rparr>"

lemma sample_file_words: "file_words [104, 105, 32, 104, 111, 10] = [[104, 105], [104, 111]]" "file_words [] = []"
  by (code_simp)+

theorem file2words_sends_words_witness:
  "let ms = [name_message [97], name_message [98], Closing 0] in
   \<exists>t. phish_loop (file2words_callbacks sample_files 64) (concat (map message_parts ms) @ []) sample_words =
      Ret (0, []) t \<and>
    zmq_log t = zmq_log sample_words @ concat (map (word_calls (mat [] (g_output_connections sample_words) 0))
      (concat (map (named_words sample_files) (sent_names ms))))"
proof -
  have "packed [] (sample_process 32 m)" for m by (simp add: sample_packed)
  then have inv: "words_inv 32 sample_words"
    by (simp add: words_inv_def sample_words_def sample_process_def packed_def pool_ok_def
        phish_start_def connection_ok_def)
  have "readable sample_files 32 [97]" "readable sample_files 32 [98]"
    by (simp_all add: readable_def sample_files_def sample_file_words sendable_def c_string_def)
  then show ?thesis
    unfolding Let_def
    by (intro file2words_sends_words [where N = 32 and k = 1, OF inv])
      (auto simp: sample_words_def sample_process_def phish_start_def name_message_def)
qed

text \<open>Lines that \<open>fgets\<close> reads in one piece.\<close>

fun short_lines :: "nat \<Rightarrow> byte list \<Rightarrow> bool" where
  "short_lines k [] = True"
| "short_lines k (b # bs) =
     (if b = 10 then short_lines 0 bs else Suc k < MAXLINE - 1 \<and> short_lines (Suc k) bs)"

lemma short_lines_take:
  "short_lines k bs \<Longrightarrow> j \<le> length bs \<Longrightarrow> 10 \<notin> set (take j bs) \<Longrightarrow> k < MAXLINE - 1 \<Longrightarrow> k + j < MAXLINE - 1"
proof (induction k bs arbitrary: j rule: short_lines.induct)
  case (2 k b bs)
  then show ?case by (cases j) (auto split: if_splits)
qed simp

lemma short_lines_rest: "short_lines k (l @ 10 # rest) \<Longrightarrow> short_lines 0 rest"
  by (induction k l rule: short_lines.induct) (auto split: if_splits)

lemma words_of_append:
  "l \<noteq> [] \<Longrightarrow> is_white (last l) \<Longrightarrow> words_of (l @ r) = words_of l @ words_of r"
proof (induction "length l" arbitrary: l rule: less_induct)
  case less
  let ?t = "dropWhile is_white l" and ?w = "takeWhile (\<lambda>b. \<not> is_white b) (dropWhile is_white l)"
  show ?case
  proof (cases "?t = []")
    case True
    then have "dropWhile is_white (l @ r) = dropWhile is_white r"
      by (simp add: dropWhile_append)
    moreover have "words_of l = []" using True by (subst words_of.simps) simp
    ultimately show ?thesis by (simp only: words_of.simps [of "l @ r"] words_of.simps [of r] append_Nil)
  next
    case False
    then have t: "dropWhile is_white (l @ r) = ?t @ r" by (auto simp: dropWhile_append)
    have last: "last ?t = last l"
      using False by (metis takeWhile_dropWhile_id last_appendR)
    have "last ?t \<in> set ?t" using False by simp
    then have w: "takeWhile (\<lambda>b. \<not> is_white b) (?t @ r) = ?w" "length ?w < length ?t"
      using less(3) takeWhile_shorter [of "last ?t" ?t "\<lambda>b. \<not> is_white b"] last
      by (auto simp: takeWhile_append1)
    have d: "drop (length ?w) ?t \<noteq> []" "last (drop (length ?w) ?t) = last l"
      using w(2) last by (simp_all add: last_drop)
    have "length (drop (length ?w) ?t) < length l"
      using words_shrink [OF False] by simp
    from less(1) [OF this d(1)] have "words_of (drop (length ?w) ?t @ r) = words_of (drop (length ?w) ?t) @ words_of r"
      using less(3) d(2) by simp
    moreover have "words_of l = ?w # words_of (drop (length ?w) ?t)"
      using False by (subst words_of.simps) (simp add: Let_def)
    moreover have "words_of (l @ r) = ?w # words_of (drop (length ?w) ?t @ r)"
      using False w t by (subst words_of.simps) (simp add: Let_def)
    ultimately show ?thesis by simp
  qed
qed

text \<open>Lines that are read in one piece keep their words; a longer line can be cut inside a word.\<close>

lemma file_words_short:
  assumes "short_lines 0 bs"
  shows "file_words bs = words_of bs"
  using assms
proof (induction "length bs" arbitrary: bs rule: less_induct)
  case less
  show ?case
  proof (cases "fgets bs")
    case None
    then show ?thesis by (subst file_words.simps) (simp add: fgets_def Let_def split: if_splits)
  next
    case (Some lr)
    then obtain l rest where f: "fgets bs = Some (l, rest)" by (cases lr) auto
    have words: "file_words bs = words_of l @ file_words rest"
      by (subst file_words.simps) (simp add: f)
    note bs = fgets_parts [OF f]
    show ?thesis
    proof (cases "10 \<in> set (take (MAXLINE - 1) bs)")
      case True
      then obtain m where l: "l = m @ [10]" using f by (auto simp: fgets_def Let_def split: if_splits)
      have "short_lines 0 rest" using less(2) short_lines_rest [of 0 m rest] bs l by simp
      from less(1) [OF fgets_shrinks [OF f] this] show ?thesis
        using words words_of_append [of l rest] bs l by (simp add: is_white_def)
    next
      case False
      then have "length bs < MAXLINE - 1"
        using short_lines_take [OF less(2), of "min (MAXLINE - 1) (length bs)"] by (cases "length bs < MAXLINE - 1") simp_all
      then have "rest = []" using False f by (auto simp: fgets_def Let_def split: if_splits)
      then show ?thesis using words bs file_words.simps [of "[]"] by (simp add: fgets_def)
    qed
  qed
qed

text \<open>
  C36: On a text without null bytes whose lines are shorter than the line buffer, the two loops of
  \<open>read_file\<close> (\<open>fgets\<close> and \<open>strtok\<close>, a packed string and a keyed send for each token) return and have
  sent exactly the words of the text as a whole, in order, each keyed by itself: that the text is
  read in lines and the lines are overwritten makes no difference.\<close>

theorem send_lines_sends_text:
  assumes "packed [] s" "g_datum_size s = N" "mfind (g_output_connections s) 0 = Some cs"
    "\<forall>c \<in> set cs. connection_ok c"
    and "0 \<notin> set bs" "short_lines 0 bs" "\<forall>w \<in> set (words_of bs). sendable N w"
  shows "\<exists>t. send_lines la bs s = Ret () t \<and> packed [] t \<and> same_receiver s t \<and>
    zmq_log t = zmq_log s @ concat (map (word_calls cs) (words_of bs))"
  using send_lines_run [OF assms(1-5), of la] assms(7) file_words_short [OF assms(6)] by (auto simp: sends_words_def)

lemma sample_text_words: "words_of [104, 105, 10, 32, 97] = [[104, 105], [97]]"
  by code_simp

theorem send_lines_sends_text_witness:
  "let cs = [\<lparr>m_input_port = 0, m_recipients = [''a'', ''b''], m_pattern = Hashed\<rparr>]; s = sample_process 32 [(0, cs)] in
   \<exists>t. send_lines 64 [104, 105, 10, 32, 97] s = Ret () t \<and> packed [] t \<and> same_receiver s t \<and>
    zmq_log t = zmq_log s @ concat (map (word_calls cs) (words_of [104, 105, 10, 32, 97]))"
proof -
  have "packed [] (sample_process 32 m)" for m by (simp add: sample_packed)
  then show ?thesis
    unfolding Let_def
    by (intro send_lines_sends_text [where N = 32])
      (simp_all add: sample_process_def connection_ok_def sample_text_words sendable_def c_string_def)
qed

end
