(* ===== verification/Minnow_Files.thy ===== *)
theory Minnow_Files
  imports Minnow_Words
begin

text \<open>
  The minnows at the ends of a word-count school: \<^verbatim>\<open>filegen\<close>
  (\<^verbatim>\<open>apps/phish/minnow/filegen.cpp\<close>), which sends the names of the files below its arguments,
  and \<^verbatim>\<open>print\<close> (\<^verbatim>\<open>apps/phish/minnow/print.cpp\<close>), which writes what it receives. The file
  system is a parameter; what \<open>fprintf\<close> makes of a value is left to the C library.
\<close>

section \<open>filegen\<close>

datatype file_kind = Regular | Directory | Special

text \<open>
  \<open>stat\<close>, what a failing \<open>stat\<close> leaves in its buffer (given the name and what was there: the
  standard does not say), the names \<open>readdir\<close> gives (none when \<open>opendir\<close> fails), and the bytes of
  a file.
\<close>

record file_system =
  stat_of :: "string \<Rightarrow> file_kind option"
  stat_leaves :: "string \<Rightarrow> file_kind \<Rightarrow> file_kind"
  entries_of :: "string \<Rightarrow> string list option"
  text_of :: "string \<Rightarrow> byte list option"

abbreviation "FILECHUNK \<equiv> (128 :: nat)"

record filegen = phish +
  files :: "string list"
  maxfile :: nat

text \<open>The characters of a C string as its bytes.\<close>

definition byte_of :: "char \<Rightarrow> byte" where
  "byte_of c = of_nat (of_char c)"

definition char_at :: "byte \<Rightarrow> char" where
  "char_at b = char_of (unat b)"

text \<open>An error message is formatted into 256 bytes.\<close>

definition file_error :: "string \<Rightarrow> string \<Rightarrow> string \<Rightarrow> 'u phish_scheme \<Rightarrow> ('u phish_scheme, unit) res" where
  "file_error before name after s =
     (let msg = before @ name @ after in
      if 256 \<le> length msg then Fault else phish_error no_callbacks msg s)"

definition append_file :: "string \<Rightarrow> filegen \<Rightarrow> filegen" where
  "append_file str s =
     s\<lparr>maxfile := (if length (files s) = maxfile s then maxfile s + FILECHUNK else maxfile s),
       files := files s @ [str]\<rparr>"

text \<open>A line of a file of names, without the white space at its ends; \<open>None\<close> for a blank one.\<close>

definition trim_line :: "byte list \<Rightarrow> byte list option" where
  "trim_line l =
     (let space = (\<lambda>b. b = 32 \<or> 9 \<le> b \<and> b \<le> 13);
          t = dropWhile space (takeWhile (\<lambda>b. b \<noteq> 0) l)
      in if t = [] then None else Some (rev (dropWhile space (rev t))))"

function add_lines :: "string \<Rightarrow> byte list \<Rightarrow> filegen \<Rightarrow> (filegen, unit) res" where
  "add_lines str bs s =
     (case fgets bs of
        None \<Rightarrow> Ret () s
      | Some (l, rest) \<Rightarrow>
          (case trim_line l of
             None \<Rightarrow> bnd (file_error ''Blank line in file '' str '' of filenames in filegen'' s) (\<lambda>_ _. Fault)
           | Some name \<Rightarrow> add_lines str rest (append_file (map char_at name) s)))"
  by pat_completeness auto

termination
  by (relation "measure (\<lambda>(str, bs, s). length bs)") (auto dest: fgets_shrinks)

definition addfile ::
  "file_system \<Rightarrow> string \<Rightarrow> bool \<Rightarrow> filegen \<Rightarrow> (filegen, unit) res" where
  "addfile V str readflag s =
     (if \<not> readflag then Ret () (append_file str s)
      else case text_of V str of
             None \<Rightarrow>
               bnd (file_error ''Could not open file '' str '' of filenames in filegen'' s) (\<lambda>_ _. Fault)
           | Some bs \<Rightarrow> add_lines str bs s)"

text \<open>
  \<open>findfiles\<close> and its loop over the entries of a directory, which goes on with what is in
  \<open>buf\<close> even when \<open>stat\<close> fails. \<open>newstr\<close> has \<open>MAXLINE\<close> bytes, which bounds the recursion.
\<close>

function findfiles ::
  "file_system \<Rightarrow> string \<Rightarrow> bool \<Rightarrow> bool \<Rightarrow> filegen \<Rightarrow> (filegen, unit) res"
and scan_entries ::
  "file_system \<Rightarrow> string \<Rightarrow> string list \<Rightarrow> file_kind \<Rightarrow> bool \<Rightarrow> bool \<Rightarrow> filegen \<Rightarrow> (filegen, unit) res"
where
  "findfiles V str recurse readflag s =
     (case stat_of V str of
        None \<Rightarrow> file_error ''Could not query status of file '' str '' in filegen'' s
      | Some Regular \<Rightarrow> addfile V str readflag s
      | Some Directory \<Rightarrow>
          (case entries_of V str of
             None \<Rightarrow>
               bnd (file_error ''Cannot open directory '' str '' to search for files in filegen'' s)
                 (\<lambda>_ _. Fault)
           | Some names \<Rightarrow> scan_entries V str names Directory recurse readflag s)
      | Some Special \<Rightarrow> file_error ''Invalid filename '' str '' in filegen'' s)"
| "scan_entries V str [] buf recurse readflag s = Ret () s"
| "scan_entries V str (d # ds) buf recurse readflag s =
     (if d \<noteq> [] \<and> hd d = CHR ''.'' then scan_entries V str ds buf recurse readflag s
      else
        let newstr = str @ ''/'' @ d in
        if MAXLINE \<le> length newstr then Fault
        else
          let buf = (case stat_of V newstr of None \<Rightarrow> stat_leaves V newstr buf | Some k \<Rightarrow> k) in
          bnd (if buf = Regular then addfile V newstr readflag s
               else if buf = Directory \<and> recurse then findfiles V newstr recurse readflag s
               else Ret () s)
            (\<lambda>_ s. scan_entries V str ds buf recurse readflag s))"
  by pat_completeness auto

termination
  by (relation "measures
      [\<lambda>x. case x of Inl (V, str, rc, rf, s) \<Rightarrow> MAXLINE - length str
           | Inr (V, str, ds, buf, rc, rf, s) \<Rightarrow> MAXLINE - length str,
       \<lambda>x. case x of Inl _ \<Rightarrow> 1 | Inr _ \<Rightarrow> 0,
       \<lambda>x. case x of Inl _ \<Rightarrow> 0 | Inr (V, str, ds, buf, rc, rf, s) \<Rightarrow> length ds]") auto

declare findfiles.simps [simp del] scan_entries.simps [simp del] add_lines.simps [simp del]

primrec find_arguments :: "file_system \<Rightarrow> string list \<Rightarrow> filegen \<Rightarrow> (filegen, unit) res" where
  "find_arguments V [] s = Ret () s"
| "find_arguments V (a # as) s = bnd (findfiles V a True False s) (\<lambda>_. find_arguments V as)"

primrec send_files :: "string list \<Rightarrow> 'u phish_scheme \<Rightarrow> ('u phish_scheme, unit) res" where
  "send_files [] s = Ret () s"
| "send_files (f # fs) s =
     bnd (phish_pack_string no_callbacks (map byte_of f @ [0]) s) (\<lambda>_ s.
     bnd (phish_send 0 s) (\<lambda>_. send_files fs))"

definition filegen_main ::
  "file_system \<Rightarrow> string option \<Rightarrow> string list \<Rightarrow> filegen \<Rightarrow> (filegen, int) res" where
  "filegen_main V request args s =
     (let E = no_callbacks in
      bnd (phish_init E request args s) (\<lambda>(_, args) s.
      bnd (phish_output E 0 s) (\<lambda>_ s.
      bnd (phish_check E s) (\<lambda>_ s.
      bnd (require (2 \<le> length args) ''Filegen syntax: filegen file1 file2 ...'' s) (\<lambda>_ s.
      bnd (find_arguments V (tl args) s) (\<lambda>_ s.
      bnd (send_files (files s) s) (\<lambda>_ s.
      bnd (phish_exit E (s\<lparr>files := []\<rparr>)) (\<lambda>_. Ret 0))))))))"

section \<open>print\<close>

text \<open>What is handed to \<open>fprintf\<close>.\<close>

datatype printed = Text "byte list" | Char byte | Signed u32 | Unsigned u64 | Single u32 | Double u64
  | Newline

record print_minnow = phish +
  printed_out :: "printed list"
  fp :: "string option"
  fp_open :: bool

definition emit :: "printed \<Rightarrow> print_minnow \<Rightarrow> print_minnow" where
  "emit p s = s\<lparr>printed_out := printed_out s @ [p]\<rparr>"

definition print_word ::
  "nat \<Rightarrow> (byte list \<Rightarrow> printed) \<Rightarrow> int \<Rightarrow> print_minnow \<Rightarrow> (print_minnow, unit) res" where
  "print_word sz f off s = bnd (load_at (g_unpack_begin s) off sz s) (\<lambda>bs s. Ret () (emit (f bs) s))"

definition print_string :: "int \<Rightarrow> print_minnow \<Rightarrow> (print_minnow, unit) res" where
  "print_string off s = bnd (load_c_string (g_unpack_begin s) off s) (\<lambda>w s. Ret () (emit (Text w) s))"

primrec print_array ::
  "nat \<Rightarrow> (byte list \<Rightarrow> printed) \<Rightarrow> nat \<Rightarrow> int \<Rightarrow> print_minnow \<Rightarrow> (print_minnow, unit) res" where
  "print_array sz f 0 = (\<lambda>off s. Ret () s)"
| "print_array sz f (Suc n) = (\<lambda>off s. bnd (print_word sz f off s) (\<lambda>_. print_array sz f n (off + int sz)))"

text \<open>The switch; a raw value gets a null written behind it.\<close>

definition print_value :: "int \<Rightarrow> int \<Rightarrow> int \<Rightarrow> print_minnow \<Rightarrow> (print_minnow, unit) res" where
  "print_value type val len s =
     (if type = uint PHISH_RAW then
        if val + len < 0 then Fault
        else bnd (store_at (g_unpack_begin s) (nat (val + len)) [0] s) (\<lambda>_. print_string val)
      else if type = uint PHISH_INT8 then print_word 1 (\<lambda>bs. Char (hd bs)) val s
      else if type = uint PHISH_INT32 then print_word 4 (\<lambda>bs. Signed (le_word bs)) val s
      else if type = uint PHISH_UINT64 then print_word 8 (\<lambda>bs. Unsigned (le_word bs)) val s
      else if type = uint PHISH_FLOAT then print_word 4 (\<lambda>bs. Single (le_word bs)) val s
      else if type = uint PHISH_DOUBLE then print_word 8 (\<lambda>bs. Double (le_word bs)) val s
      else if type = uint PHISH_STRING then print_string val s
      else if type = uint PHISH_INT32_ARRAY then
        print_array 4 (\<lambda>bs. Signed (le_word bs)) (nat len) val s
      else if type = uint PHISH_UINT64_ARRAY then
        print_array 8 (\<lambda>bs. Unsigned (le_word bs)) (nat len) val s
      else if type = uint PHISH_DOUBLE_ARRAY then
        print_array 8 (\<lambda>bs. Double (le_word bs)) (nat len) val s
      else Ret () s)"

primrec print_values :: "nat \<Rightarrow> print_minnow \<Rightarrow> (print_minnow, unit) res" where
  "print_values 0 s = Ret () s"
| "print_values (Suc n) s =
     bnd (phish_unpack no_callbacks s) (\<lambda>(type, data) s.
     bnd (case data of None \<Rightarrow> Ret () s | Some (val, len) \<Rightarrow> print_value type val len s) (\<lambda>_.
     print_values n))"

definition print :: "int \<Rightarrow> print_minnow \<Rightarrow> (print_minnow, unit) res" where
  "print nvalues s = bnd (print_values (nat nvalues) s) (\<lambda>_ s. Ret () (emit Newline s))"

definition close_file :: "print_minnow \<Rightarrow> (print_minnow, unit) res" where
  "close_file s = Ret () (if fp s \<noteq> None then s\<lparr>fp_open := False\<rparr> else s)"

definition print_callbacks :: "print_minnow callbacks" where
  "print_callbacks =
     \<lparr>on_message = \<lambda>f nvalues. if f = 0 then print nvalues else (\<lambda>_. Fault),
      on_closed = \<lambda>f. if f = 0 then close_file else (\<lambda>_. Fault),
      on_abort = \<lambda>_ _. Fault\<rparr>"

text \<open>
  The options: after \<open>-f\<close> the next argument is opened; the test for it is off by one, so that
  \<open>args[narg]\<close>, behind the arguments, goes to \<open>fopen\<close>. A file that cannot be opened leaves
  standard output. Without an abort callback, and this minnow registers none, \<open>phish_error\<close>
  does not return.
\<close>

fun output_options :: "(string \<Rightarrow> bool) \<Rightarrow> string list \<Rightarrow> print_minnow \<Rightarrow> (print_minnow, unit) res" where
  "output_options can [] s = Ret () s"
| "output_options can [a] s =
     (if a = ''-f'' then Fault
      else bnd (phish_error no_callbacks ''Print syntax: print -f filename'' s) (\<lambda>_ _. Fault))"
| "output_options can (a # f # as) s =
     (if a = ''-f'' then output_options can as (s\<lparr>fp := (if can f then Some f else None), fp_open := can f\<rparr>)
      else bnd (phish_error no_callbacks ''Print syntax: print -f filename'' s) (\<lambda>_ _. Fault))"

definition print_main ::
  "(string \<Rightarrow> bool) \<Rightarrow> string option \<Rightarrow> string list \<Rightarrow> part list \<Rightarrow> print_minnow \<Rightarrow> (print_minnow, int) res" where
  "print_main can request args inbox s =
     (let E = print_callbacks in
      bnd (phish_init E request args s) (\<lambda>(_, args) s.
      bnd (phish_input E 0 (Some 0) (Some 0) 1 s) (\<lambda>_ s.
      bnd (phish_check E s) (\<lambda>_ s.
      bnd (output_options can (tl args) s) (\<lambda>_ s.
      bnd (phish_loop E inbox s) (\<lambda>_ s.
      bnd (phish_exit E s) (\<lambda>_. Ret 0)))))))"


section \<open>What is printed\<close>

lemma load_at_part:
  assumes "load_at d off n s = Ret bs s" "i + k \<le> n"
  shows "load_at d (off + int i) k s = Ret (seg i k bs) s"
proof -
  have "in_datum d off n s" "bs = seg (nat off) n (g_datum_pool s ! d)"
    using assms(1) by (auto simp: load_at_def split: if_splits)
  then show ?thesis
    using assms(2) by (simp add: load_at_def in_datum_def seg_slice nat_add_distrib)
qed

lemma emit_frame [simp]:
  "unpacking its (emit p s) = unpacking its s" "g_unpack_begin (emit p s) = g_unpack_begin s"
  "load_at d off n (emit p s) = bnd (load_at d off n s) (\<lambda>bs _. Ret bs (emit p s))"
  "printed_out (emit p s) = printed_out s @ [p]"
  by (simp_all add: emit_def unpacking_def pool_ok_def load_at_def in_datum_def)

definition emits :: "printed list \<Rightarrow> print_minnow \<Rightarrow> print_minnow" where
  "emits ps s = s\<lparr>printed_out := printed_out s @ ps\<rparr>"

lemma emits_simps [simp]:
  "emits [] s = s" "emits ps (emit p s) = emits (p # ps) s" "emits qs (emits ps s) = emits (ps @ qs) s"
  by (simp_all add: emits_def emit_def)

lemma emit_emits: "emit p s = emits [p] s"
  by (simp add: emits_def emit_def)

lemma emits_frame [simp]:
  "unpacking its (emits ps s) = unpacking its s" "g_unpack_begin (emits ps s) = g_unpack_begin s"
  "printed_out (emits ps s) = printed_out s @ ps"
  by (simp_all add: emits_def unpacking_def pool_ok_def)

lemma print_word_run:
  "load_at (g_unpack_begin s) off sz s = Ret bs s \<Longrightarrow> print_word sz f off s = Ret () (emits [f bs] s)"
  by (simp add: print_word_def emit_emits)

lemma print_array_run:
  assumes "load_at (g_unpack_begin s) off (n * sz) s = Ret bs s"
  shows "print_array sz f n off s = Ret () (emits (map (\<lambda>j. f (seg (j * sz) sz bs)) [0..<n]) s)"
  using assms
proof (induction n arbitrary: off s bs)
  case (Suc n)
  let ?s = "emits [f (seg 0 sz bs)] s"
  have first: "print_word sz f off s = Ret () ?s"
    using print_word_run load_at_part [OF Suc.prems, of 0 sz] by simp
  have rest: "load_at (g_unpack_begin ?s) (off + int sz) (n * sz) ?s = Ret (seg sz (n * sz) bs) ?s"
    using load_at_part [OF Suc.prems, of sz "n * sz"]
    by (simp add: emits_def load_at_def in_datum_def split: if_splits)
  have "map (\<lambda>j. f (seg (j * sz) sz (seg sz (n * sz) bs))) [0..<n] =
      map (\<lambda>j. f (seg (Suc j * sz) sz bs)) [0..<n]"
  proof (rule map_cong [OF refl])
    fix j assume "j \<in> set [0..<n]"
    then have "j * sz + sz \<le> n * sz" by (metis Suc_leI atLeastLessThan_iff mult_Suc mult_le_mono1 set_upt add.commute)
    then show "f (seg (j * sz) sz (seg sz (n * sz) bs)) = f (seg (Suc j * sz) sz bs)"
      by (simp add: seg_slice)
  qed
  moreover have "[0..<Suc n] = 0 # map Suc [0..<n]" by (simp add: upt_conv_Cons map_Suc_upt del: upt_Suc)
  ultimately show ?case
    using Suc.IH [OF rest] first by (simp only: print_array.simps bnd.simps emits_simps list.map comp_def map_map append_Cons append_Nil mult_0)
qed simp

text \<open>What the minnow prints for an item; a raw value is another matter.\<close>

fun item_prints :: "item \<Rightarrow> printed list" where
  "item_prints (Scalar ty bs) =
     (if ty = PHISH_INT8 then [Char (hd bs)]
      else if ty = PHISH_INT32 then [Signed (le_word bs)]
      else if ty = PHISH_UINT64 then [Unsigned (le_word bs)]
      else if ty = PHISH_FLOAT then [Single (le_word bs)]
      else if ty = PHISH_DOUBLE then [Double (le_word bs)] else [])"
| "item_prints (Array ty n bs) =
     (if ty = PHISH_STRING then [Text (takeWhile (\<lambda>b. b \<noteq> 0) bs)]
      else if ty = PHISH_INT32_ARRAY then map (\<lambda>j. Signed (le_word (seg (j * 4) 4 bs))) [0..<unat n]
      else if ty = PHISH_UINT64_ARRAY then map (\<lambda>j. Unsigned (le_word (seg (j * 8) 8 bs))) [0..<unat n]
      else if ty = PHISH_DOUBLE_ARRAY then map (\<lambda>j. Double (le_word (seg (j * 8) 8 bs))) [0..<unat n]
      else [])"

definition printable :: "item \<Rightarrow> bool" where
  "printable it \<longleftrightarrow> item_ok it \<and> item_type it \<noteq> PHISH_RAW \<and>
     (item_type it = PHISH_STRING \<longrightarrow> 0 \<in> set (item_data it))"

lemma load_c_string_prefix:
  assumes "load_at d off n s = Ret bs s" "0 \<in> set bs"
  shows "load_c_string d off s = Ret (takeWhile (\<lambda>b. b \<noteq> 0) bs) s"
proof -
  let ?bs = "drop (nat off) (g_datum_pool s ! d)"
  have d: "in_datum d off n s" and bs: "bs = take n ?bs"
    using assms(1) by (auto simp: load_at_def seg_def split: if_splits)
  have "n \<noteq> 0" using bs assms(2) by (cases n) auto
  moreover have "takeWhile (\<lambda>b. b \<noteq> 0) (bs @ drop n ?bs) = takeWhile (\<lambda>b. b \<noteq> 0) bs"
    using assms(2) by (simp add: takeWhile_append1)
  then have "takeWhile (\<lambda>b. b \<noteq> 0) ?bs = takeWhile (\<lambda>b. b \<noteq> 0) bs" 
    by (metis append_take_drop_id bs)
  moreover have "0 \<in> set ?bs" using assms(2) bs by (metis in_set_takeD)
  ultimately show ?thesis using d by (simp add: load_c_string_def in_datum_def)
qed

lemma print_value_type:
  "print_value (uint ty) val len s =
     (if ty = PHISH_RAW then
        if val + len < 0 then Fault
        else bnd (store_at (g_unpack_begin s) (nat (val + len)) [0] s) (\<lambda>_. print_string val)
      else if ty = PHISH_INT8 then print_word 1 (\<lambda>bs. Char (hd bs)) val s
      else if ty = PHISH_INT32 then print_word 4 (\<lambda>bs. Signed (le_word bs)) val s
      else if ty = PHISH_UINT64 then print_word 8 (\<lambda>bs. Unsigned (le_word bs)) val s
      else if ty = PHISH_FLOAT then print_word 4 (\<lambda>bs. Single (le_word bs)) val s
      else if ty = PHISH_DOUBLE then print_word 8 (\<lambda>bs. Double (le_word bs)) val s
      else if ty = PHISH_STRING then print_string val s
      else if ty = PHISH_INT32_ARRAY then
        print_array 4 (\<lambda>bs. Signed (le_word bs)) (nat len) val s
      else if ty = PHISH_UINT64_ARRAY then
        print_array 8 (\<lambda>bs. Unsigned (le_word bs)) (nat len) val s
      else if ty = PHISH_DOUBLE_ARRAY then
        print_array 8 (\<lambda>bs. Double (le_word bs)) (nat len) val s
      else Ret () s)"
  unfolding print_value_def word_uint_eq_iff [symmetric] by (rule refl)

lemma scalar_sizes:
  assumes "unpack_switch ty = Some (False, n)"
  shows "ty = PHISH_INT8 \<Longrightarrow> n = 1" "ty = PHISH_INT32 \<Longrightarrow> n = 4" "ty = PHISH_UINT64 \<Longrightarrow> n = 8"
    "ty = PHISH_FLOAT \<Longrightarrow> n = 4" "ty = PHISH_DOUBLE \<Longrightarrow> n = 8" "ty \<noteq> PHISH_RAW" "ty \<noteq> PHISH_STRING"
    "ty \<noteq> PHISH_INT32_ARRAY" "ty \<noteq> PHISH_UINT64_ARRAY" "ty \<noteq> PHISH_DOUBLE_ARRAY"
  using assms by (auto simp: unpack_switch_def)

lemma array_sizes:
  assumes "unpack_switch ty = Some (True, n)"
  shows "ty = PHISH_STRING \<Longrightarrow> n = 1" "ty = PHISH_INT32_ARRAY \<Longrightarrow> n = 4" "ty = PHISH_UINT64_ARRAY \<Longrightarrow> n = 8"
    "ty = PHISH_DOUBLE_ARRAY \<Longrightarrow> n = 8" "ty \<noteq> PHISH_INT8" "ty \<noteq> PHISH_INT32" "ty \<noteq> PHISH_UINT64"
    "ty \<noteq> PHISH_FLOAT" "ty \<noteq> PHISH_DOUBLE"
  using assms by (auto simp: unpack_switch_def)

lemma print_value_run:
  assumes "printable it" "load_at (g_unpack_begin s) off (length (item_data it)) s = Ret (item_data it) s"
  shows "print_value (uint (item_type it)) off (item_count it) s = Ret () (emits (item_prints it) s)"
proof (cases it)
  case (Scalar ty bs)
  have "unpack_switch ty = Some (False, length bs)"
    using assms(1) by (simp add: printable_def Scalar)
  note sizes = scalar_sizes [OF this]
  have word: "length bs = n \<Longrightarrow> print_word n f off s = Ret () (emits [f bs] s)" for n f
    using print_word_run assms(2) by (auto simp: Scalar)
  show ?thesis
    using sizes word [of 1] word [of 4] word [of 8]
    by (simp only: Scalar item_type.simps item_prints.simps print_value_type if_False refl
        split: if_split) simp
next
  case (Array ty n bs)
  obtain sz where sz: "unpack_switch ty = Some (True, sz)" "length bs = unat n * sz"
    using assms(1) by (auto simp: printable_def Array split: option.splits bool.splits)
  note sizes = array_sizes [OF sz(1)]
  have load: "load_at (g_unpack_begin s) off (length bs) s = Ret bs s"
    using assms(2) by (simp add: Array)
  have arr: "sz = m \<Longrightarrow> print_array m f (unat n) off s =
      Ret () (emits (map (\<lambda>j. f (seg (j * m) m bs)) [0..<unat n]) s)" for m f
    using print_array_run [of s off "unat n" m bs f] load sz(2) by simp
  have raw: "ty \<noteq> PHISH_RAW" "ty = PHISH_STRING \<longrightarrow> 0 \<in> set bs"
    using assms(1) by (simp_all add: printable_def Array)
  have str: "ty = PHISH_STRING \<Longrightarrow> print_string off s = Ret () (emits [Text (takeWhile (\<lambda>b. b \<noteq> 0) bs)] s)"
    using load_c_string_prefix [OF load] raw by (simp add: print_string_def emit_emits)
  have n: "nat (item_count it) = unat n" by (simp add: Array)
  show ?thesis
    unfolding print_value_type n using sizes raw str arr [of 4] arr [of 8]
    by (simp add: Array)
qed


lemma print_values_run:
  assumes "unpacking its s" "\<forall>it \<in> set its. printable it"
  shows "\<exists>e. print_values (length its) s =
    Ret () (emits (concat (map item_prints its)) (s\<lparr>g_unpack_current := e\<rparr>))"
  using assms
proof (induction its arbitrary: s)
  case Nil
  then show ?case by (intro exI [of _ "g_unpack_current s"]) simp
next
  case (Cons it its)
  have ok: "printable it" "item_ok it" using Cons.prems(2) by (simp_all add: printable_def)
  obtain off e where u: "phish_unpack no_callbacks s =
      Ret (uint (item_type it), Some (off, item_count it)) (s\<lparr>g_unpack_current := e\<rparr>)"
      "load_at (g_unpack_begin s) off (length (item_data it)) (s\<lparr>g_unpack_current := e\<rparr>) =
        Ret (item_data it) (s\<lparr>g_unpack_current := e\<rparr>)"
      "unpacking its (s\<lparr>g_unpack_current := e\<rparr>)"
    using phish_unpack_item [OF Cons.prems(1) ok(2)] by blast
  let ?s = "emits (item_prints it) (s\<lparr>g_unpack_current := e\<rparr>)"
  have "print_value (uint (item_type it)) off (item_count it) (s\<lparr>g_unpack_current := e\<rparr>) = Ret () ?s"
    using print_value_run [OF ok(1), of "s\<lparr>g_unpack_current := e\<rparr>"] u(2) by simp
  moreover have "unpacking its ?s" using u(3) by simp
  from Cons.IH [OF this] Cons.prems(2) obtain e' where "print_values (length its) ?s =
      Ret () (emits (concat (map item_prints its)) (?s\<lparr>g_unpack_current := e'\<rparr>))" by auto
  moreover have "?s\<lparr>g_unpack_current := e'\<rparr> = emits (item_prints it) (s\<lparr>g_unpack_current := e'\<rparr>)"
    by (simp add: emits_def)
  ultimately show ?case using u(1) by (intro exI [of _ e']) simp
qed

text \<open>
  C35: A message without raw values is printed item by item, in order, and ended with a new line.\<close>

theorem print_prints_items:
  assumes "holds (body_bytes its) s" "\<forall>it \<in> set its. printable it" "length its < 2 ^ 31"
  shows "\<exists>t. print (int (length its)) s = Ret () t \<and>
    printed_out t = printed_out s @ concat (map item_prints its) @ [Newline]"
proof -
  obtain e where "print_values (length its) s =
      Ret () (emits (concat (map item_prints its)) (s\<lparr>g_unpack_current := e\<rparr>))"
    using print_values_run [OF holds_unpacking(1) [OF assms(1)] assms(2)] by blast
  then show ?thesis by (simp add: print_def emit_def)
qed

text \<open>A process that has received the given body.\<close>

definition received_process :: "byte list \<Rightarrow> print_minnow" where
  "received_process body = phish.extend
     (sample_process 32 []\<lparr>g_datum_pool := [replicate 32 0, splice_at (replicate 32 0) 0 body],
        g_unpack_current := 4, g_unpack_end := length body\<rparr>)
     \<lparr>printed_out = [], fp = None, fp_open = False\<rparr>"

lemma received_holds: "length body \<le> 32 \<Longrightarrow> holds body (received_process body)"
  by (auto simp: holds_def received_process_def sample_process_def phish_start_def pool_ok_def phish.defs
      splice_at_def)

theorem print_prints_items_witness:
  "let its = [int32_item 7, string_item [104, 105]] in
   \<exists>t. print (int (length its)) (received_process (body_bytes its)) = Ret () t \<and>
    printed_out t = printed_out (received_process (body_bytes its)) @ concat (map item_prints its) @ [Newline]"
  unfolding Let_def
  by (rule print_prints_items)
    (auto simp: received_holds body_bytes_def int32_item_def string_item_def printable_def unpack_switch_def)

text \<open>
  C40: The null that is written behind a raw value falls on the type of the value that follows: that
  value is taken for a character and not printed.\<close>

theorem print_raw_clobbers:
  assumes "holds (body_bytes [Array PHISH_RAW n bs, int32_item v]) s" "0 \<notin> set bs"
    "length bs = unat n" "unat n < 2 ^ 31"
  shows "\<exists>t. print 2 s = Ret () t \<and> printed_out t = printed_out s @ [Text bs, Newline]"
proof -
  let ?its = "[Array PHISH_RAW n bs, int32_item v]"
  let ?D = "unpack_datum s" and ?p = "9 + length bs"
  have h: "pool_ok s" "length (body_bytes ?its) \<le> g_datum_size s" "g_unpack_current s = 4"
      "g_unpack_end s = length (body_bytes ?its)" "take (length (body_bytes ?its)) ?D = body_bytes ?its"
    using assms(1) by (simp_all add: holds_def)
  have len: "length (body_bytes ?its) = 14 + length bs" by (simp add: body_bytes_def int32_item_def)
  note size = pool_ok_sizes(2) [OF h(1)]
  have ub: "g_unpack_begin s < length (g_datum_pool s)" using h(1) by (simp add: pool_ok_def)
  have D: "seg 9 (length bs) ?D = bs"
  proof -
    have "seg 9 (length bs) ?D = seg 9 (length bs) (take (length (body_bytes ?its)) ?D)"
      by (simp add: seg_def len take_drop min_def)
    also have "\<dots> = bs" unfolding h(5) by (simp add: seg_def body_bytes_def)
    finally show ?thesis .
  qed
  have raw: "item_ok (Array PHISH_RAW n bs)" using assms(3,4) by (simp add: unpack_switch_def)
  let ?s = "s\<lparr>g_unpack_current := int ?p\<rparr>"
  have u1: "phish_unpack no_callbacks s = Ret (uint PHISH_RAW, Some (9, uint n)) ?s"
    using phish_unpack_Array [OF holds_unpacking(1) [OF assms(1)] raw] h(3) by (simp add: add_ac)
  let ?E = "splice_at ?D ?p [0]"
  let ?t = "s\<lparr>g_unpack_current := int ?p, g_datum_pool := (g_datum_pool s)[g_unpack_begin s := ?E]\<rparr>"
  have n: "uint n = int (length bs)" unfolding assms(3) by (rule uint_nat)
  have in_E: "?p + 5 \<le> g_datum_size s" using h(2) len by simp
  have st: "store_at (g_unpack_begin s) (nat (9 + uint n)) [0] ?s = Ret () ?t"
    using h(1) ub size in_E by (simp add: store_at_def in_datum_def pool_ok_def n nat_add_distrib)
  have fits: "?p + length [0 :: byte] \<le> length ?D" using in_E size by simp
  have "drop 9 (take ?p ?D) = bs" using D by (simp add: seg_def drop_take)
  moreover have "length (take ?p ?D) = ?p" using fits by simp
  ultimately have "drop 9 ?E = bs @ 0 # drop (?p + 1) ?D"
    unfolding splice_at_def by (simp only: drop_append list.size) simp
  moreover have "seg ?p 1 ?E = [0]" by (rule seg_splice_same [OF fits]) simp
  moreover have "length ?E = g_datum_size s" using length_splice_at [OF fits] size by simp
  ultimately have E: "drop 9 ?E = bs @ 0 # drop (?p + 1) ?D" "seg ?p 1 ?E = [0]"
      "length ?E = g_datum_size s" .
  have str: "print_string 9 ?t = Ret () (emits [Text bs] ?t)"
  proof -
    have "takeWhile (\<lambda>b. b \<noteq> 0) (bs @ 0 # x) = bs" for x
      using assms(2) by (induction bs) auto
    then have "load_c_string (g_unpack_begin s) 9 ?t = Ret bs ?t"
      using h(1) ub E in_E by (simp add: load_c_string_def in_datum_def pool_ok_def)
    then show ?thesis by (simp add: print_string_def emit_emits)
  qed
  have pv: "print_value (uint PHISH_RAW) 9 (uint n) ?s = Ret () (emits [Text bs] ?t)"
    unfolding print_value_type using st str n by simp
  have u2: "phish_unpack no_callbacks (emits [Text bs] ?t) =
      Ret (uint PHISH_CHAR, Some (int ?p + 1, 1)) (emits [Text bs] (?t\<lparr>g_unpack_current := int ?p + 2\<rparr>))"
    using h(1,4) ub E in_E len
    by (simp add: phish_unpack_def load_at_def in_datum_def pool_ok_def emits_def unpack_switch_def
        unpack_value_def nat_add_distrib)
  have "print_value (uint PHISH_CHAR) x 1 u = Ret () u" for x u
    unfolding print_value_type by simp
  then have "print_values 2 s = Ret () (emits [Text bs] (?t\<lparr>g_unpack_current := int ?p + 2\<rparr>))"
    using u1 pv u2 by (simp add: numeral_2_eq_2)
  then show ?thesis by (simp add: print_def emit_def)
qed

theorem print_raw_clobbers_witness:
  "\<exists>t. print 2 (received_process (body_bytes [Array PHISH_RAW 2 [104, 105], int32_item 7])) = Ret () t \<and>
    printed_out t = printed_out (received_process (body_bytes [Array PHISH_RAW 2 [104, 105], int32_item 7])) @
      [Text [104, 105], Newline]"
  by (rule print_raw_clobbers [where n = 2 and v = 7]) (simp_all add: received_holds body_bytes_def int32_item_def)


section \<open>What filegen finds\<close>

definition hidden :: "string \<Rightarrow> bool" where
  "hidden n \<longleftrightarrow> n \<noteq> [] \<and> hd n = CHR ''.''"

text \<open>
  A file system in which every name that \<open>readdir\<close> gives, other than a hidden one, can be queried,
  every directory can be opened, and no path is too long for the buffer.
\<close>

definition well_kept :: "file_system \<Rightarrow> bool" where
  "well_kept V \<longleftrightarrow>
     (\<forall>d names n. entries_of V d = Some names \<longrightarrow> n \<in> set names \<longrightarrow> hidden n \<or> stat_of V (d @ ''/'' @ n) \<noteq> None) \<and>
     (\<forall>d. stat_of V d = Some Directory \<longrightarrow> entries_of V d \<noteq> None) \<and>
     (\<forall>f. stat_of V f \<noteq> None \<longrightarrow> length f < MAXLINE)"

text \<open>
  The regular files a name stands for: the file itself, or those among the visible entries of the
  directory and, when the search is recursive, below its visible directories.
\<close>

inductive lies_in :: "file_system \<Rightarrow> bool \<Rightarrow> string \<Rightarrow> string \<Rightarrow> bool" for V recurse where
  lies_here: "stat_of V f = Some Regular \<Longrightarrow> lies_in V recurse f f"
| lies_below: "\<lbrakk>stat_of V d = Some Directory; entries_of V d = Some names; n \<in> set names; \<not> hidden n;
      stat_of V (d @ ''/'' @ n) = Some Regular \<or> recurse \<and> stat_of V (d @ ''/'' @ n) = Some Directory;
      lies_in V recurse (d @ ''/'' @ n) f\<rbrakk> \<Longrightarrow> lies_in V recurse d f"

inductive_cases lies_inE: "lies_in V recurse d f"

lemma lies_in_file: "stat_of V g = Some Regular \<Longrightarrow> {f. lies_in V recurse g f} = {g}"
  by (auto elim: lies_inE intro: lies_here)

definition entry_files :: "file_system \<Rightarrow> bool \<Rightarrow> string \<Rightarrow> string set" where
  "entry_files V recurse g =
     (if stat_of V g = Some Regular \<or> recurse \<and> stat_of V g = Some Directory then {f. lies_in V recurse g f} else {})"

lemma lies_in_directory:
  assumes "stat_of V d = Some Directory" "entries_of V d = Some names"
  shows "{f. lies_in V recurse d f} = (\<Union>n \<in> {n \<in> set names. \<not> hidden n}. entry_files V recurse (d @ ''/'' @ n))"
proof (intro set_eqI iffI)
  fix f assume "f \<in> {f. lies_in V recurse d f}"
  then have "lies_in V recurse d f" by simp
  then show "f \<in> (\<Union>n \<in> {n \<in> set names. \<not> hidden n}. entry_files V recurse (d @ ''/'' @ n))"
    using assms by (cases rule: lies_inE) (auto simp: entry_files_def)
next
  fix f assume "f \<in> (\<Union>n \<in> {n \<in> set names. \<not> hidden n}. entry_files V recurse (d @ ''/'' @ n))"
  then show "f \<in> {f. lies_in V recurse d f}"
    using assms by (auto simp: entry_files_def split: if_splits intro: lies_below)
qed

definition adds_files :: "filegen \<Rightarrow> string set \<Rightarrow> (filegen, unit) res \<Rightarrow> bool" where
  "adds_files s X r \<longleftrightarrow> (\<exists>t fs. r = Ret () t \<and> files t = files s @ fs \<and> set fs = X)"

lemma adds_none: "adds_files s {} (Ret () s)"
  by (simp add: adds_files_def)

lemma adds_one: "adds_files s {f} (addfile V f False s)"
  by (simp add: adds_files_def addfile_def append_file_def)

lemma adds_then:
  assumes "adds_files s X r" "\<And>t. r = Ret () t \<Longrightarrow> adds_files t Y (k t)"
  shows "adds_files s (X \<union> Y) (bnd r (\<lambda>_. k))"
proof -
  obtain t fs where t: "r = Ret () t" "files t = files s @ fs" "set fs = X" using assms(1) by (auto simp: adds_files_def)
  obtain u gs where "k t = Ret () u" "files u = files t @ gs" "set gs = Y" using assms(2) [OF t(1)] by (auto simp: adds_files_def)
  then show ?thesis using t by (simp add: adds_files_def)
qed

lemma findfiles_scan_adds:
  assumes "well_kept V"
  shows "\<lbrakk>\<not> readflag; stat_of V str = Some Regular \<or> stat_of V str = Some Directory\<rbrakk> \<Longrightarrow>
      adds_files s {f. lies_in V recurse str f} (findfiles V str recurse readflag s)"
    "\<lbrakk>\<not> readflag'; \<forall>n \<in> set ds. hidden n \<or> stat_of V (str' @ ''/'' @ n) \<noteq> None\<rbrakk> \<Longrightarrow>
      adds_files s' (\<Union>n \<in> {n \<in> set ds. \<not> hidden n}. entry_files V recurse' (str' @ ''/'' @ n))
        (scan_entries V str' ds buf recurse' readflag' s')"
  using assms
proof (induction V str recurse readflag s and V str' ds buf recurse' readflag' s'
    rule: findfiles_scan_entries.induct)
  case (1 V str recurse readflag s)
  show ?case
  proof (cases "stat_of V str = Some Regular")
    case True
    then show ?thesis
      using 1(2) by (subst findfiles.simps) (simp add: lies_in_file adds_one)
  next
    case False
    then have dir: "stat_of V str = Some Directory" using 1(3) by simp
    then obtain names where names: "entries_of V str = Some names" using 1(4) by (auto simp: well_kept_def)
    have "\<forall>n \<in> set names. hidden n \<or> stat_of V (str @ ''/'' @ n) \<noteq> None"
      using 1(4) names unfolding well_kept_def by blast
    from 1(1) [OF dir refl names 1(2) this 1(4)] show ?thesis
      using dir names by (subst findfiles.simps) (simp add: lies_in_directory)
  qed
next
  case (2 V str buf recurse readflag s)
  then show ?case by (simp add: scan_entries.simps adds_none)
next
  case (3 V str d ds buf recurse readflag s)
  let ?new = "str @ ''/'' @ d"
  show ?case
  proof (cases "hidden d")
    case True
    then have "{n \<in> set (d # ds). \<not> hidden n} = {n \<in> set ds. \<not> hidden n}" by auto
    then show ?thesis
      using 3(1) True 3(4-6) by (simp add: scan_entries.simps(2) hidden_def)
  next
    case vis: False
    then obtain k where k: "stat_of V ?new = Some k" using 3(5) by auto
    then have short: "\<not> MAXLINE \<le> length ?new" using 3(6) by (auto simp: well_kept_def not_le)
    have nvis: "\<not> (d \<noteq> [] \<and> hd d = CHR ''.'')" using vis by (simp add: hidden_def)
    let ?r = "if k = Regular then addfile V ?new readflag s
        else if k = Directory \<and> recurse then findfiles V ?new recurse readflag s
        else Ret () s"
    have "adds_files s (entry_files V recurse ?new) ?r"
      using 3(2) [OF nvis refl short] 3(4,6) k
      by (auto simp: entry_files_def lies_in_file adds_one adds_none)
    moreover have "adds_files t (\<Union>n \<in> {n \<in> set ds. \<not> hidden n}. entry_files V recurse (str @ ''/'' @ n))
        (scan_entries V str ds k recurse readflag t)" if "?r = Ret () t" for t
      using 3(3) [OF nvis refl short] that 3(4-6) k by simp
    ultimately have "adds_files s (entry_files V recurse ?new \<union>
        (\<Union>n \<in> {n \<in> set ds. \<not> hidden n}. entry_files V recurse (str @ ''/'' @ n)))
        (bnd ?r (\<lambda>_. scan_entries V str ds k recurse readflag))" by (rule adds_then)
    moreover have "scan_entries V str (d # ds) buf recurse readflag s =
        bnd ?r (\<lambda>_. scan_entries V str ds k recurse readflag)"
      unfolding scan_entries.simps(2) Let_def if_not_P [OF nvis] if_not_P [OF short] using k by simp
    moreover have "{n \<in> set (d # ds). \<not> hidden n} = insert d {n \<in> set ds. \<not> hidden n}" using vis by auto
    ultimately show ?thesis by simp
  qed
qed

text \<open>
  C37: In a file system where every visible entry can be queried, every directory can be opened and
  no path is longer than the buffer, \<open>findfiles\<close> on a file or a directory returns, and it has added
  exactly the regular files the name stands for: the file itself, or the regular files among the
  visible entries, with those of the directories below when the search is recursive.\<close>

theorem findfiles_finds_all:
  assumes "well_kept V" "stat_of V str = Some Regular \<or> stat_of V str = Some Directory"
  shows "\<exists>t fs. findfiles V str recurse False s = Ret () t \<and> files t = files s @ fs \<and>
    set fs = {f. lies_in V recurse str f}"
  using findfiles_scan_adds(1) [OF assms(1) _ assms(2), of False s recurse] by (simp add: adds_files_def)

definition sample_tree :: file_system where
  "sample_tree =
     \<lparr>stat_of = [''d'' \<mapsto> Directory, ''d/a'' \<mapsto> Regular, ''d/e'' \<mapsto> Directory, ''d/e/b'' \<mapsto> Regular],
      stat_leaves = \<lambda>_ k. k,
      entries_of = [''d'' \<mapsto> [''.'', ''a'', ''e''], ''d/e'' \<mapsto> [''b'']], text_of = Map.empty\<rparr>"

definition sample_filegen :: "filegen" where
  "sample_filegen = phish.extend phish_start \<lparr>files = [], maxfile = 0\<rparr>"

lemma sample_tree_kept: "well_kept sample_tree"
  by (auto simp: well_kept_def hidden_def sample_tree_def split: if_splits)

theorem findfiles_finds_all_witness:
  "\<exists>t fs. findfiles sample_tree ''d'' True False sample_filegen = Ret () t \<and> files t = files sample_filegen @ fs \<and>
    ''d/e/b'' \<in> set fs \<and> ''d/a'' \<in> set fs"
proof -
  have "stat_of sample_tree ''d'' = Some Directory" by (simp add: sample_tree_def)
  then obtain t fs where t: "findfiles sample_tree ''d'' True False sample_filegen = Ret () t"
      "files t = files sample_filegen @ fs" "set fs = {f. lies_in sample_tree True ''d'' f}"
    using findfiles_finds_all [OF sample_tree_kept, of "''d''" True sample_filegen] by blast
  have e: "lies_in sample_tree True ''d/e'' ''d/e/b''"
    by (rule lies_below [where n = "''b''" and names = "[''b'']"]) (simp_all add: sample_tree_def hidden_def lies_here)
  have "lies_in sample_tree True ''d'' ''d/e/b''"
    by (rule lies_below [where n = "''e''" and names = "[''.'', ''a'', ''e'']"]) (use e in \<open>simp_all add: sample_tree_def hidden_def\<close>)
  moreover have "lies_in sample_tree True ''d'' ''d/a''"
    by (rule lies_below [where n = "''a''" and names = "[''.'', ''a'', ''e'']"]) (simp_all add: sample_tree_def hidden_def lies_here)
  ultimately show ?thesis using t by blast
qed

end
