(* ===== verification/Bitonic_Ops.thy ===== *)
theory Bitonic_Ops
  imports Prelude "HOL-Library.Sublist"
begin

text \<open>
  The array routines of the bitonic sort (\<^verbatim>\<open>apps/bitonic/utils.hpp\<close>,
  \<^verbatim>\<open>utils.cpp\<close>). Every routine but \<open>reverse\<close> and \<open>fill\<close> is a sequence of
  compare-and-exchange operations on pairs of indices; an index outside the array is undefined,
  here \<open>None\<close>. The lemmas: such sequences permute the array, commute with monotone maps (so
  sortedness can be shown on arrays of booleans), and the loops of the code sort a bitonic array.
\<close>

section \<open>Compare and exchange\<close>

type_synonym ops = "(nat \<times> nat) list"

text \<open>\<open>if (arr[i] > arr[pair]) { tmp = arr[i]; arr[i] = arr[pair]; arr[pair] = tmp; }\<close>\<close>

definition exchange :: "nat \<Rightarrow> nat \<Rightarrow> 'a::linorder list \<Rightarrow> 'a list" where
  "exchange i j xs = (if xs ! j < xs ! i then xs[i := xs ! j, j := xs ! i] else xs)"

primrec run_ops :: "ops \<Rightarrow> 'a::linorder list \<Rightarrow> 'a list option" where
  "run_ops [] xs = Some xs"
| "run_ops (e # es) xs =
     (if fst e < length xs \<and> snd e < length xs
      then run_ops es (exchange (fst e) (snd e) xs) else None)"

section \<open>The routines, at an offset of the array\<close>

definition swap_ops :: "nat \<Rightarrow> nat \<Rightarrow> ops" where
  "swap_ops off len = map (\<lambda>i. (off + i, off + (i + len div 2))) [0..<len div 2]"

definition swap_seg_ops :: "nat \<Rightarrow> nat \<Rightarrow> nat \<Rightarrow> nat \<Rightarrow> ops" where
  "swap_seg_ops off len beg fin = map (\<lambda>i. (off + i, off + (i + len div 2))) [beg..<fin]"

definition rswap_ops :: "nat \<Rightarrow> nat \<Rightarrow> ops" where
  "rswap_ops off len = map (\<lambda>i. (off + i, off + (len - i - 1))) [0..<len div 2]"

definition rswap_seg_ops :: "nat \<Rightarrow> nat \<Rightarrow> nat \<Rightarrow> nat \<Rightarrow> ops" where
  "rswap_seg_ops off len beg fin = map (\<lambda>i. (off + i, off + (len - i - 1))) [beg..<fin]"

definition swap :: "nat \<Rightarrow> nat \<Rightarrow> 'a::linorder list \<Rightarrow> 'a list option" where
  "swap off len = run_ops (swap_ops off len)"

definition swap_seg :: "nat \<Rightarrow> nat \<Rightarrow> nat \<Rightarrow> nat \<Rightarrow> 'a::linorder list \<Rightarrow> 'a list option" where
  "swap_seg off len beg fin = run_ops (swap_seg_ops off len beg fin)"

definition rswap :: "nat \<Rightarrow> nat \<Rightarrow> 'a::linorder list \<Rightarrow> 'a list option" where
  "rswap off len = run_ops (rswap_ops off len)"

definition rswap_seg :: "nat \<Rightarrow> nat \<Rightarrow> nat \<Rightarrow> nat \<Rightarrow> 'a::linorder list \<Rightarrow> 'a list option" where
  "rswap_seg off len beg fin = run_ops (rswap_seg_ops off len beg fin)"

text \<open>The loop of \<open>reverse\<close> exchanges without comparing.\<close>

primrec reverse_from :: "nat \<Rightarrow> nat \<Rightarrow> nat list \<Rightarrow> 'a list \<Rightarrow> 'a list option" where
  "reverse_from off len [] xs = Some xs"
| "reverse_from off len (i # is) xs =
     (let p = off + (len - i - 1) in
      if off + i < length xs \<and> p < length xs
      then reverse_from off len is (xs[off + i := xs ! p, p := xs ! (off + i)]) else None)"

definition reverse :: "nat \<Rightarrow> nat \<Rightarrow> 'a list \<Rightarrow> 'a list option" where
  "reverse off len xs = reverse_from off len [0..<len div 2] xs"

primrec fill_from :: "nat \<Rightarrow> 'a \<Rightarrow> nat list \<Rightarrow> 'a list \<Rightarrow> 'a list option" where
  "fill_from off val [] xs = Some xs"
| "fill_from off val (i # is) xs =
     (if off + i < length xs then fill_from off val is (xs[off + i := val]) else None)"

definition fill :: "nat \<Rightarrow> nat \<Rightarrow> 'a \<Rightarrow> 'a list \<Rightarrow> 'a list option" where
  "fill off len val xs = fill_from off val [0..<len] xs"

text \<open>The index at which \<open>check\<close> reports the first error, if there is one.\<close>

function check_from :: "nat \<Rightarrow> nat \<Rightarrow> 'a::linorder list \<Rightarrow> nat option" where
  "check_from i len xs =
     (if len \<le> i then None
      else if xs ! i < xs ! (i - 1) then Some i
      else check_from (i + 1) len xs)"
  by pat_completeness auto
termination by (relation "measure (\<lambda>(i, len, xs). len - i)") auto

declare check_from.simps [simp del]

definition check :: "'a::linorder list \<Rightarrow> nat \<Rightarrow> nat option" where
  "check xs len = check_from 1 len xs"

text \<open>\<open>roundup64\<close>, kept at 64 bits\<close>

definition roundup64 :: "u64 \<Rightarrow> u64" where
  "roundup64 val =
     (let v = val - 1;
          v = v OR drop_bit 1 v;
          v = v OR drop_bit 2 v;
          v = v OR drop_bit 4 v;
          v = v OR drop_bit 8 v;
          v = v OR drop_bit 16 v;
          v = v OR drop_bit 32 v
      in v + 1)"

text \<open>
  The loop that follows a swap or rswap of a whole task in the slaves: with \<open>len_tmp\<close> halved
  each time, a swap of every block of that length.
\<close>

definition blocks :: "nat \<Rightarrow> nat \<Rightarrow> nat" where
  "blocks n l = (n + l - 1) div l"

definition level_ops :: "nat \<Rightarrow> nat \<Rightarrow> nat \<Rightarrow> ops" where
  "level_ops beg n l = concat (map (\<lambda>k. swap_ops (beg + k * l) l) [0..<blocks n l])"

function down_ops :: "nat \<Rightarrow> nat \<Rightarrow> nat \<Rightarrow> ops" where
  "down_ops beg n l =
     (if 2 < l then level_ops beg n (l div 2) @ down_ops beg n (l div 2) else [])"
  by pat_completeness auto
termination by (relation "measure (\<lambda>(beg, n, l). l)") auto

declare down_ops.simps [simp del]

lemma blocks_mult [simp]: "0 < l \<Longrightarrow> blocks (m * l) l = m"
  unfolding blocks_def by (intro div_nat_eqI) (auto simp: algebra_simps)

section \<open>Permutation and bounds\<close>

lemma length_exchange [simp]: "length (exchange i j xs) = length xs"
  by (simp add: exchange_def)

lemma mset_exchange [simp]:
  assumes "i < length xs" "j < length xs"
  shows "mset (exchange i j xs) = mset xs"
proof (cases "i = j")
  case False
  have "mset (xs[i := xs ! j, j := xs ! i]) = mset xs"
    using mset_swap [OF assms] by (simp add: list_update_swap [OF False])
  then show ?thesis by (simp add: exchange_def)
qed (simp add: exchange_def)

definition ops_within :: "nat \<Rightarrow> nat \<Rightarrow> ops \<Rightarrow> bool" where
  "ops_within lo hi es \<longleftrightarrow>
     (\<forall>e \<in> set es. lo \<le> fst e \<and> fst e < hi \<and> lo \<le> snd e \<and> snd e < hi)"

lemma ops_within_simps [simp]:
  "ops_within lo hi []"
  "ops_within lo hi (e # es) \<longleftrightarrow>
     lo \<le> fst e \<and> fst e < hi \<and> lo \<le> snd e \<and> snd e < hi \<and> ops_within lo hi es"
  "ops_within lo hi (es @ es') \<longleftrightarrow> ops_within lo hi es \<and> ops_within lo hi es'"
  by (auto simp: ops_within_def)

lemma ops_within_mono: "ops_within lo hi es \<Longrightarrow> hi \<le> hi' \<Longrightarrow> ops_within lo hi' es"
  by (fastforce simp: ops_within_def)

lemma run_ops_append: "run_ops (es @ es') xs = Option.bind (run_ops es xs) (run_ops es')"
  by (induction es arbitrary: xs) simp_all

text \<open>The result where the run is within bounds.\<close>

definition exec :: "ops \<Rightarrow> 'a::linorder list \<Rightarrow> 'a list" where
  "exec es xs = fold (\<lambda>e. exchange (fst e) (snd e)) es xs"

lemma length_exec [simp]: "length (exec es xs) = length xs"
  by (induction es arbitrary: xs) (simp_all add: exec_def)

lemma exec_append: "exec (es @ es') xs = exec es' (exec es xs)"
  by (simp add: exec_def)

lemma exec_simps [simp]: "exec [] xs = xs"
    "exec (e # es) xs = exec es (exchange (fst e) (snd e) xs)"
  by (simp_all add: exec_def)

lemma run_ops_exec: "ops_within lo (length xs) es \<Longrightarrow> run_ops es xs = Some (exec es xs)"
  by (induction es arbitrary: xs) simp_all

lemma mset_exec: "ops_within lo (length xs) es \<Longrightarrow> mset (exec es xs) = mset xs"
  by (induction es arbitrary: xs) simp_all

lemma exchange_outside: "k \<noteq> i \<Longrightarrow> k \<noteq> j \<Longrightarrow> exchange i j xs ! k = xs ! k"
  by (simp add: exchange_def)

lemma exec_outside:
  "ops_within lo hi es \<Longrightarrow> k < lo \<or> hi \<le> k \<Longrightarrow> exec es xs ! k = xs ! k"
proof (induction es arbitrary: xs)
  case (Cons e es)
  then have "k \<noteq> fst e" "k \<noteq> snd e" by auto
  with Cons show ?case by (simp add: exchange_outside)
qed simp

section \<open>Monotone maps\<close>

lemma exchange_map:
  assumes "mono f" "i < length xs" "j < length xs"
  shows "exchange i j (map f xs) = map f (exchange i j xs)"
proof -
  have le: "x \<le> y \<Longrightarrow> f x \<le> f y" for x y using assms(1) by (rule monoD)
  consider "f (xs ! j) < f (xs ! i)" | "f (xs ! i) = f (xs ! j)" | "f (xs ! i) < f (xs ! j)"
    by (rule linorder_cases) auto
  then show ?thesis
  proof cases
    case 1
    then have "xs ! j < xs ! i" using le by (metis leD le_less_linear)
    with 1 show ?thesis using assms by (simp add: exchange_def map_update)
  next
    case 2
    then show ?thesis
      using assms by (auto simp: exchange_def map_update intro!: nth_equalityI simp: nth_update_if)
  next
    case 3
    then have "\<not> xs ! j < xs ! i" "\<not> f (xs ! j) < f (xs ! i)"
      using le by (metis leD less_imp_le, simp)
    then show ?thesis using assms by (simp add: exchange_def)
  qed
qed

lemma exec_map:
  "mono f \<Longrightarrow> ops_within lo (length xs) es \<Longrightarrow> exec es (map f xs) = map f (exec es xs)"
  by (induction es arbitrary: xs) (simp_all add: exchange_map)

text \<open>A list is sorted when all its threshold images are.\<close>

lemma mono_above: "mono (\<lambda>x :: 'a::linorder. c < x)"
  by (rule monoI) (auto simp: le_bool_def)

lemma sorted_by_thresholds:
  fixes xs :: "'a::linorder list"
  assumes "\<And>c. sorted (map (\<lambda>x. c < x) xs)"
  shows "sorted xs"
  unfolding sorted_iff_nth_mono
proof (intro allI impI)
  fix i j assume ij: "i \<le> j" "j < length xs"
  show "xs ! i \<le> xs ! j"
  proof (rule ccontr)
    assume "\<not> xs ! i \<le> xs ! j"
    then have "xs ! j < xs ! i" by simp
    moreover have "(xs ! j < xs ! i) \<longrightarrow> (xs ! j < xs ! j)"
      using assms [of "xs ! j"] ij unfolding sorted_iff_nth_mono by (auto simp: le_bool_def)
    ultimately show False by simp
  qed
qed

section \<open>One pass\<close>

text \<open>A pass over pairwise different indices takes minima and maxima.\<close>

lemma exchange_nth:
  assumes "i < length xs" "j < length xs" "i \<noteq> j"
  shows "exchange i j xs ! i = min (xs ! i) (xs ! j)" "exchange i j xs ! j = max (xs ! i) (xs ! j)"
  using assms by (auto simp: exchange_def nth_update_if min_def max_def)

lemma exec_pairs:
  assumes "\<forall>i < m. f i < length xs \<and> g i < length xs"
    "\<forall>i < m. \<forall>j < m. f i \<noteq> g j \<and> (i \<noteq> j \<longrightarrow> f i \<noteq> f j \<and> g i \<noteq> g j)"
  defines "e \<equiv> exec (map (\<lambda>i. (f i, g i)) [0..<m]) xs"
  shows "\<forall>i < m. e ! f i = min (xs ! f i) (xs ! g i) \<and> e ! g i = max (xs ! f i) (xs ! g i)"
    "\<forall>k. (\<forall>i < m. k \<noteq> f i \<and> k \<noteq> g i) \<longrightarrow> e ! k = xs ! k"
proof -
  have "(\<forall>i < m. e ! f i = min (xs ! f i) (xs ! g i) \<and> e ! g i = max (xs ! f i) (xs ! g i)) \<and>
    (\<forall>k. (\<forall>i < m. k \<noteq> f i \<and> k \<noteq> g i) \<longrightarrow> e ! k = xs ! k)"
    using assms(1,2) unfolding e_def
  proof (induction m)
    case (Suc m)
    let ?e = "exec (map (\<lambda>i. (f i, g i)) [0..<m]) xs"
    have IH: "\<And>i. i < m \<Longrightarrow> ?e ! f i = min (xs ! f i) (xs ! g i)"
        "\<And>i. i < m \<Longrightarrow> ?e ! g i = max (xs ! f i) (xs ! g i)"
        "\<And>k. \<forall>i < m. k \<noteq> f i \<and> k \<noteq> g i \<Longrightarrow> ?e ! k = xs ! k"
      using Suc by auto
    have step: "exec (map (\<lambda>i. (f i, g i)) [0..<Suc m]) xs = exchange (f m) (g m) ?e"
      by (simp add: exec_append)
    have new: "f m < length ?e" "g m < length ?e" "f m \<noteq> g m" using Suc.prems by auto
    have "\<forall>i < m. f m \<noteq> f i \<and> f m \<noteq> g i" "\<forall>i < m. g m \<noteq> f i \<and> g m \<noteq> g i"
      using Suc.prems(2) by (metis lessI less_SucI less_irrefl)+
    then have old: "?e ! f m = xs ! f m" "?e ! g m = xs ! g m"
      by (intro IH(3), simp)+
    show ?case
      unfolding step
    proof (intro conjI allI impI)
      fix i assume "i < Suc m"
      show "exchange (f m) (g m) ?e ! f i = min (xs ! f i) (xs ! g i)"
      proof (cases "i = m")
        case False
        then have "i < m" "f i \<noteq> f m" "f i \<noteq> g m" using Suc.prems \<open>i < Suc m\<close> by auto
        then show ?thesis by (simp add: exchange_outside IH)
      qed (simp add: exchange_nth [OF new] old)
      show "exchange (f m) (g m) ?e ! g i = max (xs ! f i) (xs ! g i)"
      proof (cases "i = m")
        case False
        then have "i < m" "g i \<noteq> g m" "g i \<noteq> f m"
          using Suc.prems(2)[rule_format, of i m] Suc.prems(2)[rule_format, of m i] \<open>i < Suc m\<close>
          by auto
        then show ?thesis by (simp add: exchange_outside IH)
      qed (simp add: exchange_nth [OF new] old)
    next
      fix k assume "\<forall>i < Suc m. k \<noteq> f i \<and> k \<noteq> g i"
      then show "exchange (f m) (g m) ?e ! k = xs ! k" by (simp add: exchange_outside IH)
    qed
  qed simp
  then show "\<forall>i < m. e ! f i = min (xs ! f i) (xs ! g i) \<and> e ! g i = max (xs ! f i) (xs ! g i)"
    "\<forall>k. (\<forall>i < m. k \<noteq> f i \<and> k \<noteq> g i) \<longrightarrow> e ! k = xs ! k" by blast+
qed

lemma swap_ops_within: "ops_within off (off + 2 * n) (swap_ops off (2 * n))"
  by (auto simp: ops_within_def swap_ops_def)

lemma rswap_ops_within: "ops_within off (off + 2 * n) (rswap_ops off (2 * n))"
  by (auto simp: ops_within_def rswap_ops_def)

lemma exec_swap_nth:
  assumes "off + 2 * n \<le> length xs" "i < n"
  shows "exec (swap_ops off (2 * n)) xs ! (off + i) = min (xs ! (off + i)) (xs ! (off + i + n))"
    "exec (swap_ops off (2 * n)) xs ! (off + i + n) = max (xs ! (off + i)) (xs ! (off + i + n))"
  using exec_pairs(1) [of n "\<lambda>i. off + i" xs "\<lambda>i. off + (i + n)"] assms
  by (simp_all add: swap_ops_def add.assoc)

lemma exec_rswap_nth:
  assumes "off + 2 * n \<le> length xs" "i < n"
  shows "exec (rswap_ops off (2 * n)) xs ! (off + i) =
      min (xs ! (off + i)) (xs ! (off + (2 * n - i - 1)))"
    "exec (rswap_ops off (2 * n)) xs ! (off + (2 * n - i - 1)) =
      max (xs ! (off + i)) (xs ! (off + (2 * n - i - 1)))"
  using exec_pairs(1) [of n "\<lambda>i. off + i" xs "\<lambda>i. off + (2 * n - i - 1)"] assms
  by (force simp: rswap_ops_def)+

section \<open>Bitonic arrays of booleans\<close>

text \<open>
  A segment of booleans is bitonic when its true or its false entries form an interval.
\<close>

definition inside :: "nat \<Rightarrow> nat \<Rightarrow> nat \<Rightarrow> bool" where
  "inside a b i \<longleftrightarrow> a \<le> i \<and> i < b"

definition bitonic :: "nat \<Rightarrow> (nat \<Rightarrow> bool) \<Rightarrow> bool" where
  "bitonic n x \<longleftrightarrow>
     (\<exists>a b. (\<forall>i < n. x i = inside a b i) \<or> (\<forall>i < n. x i = (\<not> inside a b i)))"

lemma bitonic_cong: "(\<And>i. i < n \<Longrightarrow> x i = y i) \<Longrightarrow> bitonic n x = bitonic n y"
  by (simp add: bitonic_def)

lemma bitonic_inside: "bitonic n (inside a b)"
  by (auto simp: bitonic_def)

lemma bitonic_outside: "bitonic n (\<lambda>i. \<not> inside a b i)"
  by (auto simp: bitonic_def)

lemma bitonic_Not: "bitonic n x \<Longrightarrow> bitonic n (\<lambda>i. \<not> x i)"
  by (auto simp: bitonic_def)

lemma half_clean_inside:
  "(\<forall>i < n. \<not> (inside a b i \<and> inside a b (i + n))) \<or> (\<forall>i < n. inside a b i \<or> inside a b (i + n))"
  "bitonic n (\<lambda>i. inside a b i \<and> inside a b (i + n))"
  "bitonic n (\<lambda>i. inside a b i \<or> inside a b (i + n))"
proof -
  show "(\<forall>i < n. \<not> (inside a b i \<and> inside a b (i + n))) \<or>
      (\<forall>i < n. inside a b i \<or> inside a b (i + n))"
    unfolding inside_def by auto
  have "(inside a b i \<and> inside a b (i + n)) = inside a (b - n) i" if "i < n" for i
    unfolding inside_def by auto
  then show "bitonic n (\<lambda>i. inside a b i \<and> inside a b (i + n))"
    using bitonic_inside by (simp cong: bitonic_cong)
  show "bitonic n (\<lambda>i. inside a b i \<or> inside a b (i + n))"
  proof (cases "b \<le> n \<or> n \<le> a")
    case True
    then have "(inside a b i \<or> inside a b (i + n)) = inside (if n \<le> a then a - n else a) (if n \<le> a then b - n else b) i"
      if "i < n" for i
      unfolding inside_def using that by auto
    then show ?thesis using bitonic_inside by (simp cong: bitonic_cong)
  next
    case False
    then have "(inside a b i \<or> inside a b (i + n)) = (\<not> inside (b - n) a i)" if "i < n" for i
      unfolding inside_def using that by auto
    then show ?thesis using bitonic_outside by (simp cong: bitonic_cong)
  qed
qed

lemma half_clean:
  assumes "bitonic (2 * n) x"
  shows "(\<forall>i < n. \<not> (x i \<and> x (i + n))) \<or> (\<forall>i < n. x i \<or> x (i + n))"
    "bitonic n (\<lambda>i. x i \<and> x (i + n))" "bitonic n (\<lambda>i. x i \<or> x (i + n))"
proof -
  obtain a b where ab: "(\<forall>i < 2 * n. x i = inside a b i) \<or> (\<forall>i < 2 * n. x i = (\<not> inside a b i))"
    using assms by (auto simp: bitonic_def)
  have goal: "((\<forall>i < n. \<not> (x i \<and> x (i + n))) \<or> (\<forall>i < n. x i \<or> x (i + n))) \<and>
    bitonic n (\<lambda>i. x i \<and> x (i + n)) \<and> bitonic n (\<lambda>i. x i \<or> x (i + n))"
  proof (cases "\<forall>i < 2 * n. x i = inside a b i")
    case True
    then have "x i = inside a b i \<and> x (i + n) = inside a b (i + n)" if "i < n" for i
      using that by simp
    then show ?thesis
      using half_clean_inside [of n a b] by (simp cong: bitonic_cong)
  next
    case False
    with ab have "x i = (\<not> inside a b i) \<and> x (i + n) = (\<not> inside a b (i + n))" if "i < n" for i
      using that by simp
    then show ?thesis
      using half_clean_inside(1) [of n a b] bitonic_Not [OF half_clean_inside(2), of n a b]
        bitonic_Not [OF half_clean_inside(3), of n a b]
      by (simp cong: bitonic_cong) blast
  qed
  then show "(\<forall>i < n. \<not> (x i \<and> x (i + n))) \<or> (\<forall>i < n. x i \<or> x (i + n))"
    "bitonic n (\<lambda>i. x i \<and> x (i + n))" "bitonic n (\<lambda>i. x i \<or> x (i + n))" by blast+
qed

section \<open>A level of swaps\<close>

lemma level_prefix:
  assumes "off + m * (2 * h) \<le> length xs"
  defines "e \<equiv> exec (concat (map (\<lambda>q. swap_ops (off + q * (2 * h)) (2 * h)) [0..<m])) xs"
  shows "\<forall>q < m. \<forall>i < h. let p = off + q * (2 * h) + i in
      e ! p = min (xs ! p) (xs ! (p + h)) \<and> e ! (p + h) = max (xs ! p) (xs ! (p + h))"
    "\<forall>k. k < off \<or> off + m * (2 * h) \<le> k \<longrightarrow> e ! k = xs ! k"
proof -
  have "(\<forall>q < m. \<forall>i < h. let p = off + q * (2 * h) + i in
      e ! p = min (xs ! p) (xs ! (p + h)) \<and> e ! (p + h) = max (xs ! p) (xs ! (p + h))) \<and>
    (\<forall>k. k < off \<or> off + m * (2 * h) \<le> k \<longrightarrow> e ! k = xs ! k)"
    using assms(1) unfolding e_def
  proof (induction m)
    case (Suc m)
    let ?b = "off + m * (2 * h)"
    let ?e = "exec (concat (map (\<lambda>q. swap_ops (off + q * (2 * h)) (2 * h)) [0..<m])) xs"
    have IH: "\<And>q i. q < m \<Longrightarrow> i < h \<Longrightarrow> let p = off + q * (2 * h) + i in
        ?e ! p = min (xs ! p) (xs ! (p + h)) \<and> ?e ! (p + h) = max (xs ! p) (xs ! (p + h))"
        "\<And>k. k < off \<or> ?b \<le> k \<Longrightarrow> ?e ! k = xs ! k"
      using Suc by auto
    have step: "exec (concat (map (\<lambda>q. swap_ops (off + q * (2 * h)) (2 * h)) [0..<Suc m])) xs =
        exec (swap_ops ?b (2 * h)) ?e"
      by (simp add: exec_append)
    have len: "?b + 2 * h \<le> length ?e" using Suc.prems by simp
    note out = exec_outside [OF swap_ops_within [of ?b h], of _ ?e]
    show ?case
      unfolding step
    proof (intro conjI allI impI)
      fix q i assume q: "q < Suc m" and i: "i < h"
      let ?p = "off + q * (2 * h) + i"
      show "let p = off + q * (2 * h) + i in
          exec (swap_ops ?b (2 * h)) ?e ! p = min (xs ! p) (xs ! (p + h)) \<and>
          exec (swap_ops ?b (2 * h)) ?e ! (p + h) = max (xs ! p) (xs ! (p + h))"
      proof (cases "q = m")
        case True
        then show ?thesis
          using exec_swap_nth [OF len i] IH(2) by (simp add: Let_def)
      next
        case False
        with q have "q + 1 \<le> m" by simp
        from mult_le_mono1 [OF this, of "2 * h"] i have "?p + h < ?b" by (simp add: algebra_simps)
        then show ?thesis
          using IH(1) [of q i] False q i by (simp add: Let_def out)
      qed
    next
      fix k assume k: "k < off \<or> off + Suc m * (2 * h) \<le> k"
      then have "k < ?b \<or> ?b + 2 * h \<le> k" "k < off \<or> ?b \<le> k" by (auto simp: algebra_simps)
      then show "exec (swap_ops ?b (2 * h)) ?e ! k = xs ! k" by (simp add: out IH(2))
    qed
  qed simp
  then show "\<forall>q < m. \<forall>i < h. let p = off + q * (2 * h) + i in
      e ! p = min (xs ! p) (xs ! (p + h)) \<and> e ! (p + h) = max (xs ! p) (xs ! (p + h))"
    "\<forall>k. k < off \<or> off + m * (2 * h) \<le> k \<longrightarrow> e ! k = xs ! k" by blast+
qed

lemma level_ops_within: "0 < h \<Longrightarrow> ops_within off (off + m * (2 * h)) (level_ops off (m * (2 * h)) (2 * h))"
proof (induction m)
  case (Suc m)
  have "blocks (Suc m * (2 * h)) (2 * h) = Suc m" "blocks (m * (2 * h)) (2 * h) = m"
    using Suc.prems by (intro blocks_mult; simp)+
  then have split: "level_ops off (Suc m * (2 * h)) (2 * h) =
      level_ops off (m * (2 * h)) (2 * h) @ swap_ops (off + m * (2 * h)) (2 * h)"
    unfolding level_ops_def by simp
  show ?case
    unfolding split ops_within_simps
    using Suc swap_ops_within [of "off + m * (2 * h)" h]
    by (auto simp: ops_within_def algebra_simps)
qed (simp add: level_ops_def blocks_def)

text \<open>
  Blocks of length \<open>l\<close>, each bitonic, in ascending order: a swap of every block leaves such
  blocks of half the length.
\<close>

definition leveled :: "nat \<Rightarrow> nat \<Rightarrow> nat \<Rightarrow> bool list \<Rightarrow> bool" where
  "leveled off n l xs \<longleftrightarrow>
     (\<forall>q < n div l. bitonic l (\<lambda>i. xs ! (off + q * l + i))) \<and>
     (\<forall>i j. i div l < j div l \<longrightarrow> j < n \<longrightarrow> xs ! (off + i) \<longrightarrow> xs ! (off + j))"

lemma block_split:
  assumes "i < m * (2 * h)" "0 < (h :: nat)"
  obtains q r where "q < m" "r < h" "i = q * (2 * h) + r \<and> i div h = 2 * q \<or>
    i = q * (2 * h) + r + h \<and> i div h = 2 * q + 1" "i div (2 * h) = q"
proof -
  let ?q = "i div (2 * h)" and ?t = "i mod (2 * h)"
  have i: "i = ?q * (2 * h) + ?t" by (simp only: div_mult_mod_eq)
  have t: "?t < 2 * h" using assms(2) by simp
  have q: "?q < m" using assms by (simp add: less_mult_imp_div_less)
  show thesis
  proof (cases "?t < h")
    case True
    have "i div h = 2 * ?q"
    proof -
      have "i = h * (2 * ?q) + ?t" using i by (simp add: algebra_simps)
      then have "i div h = (?t + h * (2 * ?q)) div h" by (metis add.commute)
      then show ?thesis using assms(2) True by simp
    qed
    then show thesis using that [OF q True] i by blast
  next
    case False
    have "i div h = 2 * ?q + 1"
    proof -
      have "?t div h = 1" using False t by (intro div_nat_eqI) simp_all
      moreover have "i = ?t + h * (2 * ?q)" using i by (simp add: algebra_simps)
      then have "i div h = (?t + h * (2 * ?q)) div h" by metis
      ultimately show ?thesis using assms(2) by simp
    qed
    moreover have "i = ?q * (2 * h) + (?t - h) + h" using i False by simp
    ultimately show thesis using that [OF q, of "?t - h"] t False by auto
  qed
qed

lemma min_max_bool: "min x y = (x \<and> y)" "max x y = (x \<or> y)" for x y :: bool
  by (auto simp: min_def max_def le_bool_def)

lemma leveled_step:
  fixes xs :: "bool list"
  assumes "leveled off (m * (2 * h)) (2 * h) xs" "0 < h" "off + m * (2 * h) \<le> length xs"
  shows "leveled off (m * (2 * h)) h (exec (level_ops off (m * (2 * h)) (2 * h)) xs)"
proof -
  let ?n = "m * (2 * h)"
  define e where "e = exec (level_ops off ?n (2 * h)) xs"
  define x where "x q r = xs ! (off + q * (2 * h) + r)" for q r
  have div: "?n div (2 * h) = m" "?n div h = 2 * m" "blocks ?n (2 * h) = m"
    using assms(2) blocks_mult [of "2 * h" m] by simp_all
  have e: "e ! (off + q * (2 * h) + r) = (x q r \<and> x q (r + h))"
      "e ! (off + q * (2 * h) + r + h) = (x q r \<or> x q (r + h))" if "q < m" "r < h" for q r
    using level_prefix(1) [OF assms(3), rule_format, OF that]
    by (simp_all add: e_def level_ops_def div min_max_bool Let_def x_def add.assoc)
  have bit: "bitonic (2 * h) (x q)" if "q < m" for q
    using assms(1) that by (simp add: leveled_def div x_def [abs_def])
  have sep: "x p r \<Longrightarrow> p < q \<Longrightarrow> q < m \<Longrightarrow> r < 2 * h \<Longrightarrow> r' < 2 * h \<Longrightarrow> x q r'" for p q r r'
  proof -
    assume a: "x p r" "p < q" "q < m" "r < 2 * h" "r' < 2 * h"
    have "(p * (2 * h) + r) div (2 * h) = p" "(q * (2 * h) + r') div (2 * h) = q" using a by simp_all
    moreover have "q * (2 * h) + r' < ?n"
    proof -
      have "q + 1 \<le> m" using a(3) by simp
      from mult_le_mono1 [OF this, of "2 * h"] a(5) show ?thesis by (simp add: algebra_simps)
    qed
    ultimately show ?thesis
      using assms(1) a unfolding leveled_def x_def add.assoc by metis
  qed
  have "bitonic h (\<lambda>i. e ! (off + q' * h + i))" if "q' < 2 * m" for q'
  proof (cases "even q'")
    case True
    then obtain q where q: "q' = 2 * q" by (rule evenE)
    then have "bitonic h (\<lambda>i. x q i \<and> x q (i + h))"
      using half_clean(2) [OF bit, of q] that by simp
    moreover have "e ! (off + q' * h + i) = (x q i \<and> x q (i + h))" if "i < h" for i
      using e(1) [of q i] q \<open>q' < 2 * m\<close> that by (simp add: algebra_simps)
    ultimately show ?thesis by (simp cong: bitonic_cong)
  next
    case False
    then obtain q where q: "q' = 2 * q + 1" by (rule oddE)
    then have "bitonic h (\<lambda>i. x q i \<or> x q (i + h))"
      using half_clean(3) [OF bit, of q] that by simp
    moreover have "e ! (off + q' * h + i) = (x q i \<or> x q (i + h))" if "i < h" for i
      using e(2) [of q i] q \<open>q' < 2 * m\<close> that by (simp add: algebra_simps)
    ultimately show ?thesis by (simp cong: bitonic_cong)
  qed
  moreover have "e ! (off + j)" if ij: "i div h < j div h" "j < ?n" "e ! (off + i)" for i j
  proof -
    have "i < ?n" using ij(1,2) by (meson div_le_mono le_less_linear less_le_trans not_le order_less_imp_le)
    obtain q r where q: "q < m" "r < h" "i = q * (2 * h) + r \<and> i div h = 2 * q \<or>
        i = q * (2 * h) + r + h \<and> i div h = 2 * q + 1"
      using block_split [OF \<open>i < ?n\<close> assms(2)] by metis
    obtain q' r' where q': "q' < m" "r' < h" "j = q' * (2 * h) + r' \<and> j div h = 2 * q' \<or>
        j = q' * (2 * h) + r' + h \<and> j div h = 2 * q' + 1"
      using block_split [OF ij(2) assms(2)] by metis
    note ei = e [OF q(1,2)] and ej = e [OF q'(1,2)]
    have some: "x q r \<or> x q (r + h)" using ij(3) q(3) ei by (auto simp: add.assoc)
    show ?thesis
    proof (cases "q = q'")
      case True
      then have low: "i = q * (2 * h) + r" and up: "j = q * (2 * h) + r' + h"
        using q(3) q'(3) ij(1) by auto
      have "x q r \<and> x q (r + h)" using ij(3) low ei(1) by (simp add: add.assoc)
      with half_clean(1) [OF bit [OF q(1)]] q(2) have "\<forall>i < h. x q i \<or> x q (i + h)" by blast
      then show ?thesis using up ej(2) True q'(2) by (simp add: add.assoc)
    next
      case False
      then have "q < q'" using q(3) q'(3) ij(1) by auto
      have "x q' t" if "t < 2 * h" for t
        using some sep [of q r q' t] sep [of q "r + h" q' t] \<open>q < q'\<close> q(1,2) q'(1) that by auto
      then have "x q' r'" "x q' (r' + h)" using q'(2) by simp_all
      then show ?thesis using q'(3) ej by (auto simp: add.assoc)
    qed
  qed
  ultimately show ?thesis by (simp add: leveled_def div(2) e_def)
qed

section \<open>A task sorts its segment\<close>

lemma down_ops_step: "2 < l \<Longrightarrow> down_ops beg n l = level_ops beg n (l div 2) @ down_ops beg n (l div 2)"
  by (subst down_ops.simps) simp

lemma down_ops_stop: "l \<le> 2 \<Longrightarrow> down_ops beg n l = []"
  by (subst down_ops.simps) simp

lemma down_ops_within: "j \<le> k \<Longrightarrow> ops_within off (off + 2 ^ k) (down_ops off (2 ^ k) (2 ^ j))"
proof (induction j)
  case (Suc j)
  show ?case
  proof (cases "2 < (2 :: nat) ^ Suc j")
    case True
    then obtain i where i: "j = Suc i" by (cases j) auto
    have "(2 :: nat) ^ k = 2 ^ (k - j) * (2 * 2 ^ i)"
      using Suc.prems i by (simp add: power_add [symmetric] flip: power_Suc)
    then have "ops_within off (off + 2 ^ k) (level_ops off (2 ^ k) (2 ^ j))"
      using level_ops_within [of "2 ^ i" off "2 ^ (k - j)"] i by simp
    moreover have "(2 :: nat) ^ Suc j div 2 = 2 ^ j" by simp
    ultimately show ?thesis
      using Suc True by (simp only: down_ops_step ops_within_simps)
  qed (simp add: down_ops_stop not_less)
qed (simp add: down_ops_stop)

lemma down_levels:
  fixes xs :: "bool list"
  assumes "leveled off (2 ^ k) (2 ^ j) xs" "j < k" "off + 2 ^ k \<le> length xs"
  shows "leveled off (2 ^ k) 1 (exec (down_ops off (2 ^ k) (2 ^ Suc j)) xs)"
  using assms
proof (induction j arbitrary: xs)
  case 0
  then show ?case by (simp add: down_ops_stop)
next
  case (Suc j)
  have n: "(2 :: nat) ^ k = 2 ^ (k - Suc j) * (2 * 2 ^ j)"
    using Suc.prems(2) by (simp add: power_add [symmetric] flip: power_Suc)
  have "1 \<le> (2 :: nat) ^ j" by simp
  then have "2 < (2 :: nat) ^ Suc (Suc j)" unfolding power_Suc by linarith
  then have ops: "down_ops off (2 ^ k) (2 ^ Suc (Suc j)) =
      level_ops off (2 ^ k) (2 * 2 ^ j) @ down_ops off (2 ^ k) (2 ^ Suc j)"
    by (simp add: down_ops_step)
  have "leveled off (2 ^ k) (2 ^ j) (exec (level_ops off (2 ^ k) (2 * 2 ^ j)) xs)"
    using leveled_step [of off "2 ^ (k - Suc j)" "2 ^ j" xs] Suc.prems n by simp
  from Suc.IH [OF this] Suc.prems show ?case
    unfolding ops exec_append by simp
qed

lemma leveled_sorted:
  assumes "leveled off n 1 xs" "off + n \<le> length xs"
  shows "sorted (seg off n xs)"
  unfolding sorted_iff_nth_mono
proof (intro allI impI)
  fix i j assume ij: "i \<le> j" "j < length (seg off n xs)"
  show "seg off n xs ! i \<le> seg off n xs ! j"
  proof (cases "i = j")
    case False
    then have "i < j" using ij(1) by simp
    then show ?thesis using assms ij(2) by (auto simp: leveled_def seg_def le_bool_def)
  qed simp
qed

lemma sorted_bool_threshold:
  assumes "sorted (xs :: bool list)"
  shows "\<exists>a. \<forall>i < length xs. xs ! i = (a \<le> i)"
proof (intro exI allI impI)
  let ?a = "LEAST i. i < length xs \<longrightarrow> xs ! i"
  fix i assume i: "i < length xs"
  have "length xs < length xs \<longrightarrow> xs ! length xs" by simp
  then have a: "?a < length xs \<longrightarrow> xs ! ?a" by (rule LeastI)
  show "xs ! i = (?a \<le> i)"
  proof
    show "xs ! i \<Longrightarrow> ?a \<le> i" by (rule Least_le) simp
    assume "?a \<le> i"
    then show "xs ! i"
      using a i assms by (auto simp: sorted_iff_nth_mono le_bool_def)
  qed
qed

lemma rswap_leveled:
  fixes xs :: "bool list"
  assumes "sorted (seg off h xs)" "sorted (seg (off + h) h xs)" "off + 2 * h \<le> length xs" "0 < h"
  shows "leveled off (2 * h) h (exec (rswap_ops off (2 * h)) xs)"
proof -
  define e where "e = exec (rswap_ops off (2 * h)) xs"
  obtain a where a: "\<And>i. i < h \<Longrightarrow> xs ! (off + i) = (a \<le> i)"
    using sorted_bool_threshold [OF assms(1)] assms(3) by (auto simp: seg_def)
  obtain b where b: "\<And>i. i < h \<Longrightarrow> xs ! (off + (h + i)) = (b \<le> i)"
    using sorted_bool_threshold [OF assms(2)] assms(3) by (auto simp: seg_def add.assoc)
  have low: "e ! (off + i) = inside a (h - b) i" if "i < h" for i
  proof -
    have "2 * h - i - 1 = h + (h - i - 1)" using that by simp
    then show ?thesis
      using exec_rswap_nth(1) [OF assms(3) that] a [OF that] b [of "h - i - 1"] that
      by (auto simp: e_def min_max_bool inside_def)
  qed
  have up: "e ! (off + (h + i)) = (\<not> inside (h - a) b i)" if "i < h" for i
  proof -
    have i: "h - i - 1 < h" "2 * h - (h - i - 1) - 1 = h + i" using that by simp_all
    show ?thesis
      using exec_rswap_nth(2) [OF assms(3) i(1)] a [OF i(1)] b [OF that] that
      by (auto simp: e_def min_max_bool inside_def i(2))
  qed
  have "bitonic h (\<lambda>i. e ! (off + q * h + i))" if "q < 2" for q
  proof (cases "q = 0")
    case True
    then show ?thesis using low bitonic_inside by (simp cong: bitonic_cong)
  next
    case False
    then have "q = 1" using that by simp
    then show ?thesis using up bitonic_outside by (simp add: add.assoc cong: bitonic_cong)
  qed
  moreover have "e ! (off + j)" if ij: "i div h < j div h" "j < 2 * h" "e ! (off + i)" for i j
  proof -
    have "j div h < 2" using ij(2) assms(4) by (simp add: less_mult_imp_div_less)
    then have "i div h = 0" "j div h = 1" using ij(1) by auto
    then have "i < h" using assms(4) by (auto simp: div_eq_0_iff)
    moreover have "h \<le> j" using \<open>j div h = 1\<close> div_less [of j h] by (cases "j < h") auto
    moreover from this have "j = h + (j - h)" "j - h < h" using ij(2) by auto
    ultimately show ?thesis
      using low [of i] up [of "j - h"] ij(3) by (auto simp: inside_def)
  qed
  ultimately show ?thesis using assms(4) by (simp add: leveled_def e_def)
qed

text \<open>
  What a slave of the master/slave versions does with a task: a swap or rswap of the whole
  segment, then swaps of ever smaller blocks.
\<close>

definition task_ops :: "nat \<Rightarrow> nat \<Rightarrow> bool \<Rightarrow> ops" where
  "task_ops beg fin torswap =
     (if torswap then rswap_ops beg (fin - beg) else swap_ops beg (fin - beg)) @
     down_ops beg (fin - beg) (fin - beg)"

lemma two_power: "0 < k \<Longrightarrow> \<exists>h. (2 :: nat) ^ k = 2 * h \<and> h = 2 ^ (k - 1) \<and> 0 < h"
  by (cases k) auto

lemma task_ops_within:
  assumes "0 < k" "fin = beg + 2 ^ k"
  shows "ops_within beg fin (task_ops beg fin torswap)"
  using two_power [OF assms(1)] swap_ops_within rswap_ops_within down_ops_within [of k k beg]
  by (auto simp: task_ops_def assms(2))

lemma seg_map: "seg lo n (map f xs) = map f (seg lo n xs)"
  by (simp add: seg_def take_map drop_map)

lemma sorted_map_mono: "mono f \<Longrightarrow> sorted xs \<Longrightarrow> sorted (map f xs)"
  by (auto simp: sorted_iff_nth_mono monoD)

lemma exec_seg_sorted:
  fixes xs :: "'a::linorder list"
  assumes "ops_within lo (length xs) es"
    "\<And>c. sorted (seg beg n (exec es (map (\<lambda>x. c < x) xs)))"
  shows "sorted (seg beg n (exec es xs))"
  by (rule sorted_by_thresholds)
    (use assms in \<open>simp add: seg_map [symmetric] exec_map [OF mono_above, symmetric]\<close>)

lemma rswap_task_sorts:
  assumes "sorted (seg beg (2 ^ k) xs)" "sorted (seg (beg + 2 ^ k) (2 ^ k) xs)"
    "beg + 2 ^ Suc k \<le> length xs"
  shows "sorted (seg beg (2 ^ Suc k)
    (exec (rswap_ops beg (2 ^ Suc k) @ down_ops beg (2 ^ Suc k) (2 ^ Suc k)) xs))"
proof (rule exec_seg_sorted)
  have "ops_within beg (beg + 2 ^ Suc k) (rswap_ops beg (2 ^ Suc k) @ down_ops beg (2 ^ Suc k) (2 ^ Suc k))"
    using rswap_ops_within [of beg "2 ^ k"] down_ops_within [of "Suc k" "Suc k" beg] by simp
  then show "ops_within beg (length xs) (rswap_ops beg (2 ^ Suc k) @ down_ops beg (2 ^ Suc k) (2 ^ Suc k))"
    using ops_within_mono assms(3) by blast
  fix c
  let ?xs = "map (\<lambda>x. c < x) xs"
  let ?ys = "exec (rswap_ops beg (2 * 2 ^ k)) ?xs"
  have "leveled beg (2 * 2 ^ k) (2 ^ k) ?ys"
    using assms by (intro rswap_leveled) (simp_all add: seg_map sorted_map_mono mono_above)
  from down_levels [of beg "Suc k" k ?ys] this assms(3)
  have "leveled beg (2 ^ Suc k) 1 (exec (down_ops beg (2 ^ Suc k) (2 ^ Suc k)) ?ys)" by simp
  from leveled_sorted [OF this] assms(3)
  show "sorted (seg beg (2 ^ Suc k)
      (exec (rswap_ops beg (2 ^ Suc k) @ down_ops beg (2 ^ Suc k) (2 ^ Suc k)) ?xs))"
    by (simp add: exec_append)
qed

lemma task_sorts:
  assumes "beg + 2 ^ Suc k \<le> length xs" "fin = beg + 2 ^ Suc k" "k = 0 \<or> torswap"
    "sorted (seg beg (2 ^ k) xs)" "sorted (seg (beg + 2 ^ k) (2 ^ k) xs)"
  shows "sorted (seg beg (2 ^ Suc k) (exec (task_ops beg fin torswap) xs))"
proof -
  have "swap_ops beg 2 = rswap_ops beg 2" by (simp add: swap_ops_def rswap_ops_def)
  then have "task_ops beg fin torswap =
      rswap_ops beg (2 ^ Suc k) @ down_ops beg (2 ^ Suc k) (2 ^ Suc k)"
    using assms(2,3) by (auto simp: task_ops_def)
  then show ?thesis using rswap_task_sorts [OF assms(4,5,1)] by simp
qed

section \<open>The other routines\<close>

lemma swap_exec: "off + 2 * n \<le> length xs \<Longrightarrow> swap off (2 * n) xs = Some (exec (swap_ops off (2 * n)) xs)"
  unfolding swap_def
  by (rule run_ops_exec [of off]) (use swap_ops_within [of off n] in \<open>auto simp: ops_within_def\<close>)

lemma reverse_from_run:
  assumes "off + len \<le> length xs" "m \<le> len div 2"
  shows "\<exists>ys. reverse_from off len [0..<m] xs = Some ys \<and> length ys = length xs \<and>
    (\<forall>k. ys ! k =
       (if off \<le> k \<and> k < off + len \<and> (k - off < m \<or> len - 1 - (k - off) < m)
        then xs ! (off + (len - 1 - (k - off))) else xs ! k))"
proof -
  have app: "reverse_from off len (is @ js) xs =
      Option.bind (reverse_from off len is xs) (reverse_from off len js)" for "is" js and xs :: "'a list"
    by (induction "is" arbitrary: xs) (simp_all add: Let_def)
  show ?thesis
    using assms(2)
  proof (induction m)
    case (Suc m)
    then obtain ys where ys: "reverse_from off len [0..<m] xs = Some ys" "length ys = length xs"
        "\<And>k. ys ! k = (if off \<le> k \<and> k < off + len \<and> (k - off < m \<or> len - 1 - (k - off) < m)
          then xs ! (off + (len - 1 - (k - off))) else xs ! k)"
      by auto
    have m: "m < len div 2" "off + m < length xs" "off + (len - m - 1) < length xs"
      using Suc.prems assms(1) by auto
    have here: "ys ! (off + m) = xs ! (off + m)" "ys ! (off + (len - m - 1)) = xs ! (off + (len - m - 1))"
      using m(1) by (auto simp: ys(3))
    have "reverse_from off len [0..<Suc m] xs =
        Some (ys[off + m := xs ! (off + (len - m - 1)), off + (len - m - 1) := xs ! (off + m)])"
      using m ys(1,2) here by (simp add: app Let_def)
    moreover have "ys[off + m := xs ! (off + (len - m - 1)), off + (len - m - 1) := xs ! (off + m)] ! k =
        (if off \<le> k \<and> k < off + len \<and> (k - off < Suc m \<or> len - 1 - (k - off) < Suc m)
         then xs ! (off + (len - 1 - (k - off))) else xs ! k)" for k
    proof (cases "k = off + m \<or> k = off + (len - m - 1)")
      case True
      then show ?thesis
        using m ys(2) by (auto simp: nth_update_if add.commute [of len])
    next
      case False
      have "k - off < Suc m \<longleftrightarrow> k - off < m" "len - 1 - (k - off) < Suc m \<longleftrightarrow> len - 1 - (k - off) < m"
        if "off \<le> k" "k < off + len"
        using False that m(1) by auto
      then show ?thesis using False by (auto simp: nth_update_if ys(3))
    qed
    ultimately show ?case using ys(2) by auto
  qed (auto intro: exI [of _ xs])
qed

lemma reverse_run:
  assumes "off + len \<le> length xs"
  shows "reverse off len xs = Some (take off xs @ rev (seg off len xs) @ drop (off + len) xs)"
proof -
  obtain ys where ys: "reverse off len xs = Some ys" "length ys = length xs"
      "\<And>k. ys ! k = (if off \<le> k \<and> k < off + len \<and>
          (k - off < len div 2 \<or> len - 1 - (k - off) < len div 2)
        then xs ! (off + (len - 1 - (k - off))) else xs ! k)"
    using reverse_from_run [OF assms order_refl] by (auto simp: reverse_def)
  have "ys = take off xs @ rev (seg off len xs) @ drop (off + len) xs"
  proof (rule nth_equalityI)
    show len: "length ys = length (take off xs @ rev (seg off len xs) @ drop (off + len) xs)"
      using assms ys(2) by simp
    fix k assume "k < length ys"
    have mid: "off + (len - 1 - (k - off)) = k"
      if "off \<le> k" "k < off + len" "\<not> k - off < len div 2" "\<not> len - 1 - (k - off) < len div 2"
      using that by auto
    show "ys ! k = (take off xs @ rev (seg off len xs) @ drop (off + len) xs) ! k"
    proof (cases "off \<le> k \<and> k < off + len")
      case True
      then have "(take off xs @ rev (seg off len xs) @ drop (off + len) xs) ! k =
          xs ! (off + (len - 1 - (k - off)))"
        using assms by (auto simp: nth_append rev_nth seg_def)
      moreover have "ys ! k = xs ! (off + (len - 1 - (k - off)))"
        using True mid unfolding ys(3) by metis
      ultimately show ?thesis by simp
    next
      case False
      then show ?thesis
        using assms \<open>k < length ys\<close> ys(2) by (auto simp: ys(3) nth_append)
    qed
  qed
  with ys(1) show ?thesis by simp
qed

section \<open>Rounding up to a power of two\<close>

definition smeared :: "nat \<Rightarrow> u64 \<Rightarrow> u64 \<Rightarrow> bool" where
  "smeared n v w \<longleftrightarrow> (\<forall>i. bit w i \<longleftrightarrow> (\<exists>j. i \<le> j \<and> j < i + n \<and> bit v j))"

lemma smeared_step: "smeared n v w \<Longrightarrow> smeared (n + n) v (w OR drop_bit n w)"
proof -
  assume w: "smeared n v w"
  have "bit (w OR drop_bit n w) i \<longleftrightarrow> (\<exists>j. i \<le> j \<and> j < i + (n + n) \<and> bit v j)" for i
  proof -
    have "bit (w OR drop_bit n w) i \<longleftrightarrow> bit w i \<or> bit w (n + i)" by (simp add: bit_simps)
    also have "\<dots> \<longleftrightarrow> (\<exists>j. i \<le> j \<and> j < i + n \<and> bit v j) \<or>
        (\<exists>j. n + i \<le> j \<and> j < n + i + n \<and> bit v j)"
      using w by (simp add: smeared_def)
    also have "\<dots> \<longleftrightarrow> (\<exists>j. i \<le> j \<and> j < i + (n + n) \<and> bit v j)"
      by (smt (verit) add.assoc add.commute le_add1 le_less_linear less_le_trans nat_add_left_cancel_less
          order_trans trans_less_add1)
    finally show ?thesis .
  qed
  then show ?thesis by (simp add: smeared_def)
qed

lemma smeared_twice: "smeared n v w \<Longrightarrow> m = n + n \<Longrightarrow> smeared m v (w OR drop_bit n w)"
  using smeared_step by simp

lemma roundup64_smeared: "\<exists>w. smeared 64 (val - 1) w \<and> roundup64 val = w + 1"
proof -
  have "smeared 1 (val - 1) (val - 1)" by (auto simp: smeared_def le_less_Suc_eq)
  note twice = smeared_twice [where n = 1 and m = 2, OF this] smeared_twice [where n = 2 and m = 4]
    smeared_twice [where n = 4 and m = 8] smeared_twice [where n = 8 and m = 16]
    smeared_twice [where n = 16 and m = 32] smeared_twice [where n = 32 and m = 64]
  show ?thesis
    unfolding roundup64_def Let_def
    by (intro exI conjI, rule twice(6), rule twice(5), rule twice(4), rule twice(3), rule twice(2),
        rule twice(1)) simp_all
qed

lemma unat_highest_bit:
  fixes v :: u64
  assumes "2 ^ m \<le> unat v" "unat v < 2 ^ Suc m"
  shows "bit v m" "\<And>j. bit v j \<Longrightarrow> j \<le> m" "m < 64"
proof -
  have bits: "bit v j \<longleftrightarrow> odd (unat v div 2 ^ j)" for j
    using bit_unsigned_iff [of v j, where 'a = nat] by (simp add: bit_iff_odd)
  have "unat v div 2 ^ m = 1" using assms by (intro div_nat_eqI) simp_all
  then show "bit v m" by (simp add: bits)
  then show "m < 64" using bit_imp_le_length [of v m] by simp
  fix j assume j: "bit v j"
  show "j \<le> m"
  proof (rule ccontr)
    assume "\<not> j \<le> m"
    then have "(2 :: nat) ^ Suc m \<le> 2 ^ j" by (intro power_increasing) simp_all
    with assms(2) have "unat v div 2 ^ j = 0" by simp
    with j show False by (simp add: bits)
  qed
qed

text \<open>The result is the least power of two that is not below the argument.\<close>

lemma roundup64_power:
  assumes "2 ^ m < unat val" "unat val \<le> 2 ^ Suc m" "m < 63"
  shows "unat (roundup64 val) = 2 ^ Suc m"
proof -
  obtain w where w: "smeared 64 (val - 1) w" "roundup64 val = w + 1"
    using roundup64_smeared by blast
  have v: "unat (val - 1) = unat val - 1"
    using assms(1) by (intro unat_minus_one) auto
  then have "2 ^ m \<le> unat (val - 1)" "unat (val - 1) < 2 ^ Suc m" using assms(1,2) by simp_all
  note top = unat_highest_bit [OF this]
  have "w = mask (Suc m)"
  proof (rule bit_word_eqI)
    fix i
    have "bit w i \<longleftrightarrow> (\<exists>j. i \<le> j \<and> j < i + 64 \<and> bit (val - 1) j)"
      using w(1) by (simp add: smeared_def)
    also have "\<dots> \<longleftrightarrow> i \<le> m"
    proof
      assume "\<exists>j. i \<le> j \<and> j < i + 64 \<and> bit (val - 1) j"
      then show "i \<le> m" using top(2) by (meson order_trans)
    next
      assume "i \<le> m"
      moreover have "m < i + 64" using assms(3) by simp
      ultimately show "\<exists>j. i \<le> j \<and> j < i + 64 \<and> bit (val - 1) j" using top(1) by blast
    qed
    finally have "bit w i \<longleftrightarrow> i \<le> m" .
    then show "bit w i = bit (mask (Suc m) :: u64) i"
      using assms(3) by (simp add: bit_mask_iff less_Suc_eq_le) linarith
  qed
  then have "roundup64 val = 2 ^ Suc m" by (simp add: w(2) mask_eq_exp_minus_1)
  then have "roundup64 val = of_nat (2 ^ Suc m)" by simp
  moreover have "(2 :: nat) ^ Suc m < 2 ^ 64"
    using assms(3) by (intro power_strict_increasing) simp_all
  ultimately show ?thesis by (simp only: unat_of_nat take_bit_nat_eq_self_iff len_of_numeral_defs)
    (simp add: take_bit_nat_eq_self)
qed

lemma roundup64_one: "roundup64 1 = 1"
  by (simp add: roundup64_def)

lemma roundup64_least:
  assumes "1 \<le> unat val" "unat val \<le> 2 ^ 63"
  shows "\<exists>k. unat (roundup64 val) = 2 ^ k \<and> unat val \<le> 2 ^ k \<and> (\<forall>j. unat val \<le> 2 ^ j \<longrightarrow> k \<le> j)"
proof (cases "unat val = 1")
  case True
  then have "val = 1" by (metis unsigned_1 unsigned_word_eqI)
  then show ?thesis by (intro exI [of _ 0]) (simp add: roundup64_one)
next
  case False
  define k where "k = (LEAST k. unat val \<le> 2 ^ k)"
  have k: "unat val \<le> 2 ^ k" "\<And>j. unat val \<le> 2 ^ j \<Longrightarrow> k \<le> j" "k \<le> 63"
    unfolding k_def using LeastI [of "\<lambda>k. unat val \<le> 2 ^ k", OF assms(2)]
      Least_le [of "\<lambda>k. unat val \<le> 2 ^ k"] assms(2) by blast+
  have "k \<noteq> 0"
  proof
    assume "k = 0"
    then have "unat val \<le> 1" using k(1) by (metis power_0)
    then show False using assms(1) False by linarith
  qed
  then obtain m where m: "k = Suc m" by (cases k) auto
  then have "2 ^ m < unat val" using k(2) [of m] by (cases "unat val \<le> 2 ^ m") auto
  then have "unat (roundup64 val) = 2 ^ k"
    using roundup64_power [of m val] k m by simp
  then show ?thesis using k by blast
qed

section \<open>Checking and filling\<close>

lemma check_from_None:
  assumes "len \<le> length xs" "0 < i"
  shows "check_from i len xs = None \<longleftrightarrow> (\<forall>j. i \<le> j \<and> j < len \<longrightarrow> xs ! (j - 1) \<le> xs ! j)"
  using assms
proof (induction "len - i" arbitrary: i)
  case 0
  then show ?case by (subst check_from.simps) auto
next
  case (Suc n)
  then have i: "i < len" by simp
  have "check_from (i + 1) len xs = None \<longleftrightarrow> (\<forall>j. i + 1 \<le> j \<and> j < len \<longrightarrow> xs ! (j - 1) \<le> xs ! j)"
    using Suc by simp
  moreover have "(\<forall>j. i \<le> j \<and> j < len \<longrightarrow> xs ! (j - 1) \<le> xs ! j) \<longleftrightarrow>
      xs ! (i - 1) \<le> xs ! i \<and> (\<forall>j. i + 1 \<le> j \<and> j < len \<longrightarrow> xs ! (j - 1) \<le> xs ! j)"
    using i by (metis Suc_eq_plus1 le_eq_less_or_eq less_Suc_eq_le not_less_eq)
  ultimately show ?case
    using i by (subst check_from.simps) auto
qed

lemma check_sorted:
  assumes "len \<le> length xs"
  shows "check xs len = None \<longleftrightarrow> sorted (take len xs)"
proof -
  have "(\<forall>j. 1 \<le> j \<and> j < len \<longrightarrow> xs ! (j - 1) \<le> xs ! j) \<longleftrightarrow>
      (\<forall>j. Suc j < len \<longrightarrow> xs ! j \<le> xs ! Suc j)"
  proof (intro iffI allI impI)
    fix j assume "\<forall>j. 1 \<le> j \<and> j < len \<longrightarrow> xs ! (j - 1) \<le> xs ! j" "Suc j < len"
    then show "xs ! j \<le> xs ! Suc j" by (auto dest: spec [of _ "Suc j"])
  next
    fix j assume "\<forall>j. Suc j < len \<longrightarrow> xs ! j \<le> xs ! Suc j" "1 \<le> j \<and> j < len"
    then show "xs ! (j - 1) \<le> xs ! j" by (auto dest: spec [of _ "j - 1"])
  qed
  then show ?thesis
    using assms check_from_None [OF assms, of 1]
    by (simp add: check_def sorted_iff_nth_Suc)
qed

lemma fill_from_run:
  assumes "off + n \<le> length xs" "i \<le> n"
  shows "fill_from off v [i..<n] xs = Some (take (off + i) xs @ replicate (n - i) v @ drop (off + n) xs)"
  using assms
proof (induction "n - i" arbitrary: i xs)
  case (Suc k)
  then have "i < n" "off + i < length xs" by simp_all
  moreover have "take (off + Suc i) (xs[off + i := v]) = take (off + i) xs @ [v]"
    using \<open>off + i < length xs\<close> by (simp add: take_Suc_conv_app_nth)
  moreover have "replicate (n - i) v = v # replicate (n - Suc i) v"
    using \<open>i < n\<close> by (simp add: Suc_diff_Suc replicate_Suc [symmetric] del: replicate_Suc)
  ultimately show ?case
    using Suc.hyps(1) [of "Suc i" "xs[off + i := v]"] Suc.hyps(2) Suc.prems
    by (simp add: upt_conv_Cons)
qed simp

section \<open>Properties\<close>

text \<open>
  C18: A slave's task on two adjacent sorted runs of equal length: every access stays in the
  array, the segment ends up sorted, the array keeps its elements, and nothing outside the
  segment is touched.
\<close>

theorem task_merges:
  assumes "sorted (seg beg (2 ^ k) xs)" "sorted (seg (beg + 2 ^ k) (2 ^ k) xs)"
    "beg + 2 ^ Suc k \<le> length xs" "k = 0 \<or> torswap"
  shows "\<exists>ys. run_ops (task_ops beg (beg + 2 ^ Suc k) torswap) xs = Some ys \<and>
    sorted (seg beg (2 ^ Suc k) ys) \<and> mset ys = mset xs \<and>
    (\<forall>i. i < beg \<or> beg + 2 ^ Suc k \<le> i \<longrightarrow> ys ! i = xs ! i)"
proof -
  let ?es = "task_ops beg (beg + 2 ^ Suc k) torswap"
  have within: "ops_within beg (beg + 2 ^ Suc k) ?es"
    by (rule task_ops_within [of "Suc k"]) simp_all
  then have inside: "ops_within beg (length xs) ?es" using ops_within_mono assms(3) by blast
  show ?thesis
    using run_ops_exec [OF inside] mset_exec [OF inside] exec_outside [OF within]
      task_sorts [OF assms(3) refl assms(4,1,2)] by blast
qed

theorem task_merges_witness:
  "\<exists>ys. run_ops (task_ops 1 (1 + 2 ^ Suc 1) True) [9 :: nat, 3, 7, 2, 5, 0] = Some ys \<and>
    sorted (seg 1 (2 ^ Suc 1) ys) \<and> mset ys = mset [9, 3, 7, 2, 5, 0] \<and>
    (\<forall>i. i < 1 \<or> 1 + 2 ^ Suc 1 \<le> i \<longrightarrow> ys ! i = [9, 3, 7, 2, 5, 0] ! i)"
  by (rule task_merges) (simp_all add: seg_def)

text \<open>Reversing a segment reverses it, in place and within the array.\<close>

theorem reverse_reverses:
  assumes "off + len \<le> length xs"
  shows "reverse off len xs = Some (take off xs @ rev (seg off len xs) @ drop (off + len) xs)"
  using assms by (rule reverse_run)

theorem reverse_reverses_witness:
  "reverse 1 3 [1 :: nat, 2, 3, 4, 5] =
    Some (take 1 [1, 2, 3, 4, 5] @ rev (seg 1 3 [1, 2, 3, 4, 5]) @ drop (1 + 3) [1, 2, 3, 4, 5])"
  by (rule reverse_reverses) simp

text \<open>C33: The check finds no error exactly when the first elements are sorted.\<close>

theorem check_finds_disorder:
  assumes "len \<le> length xs"
  shows "check xs len = None \<longleftrightarrow> sorted (take len xs)"
  using assms by (rule check_sorted)

theorem check_finds_disorder_witness:
  "(check [1 :: nat, 2, 2, 1] 3 = None \<longleftrightarrow> sorted (take 3 [1 :: nat, 2, 2, 1])) \<and>
   (check [1 :: nat, 2, 2, 1] 4 = None \<longleftrightarrow> sorted (take 4 [1 :: nat, 2, 2, 1]))"
  by (intro conjI; rule check_finds_disorder) simp_all

text \<open>C: Filling overwrites exactly the first elements from an offset.\<close>

theorem fill_fills:
  assumes "off + len \<le> length xs"
  shows "fill off len v xs = Some (take off xs @ replicate len v @ drop (off + len) xs)"
  using fill_from_run [OF assms, of 0 v] by (simp add: fill_def)

theorem fill_fills_witness:
  "fill 1 2 7 [1 :: nat, 2, 3, 4] = Some (take 1 [1, 2, 3, 4] @ replicate 2 7 @ drop (1 + 2) [1, 2, 3, 4])"
  by (rule fill_fills) simp

text \<open>
  C34: Rounding up gives the least power of two that is not smaller, for every value from 1 to
  \<open>2 ^ 63\<close>.
\<close>

theorem roundup64_least_power:
  assumes "1 \<le> unat val" "unat val \<le> 2 ^ 63"
  shows "\<exists>k. unat (roundup64 val) = 2 ^ k \<and> unat val \<le> 2 ^ k \<and> (\<forall>j. unat val \<le> 2 ^ j \<longrightarrow> k \<le> j)"
  using assms by (rule roundup64_least)

theorem roundup64_least_power_witness:
  "\<exists>k. unat (roundup64 100) = 2 ^ k \<and> unat (100 :: u64) \<le> 2 ^ k \<and>
     (\<forall>j. unat (100 :: u64) \<le> 2 ^ j \<longrightarrow> k \<le> j)"
  by (rule roundup64_least_power) simp_all

end
