(* ===== verification/Queues.thy ===== *)
theory Queues
  imports Prelude
begin

text \<open>
  Message queues. The parallel programs exchange messages over a queue that is chosen when they
  are compiled (Virtual-Link, CAF, ZeroMQ, \<^verbatim>\<open>boost::lockfree::queue\<close>) and whose code is not
  in the repository; the models take its operations as the parameter \<open>Q\<close>. The locale
  \<open>message_queue\<close> is what the programs rely on: no message is lost, doubled or made up, and an
  empty answer means the queue is empty. Order is not promised. A bounded queue may refuse a
  message. The interpretation is \<^verbatim>\<open>std::queue\<close>, which the sequential programs use.
\<close>

record ('q, 'm) queue_ops =
  q_empty :: 'q
  q_push :: "'m \<Rightarrow> 'q \<Rightarrow> 'q option"
  q_pop :: "'q \<Rightarrow> ('m \<times> 'q) option"

locale message_queue =
  fixes Q :: "('q, 'm) queue_ops"
    and contents :: "'q \<Rightarrow> 'm multiset"
  assumes contents_empty: "contents (q_empty Q) = {#}"
    and push_contents: "q_push Q m q = Some q' \<Longrightarrow> contents q' = add_mset m (contents q)"
    and pop_contents: "q_pop Q q = Some (m, q') \<Longrightarrow> contents q = add_mset m (contents q')"
    and pop_None: "q_pop Q q = None \<Longrightarrow> contents q = {#}"
begin

lemma pop_empty: "contents q = {#} \<longleftrightarrow> q_pop Q q = None"
  by (cases "q_pop Q q") (auto dest: pop_contents pop_None)

lemma popped_was_in: "q_pop Q q = Some (m, q') \<Longrightarrow> m \<in># contents q"
  by (simp add: pop_contents)

lemma size_push: "q_push Q m q = Some q' \<Longrightarrow> size (contents q') = Suc (size (contents q))"
  by (simp add: push_contents)

lemma size_pop: "q_pop Q q = Some (m, q') \<Longrightarrow> size (contents q) = Suc (size (contents q'))"
  by (simp add: pop_contents)

end

text \<open>A queue that allocates room for every message never refuses one.\<close>

locale unbounded_queue = message_queue +
  assumes push_total: "q_push Q m q \<noteq> None"
begin

lemma push_succeeds: "\<exists>q'. q_push Q m q = Some q' \<and> contents q' = add_mset m (contents q)"
  using push_total [of m q] push_contents by blast

end

text \<open>\<^verbatim>\<open>std::queue\<close>: the list of its elements, front first.\<close>

definition queue_emplace :: "'m \<Rightarrow> 'm list \<Rightarrow> 'm list" where
  "queue_emplace m q = q @ [m]"

definition queue_take :: "'m list \<Rightarrow> ('m \<times> 'm list) option" where
  "queue_take q = (case q of [] \<Rightarrow> None | m # q' \<Rightarrow> Some (m, q'))"

definition std_queue :: "('m list, 'm) queue_ops" where
  "std_queue =
     \<lparr>q_empty = [], q_push = \<lambda>m q. Some (queue_emplace m q), q_pop = queue_take\<rparr>"

interpretation std: unbounded_queue std_queue mset
  by unfold_locales (auto simp: std_queue_def queue_emplace_def queue_take_def split: list.splits)

text \<open>A queue with a capacity, as the Virtual-Link and CAF queues have one.\<close>

definition bounded_queue :: "nat \<Rightarrow> ('m list, 'm) queue_ops" where
  "bounded_queue cap =
     std_queue\<lparr>q_push := \<lambda>m q. if length q < cap then Some (queue_emplace m q) else None\<rparr>"

interpretation bounded: message_queue "bounded_queue cap" mset for cap
  by unfold_locales
    (auto simp: bounded_queue_def std_queue_def queue_emplace_def queue_take_def
      split: list.splits if_splits)

end
