(* ===== verification/Bitonic_Boost.thy ===== *)
theory Bitonic_Boost
  imports Bitonic_Ops Queues
begin

text \<open>
  The master/slave bitonic sort of \<^verbatim>\<open>apps/bitonic/boost.cpp\<close>: the master hands out
  segments, slaves sort them and hand them back, and the master pairs segments that came back.
  The threads are interleaved at single queue operations and single compare-and-exchange
  operations on the shared array. The theory shows that in every interleaving no access leaves
  the array and that the array is sorted, and still has the same elements, when the master ends
  its loop.
\<close>

section \<open>State\<close>

record task =
  beg :: nat
  fin :: nat
  torswap :: bool

text \<open>
  A slave polls its queue, works through the exchanges of a task, pushes the task, looks at the
  flag of the master. \<open>Broken\<close> is an access outside the array.
\<close>

datatype slave = Polling | Working task ops | Returning task | Checking | Stopped | Broken

text \<open>The master's place in \<open>sort\<close>: the first feed loop, the two halves of the main loop.\<close>

datatype master = Feeding | Pairing | Sending task | Refilling | Finished | Overrun

record ('q, 'a) sorter =
  base :: "'a list"
  to_slave :: 'q
  to_master :: 'q
  slaves :: "slave list"
  pcount :: "byte list"
  feed_in :: nat
  on_the_fly :: nat
  master :: master
  lock_done :: bool

definition MAX_ON_THE_FLY :: nat where "MAX_ON_THE_FLY = 128"

section \<open>Steps\<close>

text \<open>The results of the pushes are ignored: a message a queue refuses is lost.\<close>

definition push_ignoring :: "('q, 'm) queue_ops \<Rightarrow> 'm \<Rightarrow> 'q \<Rightarrow> 'q" where
  "push_ignoring Q m q = (case q_push Q m q of None \<Rightarrow> q | Some q' \<Rightarrow> q')"

definition feed :: "('q, task) queue_ops \<Rightarrow> master \<Rightarrow> ('q, 'a) sorter \<Rightarrow> ('q, 'a) sorter" where
  "feed Q next_pc s =
     s\<lparr>to_slave := push_ignoring Q \<lparr>beg = feed_in s, fin = feed_in s + 2, torswap = False\<rparr>
                     (to_slave s),
       feed_in := feed_in s + 2, on_the_fly := on_the_fly s + 1, master := next_pc\<rparr>"

text \<open>\<open>beg_tmp & ~((len_to_connect << 1) - 1)\<close>\<close>

definition pair_begin :: "nat \<Rightarrow> nat \<Rightarrow> nat" where
  "pair_begin b l = nat (int b AND NOT (int (2 * l) - 1))"

definition pairing :: "task \<Rightarrow> ('q, 'a) sorter \<Rightarrow> ('q, 'a) sorter" where
  "pairing t s =
     (let l = fin t - beg t in
      if l = length (base s) then s\<lparr>master := Finished, lock_done := True\<rparr>
      else if length (pcount s) \<le> beg t then s\<lparr>master := Overrun\<rparr>
      else
        let pcount' = (pcount s)[beg t := pcount s ! beg t + 1];
            idx_1st = pair_begin (beg t) l;
            idx_2nd = idx_1st + l
        in if length pcount' \<le> idx_2nd then s\<lparr>master := Overrun\<rparr>
           else if pcount' ! idx_1st = pcount' ! idx_2nd then
             s\<lparr>pcount := pcount',
               master := Sending \<lparr>beg = idx_1st, fin = idx_2nd + l, torswap = True\<rparr>\<rparr>
           else s\<lparr>pcount := pcount', on_the_fly := on_the_fly s - 1, master := Refilling\<rparr>)"

definition master_step :: "('q, task) queue_ops \<Rightarrow> ('q, 'a) sorter \<Rightarrow> ('q, 'a) sorter" where
  "master_step Q s =
     (case master s of
        Feeding \<Rightarrow>
          if feed_in s < length (base s)
          then feed Q (if MAX_ON_THE_FLY \<le> on_the_fly s + 1 then Pairing else Feeding) s
          else s\<lparr>master := Pairing\<rparr>
      | Pairing \<Rightarrow>
          (case q_pop Q (to_master s) of
             None \<Rightarrow> s\<lparr>master := Refilling\<rparr>
           | Some (t, q) \<Rightarrow> pairing t (s\<lparr>to_master := q\<rparr>))
      | Sending t \<Rightarrow> s\<lparr>to_slave := push_ignoring Q t (to_slave s), master := Refilling\<rparr>
      | Refilling \<Rightarrow>
          if feed_in s < length (base s) \<and> on_the_fly s < MAX_ON_THE_FLY
          then feed Q Pairing s
          else s\<lparr>master := Pairing\<rparr>
      | Finished \<Rightarrow> s
      | Overrun \<Rightarrow> s)"

definition slave_step ::
  "('q, task) queue_ops \<Rightarrow> nat \<Rightarrow> ('q, 'a::linorder) sorter \<Rightarrow> ('q, 'a) sorter" where
  "slave_step Q i s =
     (case slaves s ! i of
        Polling \<Rightarrow>
          (case q_pop Q (to_slave s) of
             None \<Rightarrow> s\<lparr>slaves := (slaves s)[i := Checking]\<rparr>
           | Some (t, q) \<Rightarrow>
               s\<lparr>to_slave := q,
                 slaves := (slaves s)[i := Working t (task_ops (beg t) (fin t) (torswap t))]\<rparr>)
      | Working t [] \<Rightarrow> s\<lparr>slaves := (slaves s)[i := Returning t]\<rparr>
      | Working t (e # es) \<Rightarrow>
          if fst e < length (base s) \<and> snd e < length (base s)
          then s\<lparr>base := exchange (fst e) (snd e) (base s), slaves := (slaves s)[i := Working t es]\<rparr>
          else s\<lparr>slaves := (slaves s)[i := Broken]\<rparr>
      | Returning t \<Rightarrow>
          s\<lparr>to_master := push_ignoring Q t (to_master s), slaves := (slaves s)[i := Checking]\<rparr>
      | Checking \<Rightarrow> s\<lparr>slaves := (slaves s)[i := (if lock_done s then Stopped else Polling)]\<rparr>
      | Stopped \<Rightarrow> s
      | Broken \<Rightarrow> s)"

definition sort_start :: "('q, task) queue_ops \<Rightarrow> nat \<Rightarrow> 'a list \<Rightarrow> ('q, 'a) sorter" where
  "sort_start Q k xs =
     \<lparr>base = xs, to_slave = q_empty Q, to_master = q_empty Q, slaves = replicate k Polling,
      pcount = replicate (length xs) 0, feed_in = 0, on_the_fly = 0, master = Feeding,
      lock_done = False\<rparr>"

inductive sort_reach ::
  "('q, task) queue_ops \<Rightarrow> nat \<Rightarrow> 'a::linorder list \<Rightarrow> ('q, 'a) sorter \<Rightarrow> bool"
  for Q k xs where
  sort_init: "sort_reach Q k xs (sort_start Q k xs)"
| sort_master: "sort_reach Q k xs s \<Longrightarrow> sort_reach Q k xs (master_step Q s)"
| sort_slave: "sort_reach Q k xs s \<Longrightarrow> i < length (slaves s) \<Longrightarrow>
    sort_reach Q k xs (slave_step Q i s)"

section \<open>Segments and jobs\<close>

text \<open>
  A job is a segment that was handed out, with the exchanges still to be done on it; a parked
  segment is back at the master and waits for its other half. Jobs and parked segments tile the
  part of the array that was fed in.
\<close>

type_synonym job = "task \<times> ops"

definition aligned :: "nat \<Rightarrow> task \<Rightarrow> bool" where
  "aligned k t \<longleftrightarrow> 0 < k \<and> fin t = beg t + 2 ^ k \<and> 2 ^ k dvd beg t"

definition covers :: "task \<Rightarrow> nat \<Rightarrow> nat" where
  "covers t x = (if beg t \<le> x \<and> x < fin t then 1 else 0)"

definition cover :: "job multiset \<Rightarrow> task multiset \<Rightarrow> nat \<Rightarrow> nat" where
  "cover J P x = (\<Sum>t \<in># image_mset fst J + P. covers t x)"

definition job_ok :: "'a::linorder list \<Rightarrow> job \<Rightarrow> bool" where
  "job_ok xs j \<longleftrightarrow>
     ops_within (beg (fst j)) (fin (fst j)) (snd j) \<and>
     sorted (seg (beg (fst j)) (fin (fst j) - beg (fst j)) (exec (snd j) xs))"

text \<open>Two parked halves of one segment would have been joined.\<close>

definition unpaired :: "nat \<Rightarrow> task multiset \<Rightarrow> bool" where
  "unpaired n P \<longleftrightarrow>
     (\<forall>t \<in># P. fin t - beg t < n) \<and>
     (\<forall>t \<in># P. \<forall>u \<in># P. beg u = fin t \<longrightarrow> fin u - beg u = fin t - beg t \<longrightarrow>
        \<not> 2 * (fin t - beg t) dvd beg t)"

definition sorting ::
  "'a::linorder list \<Rightarrow> 'a list \<Rightarrow> job multiset \<Rightarrow> task multiset \<Rightarrow> nat \<Rightarrow> byte list \<Rightarrow> bool" where
  "sorting xs0 xs J P f pc \<longleftrightarrow>
     mset xs = mset xs0 \<and> length pc = length xs \<and> even f \<and> f \<le> length xs \<and>
     (\<forall>x. cover J P x = (if x < f then 1 else 0)) \<and>
     (\<forall>j \<in># J. job_ok xs j \<and> aligned (Suc (unat (pc ! beg (fst j)))) (fst j)) \<and>
     (\<forall>t \<in># P. sorted (seg (beg t) (fin t - beg t) xs) \<and> aligned (unat (pc ! beg t)) t) \<and>
     (\<forall>x. f \<le> x \<longrightarrow> x < length xs \<longrightarrow> pc ! x = 0) \<and> unpaired (length xs) P"

lemma cover_simps [simp]:
  "cover (add_mset j J) P x = covers (fst j) x + cover J P x"
  "cover J (add_mset t P) x = covers t x + cover J P x"
  "cover {#} {#} x = 0"
  by (simp_all add: cover_def)

lemma cover_ge:
  "t \<in># P \<Longrightarrow> covers t x \<le> cover J P x" "j \<in># J \<Longrightarrow> covers (fst j) x \<le> cover J P x"
  by (auto dest!: multi_member_split)

lemma covers_le: "covers t x \<le> 1"
  by (simp add: covers_def)

text \<open>What is tiled once is not tiled twice.\<close>

lemma cover_disjoint:
  assumes "\<forall>x. cover (add_mset j J) P x \<le> 1" "beg (fst j) \<le> x" "x < fin (fst j)"
  shows "j' \<in># J \<Longrightarrow> \<not> (beg (fst j') \<le> x \<and> x < fin (fst j'))"
    "t \<in># P \<Longrightarrow> \<not> (beg t \<le> x \<and> x < fin t)"
proof -
  have "covers (fst j) x = 1" using assms(2,3) by (simp add: covers_def)
  then have "cover J P x = 0" using assms(1)[rule_format, of x] by simp
  then show "j' \<in># J \<Longrightarrow> \<not> (beg (fst j') \<le> x \<and> x < fin (fst j'))"
    "t \<in># P \<Longrightarrow> \<not> (beg t \<le> x \<and> x < fin t)"
    using cover_ge(2) [of j' J x P] cover_ge(1) [of t P x J] by (auto simp: covers_def split: if_splits)
qed

lemma exec_agree:
  assumes "ops_within lo hi es" "length xs = length ys" "hi \<le> length xs"
    "\<forall>k. lo \<le> k \<longrightarrow> k < hi \<longrightarrow> xs ! k = ys ! k"
  shows "\<forall>k. lo \<le> k \<longrightarrow> k < hi \<longrightarrow> exec es xs ! k = exec es ys ! k"
  using assms
proof (induction es arbitrary: xs ys)
  case (Cons e es)
  have "\<forall>k. lo \<le> k \<longrightarrow> k < hi \<longrightarrow> exchange (fst e) (snd e) xs ! k = exchange (fst e) (snd e) ys ! k"
    using Cons.prems by (auto simp: exchange_def nth_update_if)
  with Cons show ?case by simp
qed simp

lemma seg_agree:
  assumes "length xs = length ys" "\<forall>k. lo \<le> k \<longrightarrow> k < lo + n \<longrightarrow> xs ! k = ys ! k"
  shows "seg lo n xs = seg lo n ys"
  by (rule nth_equalityI) (use assms in \<open>auto simp: seg_def\<close>)

lemma job_ok_agree:
  assumes "job_ok xs j" "length xs = length ys" "fin (fst j) \<le> length xs"
    "\<forall>k. beg (fst j) \<le> k \<longrightarrow> k < fin (fst j) \<longrightarrow> xs ! k = ys ! k"
  shows "job_ok ys j"
proof -
  have "\<forall>k. beg (fst j) \<le> k \<longrightarrow> k < fin (fst j) \<longrightarrow> exec (snd j) xs ! k = exec (snd j) ys ! k"
    by (rule exec_agree) (use assms in \<open>simp_all add: job_ok_def\<close>)
  then have "seg (beg (fst j)) (fin (fst j) - beg (fst j)) (exec (snd j) xs) =
      seg (beg (fst j)) (fin (fst j) - beg (fst j)) (exec (snd j) ys)"
    by (intro seg_agree) (simp_all add: assms(2))
  with assms(1) show ?thesis by (simp add: job_ok_def)
qed

lemma sorting_within:
  assumes "sorting xs0 xs J P f pc"
  shows "j \<in># J \<Longrightarrow> fin (fst j) \<le> f" "t \<in># P \<Longrightarrow> fin t \<le> f"
proof -
  have cov: "cover J P x = (if x < f then 1 else 0)" for x using assms by (simp add: sorting_def)
  show "fin (fst j) \<le> f" if "j \<in># J"
  proof -
    have "aligned (Suc (unat (pc ! beg (fst j)))) (fst j)" using assms that by (simp add: sorting_def)
    then have "beg (fst j) < fin (fst j)" by (auto simp: aligned_def)
    then have "covers (fst j) (fin (fst j) - 1) = 1" by (simp add: covers_def)
    then have "fin (fst j) - 1 < f"
      using cover_ge(2) [OF that, of "fin (fst j) - 1" P] cov [of "fin (fst j) - 1"]
      by (auto split: if_splits)
    then show ?thesis using \<open>beg (fst j) < fin (fst j)\<close> by simp
  qed
  show "fin t \<le> f" if "t \<in># P"
  proof -
    have "aligned (unat (pc ! beg t)) t" using assms that by (simp add: sorting_def)
    then have "beg t < fin t" by (auto simp: aligned_def)
    then have "covers t (fin t - 1) = 1" by (simp add: covers_def)
    then have "fin t - 1 < f"
      using cover_ge(1) [OF that, of "fin t - 1" J] cov [of "fin t - 1"] by (auto split: if_splits)
    then show ?thesis using \<open>beg t < fin t\<close> by simp
  qed
qed

section \<open>Transitions of the tiling\<close>

lemma sorting_work:
  assumes "sorting xs0 xs (add_mset (t, e # es) J) P f pc"
  shows "fst e < length xs" "snd e < length xs"
    "sorting xs0 (exchange (fst e) (snd e) xs) (add_mset (t, es) J) P f pc"
proof -
  let ?ys = "exchange (fst e) (snd e) xs"
  note s = assms [unfolded sorting_def]
  have within: "fin t \<le> f" "f \<le> length xs"
    using sorting_within(1) [OF assms, of "(t, e # es)"] s by simp_all
  have e: "beg t \<le> fst e" "fst e < fin t" "beg t \<le> snd e" "snd e < fin t"
    using s by (auto simp: job_ok_def)
  then show bounds: "fst e < length xs" "snd e < length xs" using within by simp_all
  have same: "?ys ! k = xs ! k" if "\<not> (beg t \<le> k \<and> k < fin t)" for k
    using that e exchange_outside [of k "fst e" "snd e" xs] by auto
  have le: "\<forall>x. cover (add_mset (t, e # es) J) P x \<le> 1" using s by simp
  have "job_ok ?ys j" if j: "j \<in># J" for j
  proof (rule job_ok_agree)
    show "job_ok xs j" using s j by simp
    show "fin (fst j) \<le> length xs" using sorting_within(1) [OF assms, of j] j within by simp
    show "\<forall>k. beg (fst j) \<le> k \<longrightarrow> k < fin (fst j) \<longrightarrow> xs ! k = ?ys ! k"
      using cover_disjoint(1) [OF le _ _ j] same by (metis fst_conv)
  qed simp
  moreover have "sorted (seg (beg u) (fin u - beg u) ?ys)" if u: "u \<in># P" for u
  proof -
    have "seg (beg u) (fin u - beg u) ?ys = seg (beg u) (fin u - beg u) xs"
    proof (rule seg_agree)
      have "?ys ! k = xs ! k" if "beg u \<le> k" "k < fin u" for k
        using cover_disjoint(2) [OF le _ _ u, of k] same [of k] that by auto
      then show "\<forall>k. beg u \<le> k \<longrightarrow> k < beg u + (fin u - beg u) \<longrightarrow> ?ys ! k = xs ! k" by auto
    qed simp
    then show ?thesis using s u by simp
  qed
  moreover have "job_ok ?ys (t, es)" using s by (simp add: job_ok_def)
  ultimately show "sorting xs0 ?ys (add_mset (t, es) J) P f pc"
    using s bounds by (simp add: sorting_def)
qed

definition fed_task :: "nat \<Rightarrow> task" where
  "fed_task f = \<lparr>beg = f, fin = f + 2, torswap = False\<rparr>"

definition new_job :: "task \<Rightarrow> job" where
  "new_job t = (t, task_ops (beg t) (fin t) (torswap t))"

lemma fst_new_job [simp]: "fst (new_job t) = t"
  by (simp add: new_job_def)

lemma single_sorted: "sorted (seg lo (Suc 0) xs)"
  by (cases "drop lo xs") (simp_all add: seg_def)

lemma sorting_feed:
  assumes "sorting xs0 xs J P f pc" "f < length xs" "even (length xs)"
  shows "sorting xs0 xs (add_mset (new_job (fed_task f)) J) P (f + 2) pc"
proof -
  note s = assms(1) [unfolded sorting_def]
  have "even f" using s by blast
  then have len: "f + 2 \<le> length xs" using assms(2,3) by presburger
  have "sorted (seg f (2 ^ Suc 0) (exec (task_ops f (f + 2) False) xs))"
    by (rule task_sorts) (use len single_sorted in simp_all)
  moreover have "ops_within f (f + 2) (task_ops f (f + 2) False)"
    by (rule task_ops_within [of 1]) simp_all
  ultimately have "job_ok xs (new_job (fed_task f))"
    by (simp add: job_ok_def new_job_def fed_task_def)
  moreover have "aligned (Suc (unat (pc ! f))) (fed_task f)"
    using s assms(2) by (simp add: aligned_def fed_task_def)
  moreover have "covers (fed_task f) x + (if x < f then 1 else 0) = (if x < f + 2 then 1 else 0)" for x
    by (auto simp: covers_def fed_task_def)
  ultimately show ?thesis
    using s len by (simp add: sorting_def) (simp add: fed_task_def)
qed

lemma sorting_final:
  assumes "sorting xs0 xs (add_mset (t, []) J) P f pc" "fin t - beg t = length xs"
  shows "sorted xs" "mset xs = mset xs0"
proof -
  note s = assms(1) [unfolded sorting_def]
  have "fin t \<le> length xs" using sorting_within(1) [OF assms(1), of "(t, [])"] s by simp
  moreover have "beg t < fin t" using s by (auto simp: aligned_def)
  ultimately have "beg t = 0" using assms(2) by simp
  then show "sorted xs" using s assms(2) by (auto simp: job_ok_def)
  show "mset xs = mset xs0" using s by blast
qed

text \<open>The index arithmetic of the pairing.\<close>

lemma and_not_mask_int: "x AND NOT (mask n) = x div 2 ^ n * 2 ^ n" for x :: int
proof -
  have "x AND NOT (mask n) = push_bit n (drop_bit n x)"
    by (rule bit_eqI) (auto simp: bit_simps)
  then show ?thesis by (simp add: push_bit_eq_mult drop_bit_eq_div)
qed

lemma pair_begin_mod: "pair_begin b (2 ^ k) = b div 2 ^ Suc k * 2 ^ Suc k"
proof -
  have "int (2 * 2 ^ k) - 1 = mask (Suc k)" by (simp add: mask_eq_exp_minus_1)
  then have "pair_begin b (2 ^ k) = nat (int b div 2 ^ Suc k * 2 ^ Suc k)"
    by (simp only: pair_begin_def and_not_mask_int)
  also have "\<dots> = nat (int (b div 2 ^ Suc k * 2 ^ Suc k))" by (simp add: zdiv_int)
  finally show ?thesis by (simp only: nat_int)
qed

lemma pair_of:
  assumes "2 ^ k dvd b" "b < 2 ^ m" "k < m"
  defines "p \<equiv> pair_begin b (2 ^ k)"
  shows "b = p \<or> b = p + 2 ^ k" "2 ^ Suc k dvd p" "p + 2 ^ Suc k \<le> 2 ^ m"
proof -
  have p: "p = b div 2 ^ Suc k * 2 ^ Suc k" by (simp only: p_def pair_begin_mod)
  obtain c where c: "b = 2 ^ k * c" using assms(1) by blast
  have half: "b div 2 ^ Suc k = c div 2"
    by (simp add: c power_Suc2 div_mult2_eq del: power_Suc)
  have p2: "p = 2 ^ k * (c div 2 * 2)" by (simp only: p half) simp
  have "c = c div 2 * 2 \<or> c = c div 2 * 2 + 1" by presburger
  then show "b = p \<or> b = p + 2 ^ k"
    unfolding c p2 by (metis distrib_left mult.right_neutral)
  show dvd: "2 ^ Suc k dvd p" by (simp only: p dvd_triv_right)
  have pow: "(2 :: nat) ^ Suc k dvd 2 ^ m" using assms(3) by (simp only: le_imp_power_dvd Suc_leI)
  have "p < 2 ^ m" using assms(2) p by (metis div_times_less_eq_dividend le_less_trans)
  then show "p + 2 ^ Suc k \<le> 2 ^ m"
    using dvd pow by (metis add.commute dvd_diff_nat dvd_imp_le le_diff_conv2 less_imp_le zero_less_diff)
qed

lemma aligned_unique: "aligned k t \<Longrightarrow> aligned k' t \<Longrightarrow> k = k'"
  by (auto simp: aligned_def)

lemma multiple_le: "d dvd a \<Longrightarrow> d dvd c \<Longrightarrow> a < c + d \<Longrightarrow> a \<le> c" for a c d :: nat
proof -
  assume "d dvd a" "d dvd c" "a < c + d"
  then obtain x y where "a = d * x" "c = d * y" "d * x < d * y + d" by (auto elim!: dvdE)
  moreover from this have "d * x < d * Suc y" by simp
  then have "x < Suc y" by (rule mult_less_cancel1 [THEN iffD1, THEN conjunct2])
  ultimately show ?thesis by simp
qed

lemma cover_exists:
  assumes "cover J P x = 1"
  shows "(\<exists>j \<in># J. covers (fst j) x = 1) \<or> (\<exists>t \<in># P. covers t x = 1)"
proof (rule ccontr)
  assume "\<not> ?thesis"
  then have "\<forall>t \<in># image_mset fst J + P. covers t x = 0"
    by (auto simp: covers_def split: if_splits)
  then have "cover J P x = 0" unfolding cover_def by (simp add: sum_mset.neutral)
  with assms show False by simp
qed

text \<open>The other half of a segment that came back, if its count says so, is parked.\<close>

lemma buddy_parked:
  assumes s: "sorting xs0 xs (add_mset (t, []) J) P f pc" and k: "aligned k t"
    and len: "length xs = 2 ^ m" "k < m"
    and p: "p = pair_begin (beg t) (2 ^ k)"
    and buddy: "beg t = p \<and> b' = p + 2 ^ k \<or> beg t = p + 2 ^ k \<and> b' = p"
      "unat (pc ! b') = k"
  shows "\<exists>u. u \<in># P \<and> beg u = b' \<and> aligned k u"
proof -
  note s' = s [unfolded sorting_def]
  have "0 < k" "fin t = beg t + 2 ^ k" "2 ^ k dvd beg t" using k by (simp_all add: aligned_def)
  have "fin t \<le> length xs" using sorting_within(1) [OF s, of "(t, [])"] s' by simp
  moreover have "beg t < fin t" using \<open>fin t = _\<close> by simp
  ultimately have "beg t < 2 ^ m" using len(1) by simp
  note pair = pair_of(2,3) [OF \<open>2 ^ k dvd beg t\<close> this len(2), folded p]
  have pow: "(2 :: nat) ^ k < 2 ^ Suc k" "(2 :: nat) ^ Suc k = 2 ^ k + 2 ^ k" by simp_all
  have "(2 :: nat) ^ k dvd p" using pair(1) by (metis dvd_trans dvd_triv_right power_Suc)
  then have b': "2 ^ k dvd b'" "p \<le> b'" "b' < p + 2 ^ Suc k" "p \<le> beg t" "beg t < p + 2 ^ Suc k"
    using buddy(1) pow by auto
  have "b' < length xs" using b'(3) pair(2) len(1) by simp
  have "b' < f"
  proof (rule ccontr)
    assume "\<not> b' < f"
    then have "pc ! b' = 0" using s' \<open>b' < length xs\<close> by simp
    then show False using buddy(2) \<open>0 < k\<close> by simp
  qed
  moreover have "covers t b' = 0" using buddy(1) \<open>fin t = _\<close> by (auto simp: covers_def)
  moreover have "covers t b' + cover J P b' = (if b' < f then 1 else 0)" using s' by simp
  ultimately have one: "cover J P b' = 1" by simp
  have le: "\<forall>x. cover (add_mset (t, []) J) P x \<le> 1" using s' by simp
  have found: "beg u = b' \<and> j \<le> k"
    if u: "covers u b' = 1" "aligned j u" "\<not> (beg u \<le> beg t \<and> beg t < fin u)" for u j
  proof -
    have in_u: "beg u \<le> b'" "b' < beg u + 2 ^ j" "2 ^ j dvd beg u" "fin u = beg u + 2 ^ j"
      using u(1,2) by (auto simp: covers_def aligned_def split: if_splits)
    have "j \<le> k"
    proof (rule ccontr)
      assume "\<not> j \<le> k"
      then have div: "(2 :: nat) ^ Suc k dvd 2 ^ j" by (intro le_imp_power_dvd) simp
      then have dvd: "2 ^ Suc k dvd beg u" using in_u(3) by (rule dvd_trans)
      then have dvd': "2 ^ Suc k dvd fin u" using div by (simp only: in_u(4) dvd_add)
      have "beg u \<le> p" using multiple_le [OF dvd pair(1)] in_u(1) b'(3) by simp
      moreover have "p + 2 ^ Suc k \<le> fin u"
      proof (rule ccontr)
        assume "\<not> p + 2 ^ Suc k \<le> fin u"
        then have "fin u \<le> p" using multiple_le [OF dvd' pair(1)] by simp
        then show False using in_u(2,4) b'(2) by simp
      qed
      ultimately show False using u(3) b'(4,5) by simp
    qed
    moreover have "b' \<le> beg u"
    proof (rule multiple_le [OF _ in_u(3,2)])
      show "2 ^ j dvd b'" using b'(1) \<open>j \<le> k\<close> by (meson dvd_trans le_imp_power_dvd)
    qed
    ultimately show ?thesis using in_u(1) by simp
  qed
  have apart: "\<not> (beg u \<le> beg t \<and> beg t < fin u)" if "u \<in># image_mset fst J + P" for u
    using cover_disjoint [OF le, of "beg t"] \<open>beg t < fin t\<close> that by auto
  from cover_exists [OF one] show ?thesis
  proof
    assume "\<exists>j \<in># J. covers (fst j) b' = 1"
    then obtain j where j: "j \<in># J" "covers (fst j) b' = 1" by blast
    then have "aligned (Suc (unat (pc ! beg (fst j)))) (fst j)" using s' by simp
    then have "beg (fst j) = b'" "Suc (unat (pc ! beg (fst j))) \<le> k"
      using found [OF j(2) _ apart] j(1) by auto
    then show ?thesis using buddy(2) by simp
  next
    assume "\<exists>u \<in># P. covers u b' = 1"
    then obtain u where u: "u \<in># P" "covers u b' = 1" by blast
    then have al: "aligned (unat (pc ! beg u)) u" using s' by simp
    then have "beg u = b'" using found [OF u(2) _ apart] u(1) by auto
    then show ?thesis using u(1) al buddy(2) by auto
  qed
qed

lemma unat_Suc_byte: "Suc (unat (w :: byte)) < 256 \<Longrightarrow> unat (w + 1) = Suc (unat w)"
  by (simp add: unat_word_ariths(1))

lemma aligned_small:
  assumes "aligned k t" "fin t \<le> 2 ^ m"
  shows "k \<le> m" "beg t < 2 ^ m"
proof -
  have fin_t: "fin t = beg t + 2 ^ k" using assms(1) by (simp add: aligned_def)
  then have "(2 :: nat) ^ k \<le> 2 ^ m" using assms(2) by linarith
  then show "k \<le> m" by (rule power_le_imp_le_exp [rotated]) simp
  have "0 < (2 :: nat) ^ k" by simp
  then show "beg t < 2 ^ m" using fin_t assms(2) by linarith
qed

lemma unpaired_empty [simp]: "unpaired n {#}"
  by (simp add: unpaired_def)

lemma unpaired_remove: "unpaired n (add_mset u P) \<Longrightarrow> unpaired n P"
  by (simp add: unpaired_def)

lemma unpaired_add:
  assumes "unpaired n P" "aligned k t" "2 ^ k < n"
    "\<And>u. u \<in># P \<Longrightarrow> aligned k u \<Longrightarrow> 2 ^ Suc k dvd beg t \<Longrightarrow> beg u \<noteq> fin t"
    "\<And>u. u \<in># P \<Longrightarrow> aligned k u \<Longrightarrow> 2 ^ Suc k dvd beg u \<Longrightarrow> beg t \<noteq> fin u"
    "\<forall>u \<in># P. \<exists>j. aligned j u"
  shows "unpaired n (add_mset t P)"
proof -
  have len: "fin t - beg t = 2 ^ k" "beg t \<noteq> fin t" using assms(2) by (simp_all add: aligned_def)
  have al: "aligned k u" if "u \<in># P" "fin u - beg u = 2 ^ k" for u
    using assms(6) that by (auto simp: aligned_def)
  have "\<not> 2 * (fin t - beg t) dvd beg t" if "u \<in># P" "beg u = fin t" "fin u - beg u = fin t - beg t" for u
    using assms(4) [OF that(1) al [OF that(1)]] that(2,3) len(1) by auto
  moreover have "\<not> 2 * (fin u - beg u) dvd beg u"
    if "u \<in># P" "beg t = fin u" "fin t - beg t = fin u - beg u" for u
    using assms(5) [OF that(1) al [OF that(1)]] that(2,3) len(1) by auto
  ultimately show ?thesis
    using assms(1,3) len by (auto simp: unpaired_def)
qed

text \<open>A segment that came back: its count goes up, and it is parked or joined.\<close>

lemma sorting_arrive:
  assumes s: "sorting xs0 xs (add_mset (t, []) J) P f pc" and len: "length xs = 2 ^ m" "m < 64"
    and l: "fin t - beg t = l" "l \<noteq> length xs"
  defines "pc' \<equiv> pc[beg t := pc ! beg t + 1]"
  defines "p \<equiv> pair_begin (beg t) l"
  shows "beg t < length pc" "p + l < length pc"
    "pc' ! p = pc' ! (p + l) \<Longrightarrow>
       \<exists>u P'. P = add_mset u P' \<and>
         sorting xs0 xs (add_mset (new_job \<lparr>beg = p, fin = p + l + l, torswap = True\<rparr>) J) P' f pc'"
    "pc' ! p \<noteq> pc' ! (p + l) \<Longrightarrow> sorting xs0 xs J (add_mset t P) f pc'"
proof -
  note s' = s [unfolded sorting_def]
  define k where "k = Suc (unat (pc ! beg t))"
  have k: "aligned k t" using s' by (simp add: k_def)
  have "fin t \<le> length xs" using sorting_within(1) [OF s, of "(t, [])"] s' by simp
  note small = aligned_small [OF k this [unfolded len(1)]]
  have lk: "l = 2 ^ k" using k l(1) by (auto simp: aligned_def)
  have "k < m" using small(1) l(2) lk len(1) by (metis le_neq_implies_less)
  note pair = pair_of [OF _ small(2) \<open>k < m\<close>, folded lk p_def]
  have dvd: "l dvd beg t" using k by (simp add: aligned_def lk)
  note pair = pair [OF dvd]
  have l0: "0 < l" by (simp add: lk)
  show beg: "beg t < length pc" using small(2) s' len(1) by simp
  have "l < 2 ^ Suc k" using l0 lk by simp
  moreover have "length pc = length xs" using s' by blast
  ultimately show idx: "p + l < length pc" using pair(3) len(1) by linarith
  have up: "unat (pc' ! beg t) = k"
  proof -
    have "k < 256" using \<open>k < m\<close> len(2) by simp
    then show ?thesis using beg unat_Suc_byte [of "pc ! beg t"] by (simp add: pc'_def k_def)
  qed
  have le: "\<forall>x. cover (add_mset (t, []) J) P x \<le> 1" using s' by simp
  have tt: "beg t < fin t" using k by (auto simp: aligned_def)
  have other: "beg (fst j) \<noteq> beg t" if "j \<in># J" for j
  proof
    assume "beg (fst j) = beg t"
    moreover have "beg (fst j) < fin (fst j)" using s' that by (auto simp: aligned_def)
    ultimately show False using cover_disjoint(1) [OF le, of "beg t" j] that tt by auto
  qed
  have other': "beg u \<noteq> beg t" if "u \<in># P" for u
  proof
    assume "beg u = beg t"
    moreover have "beg u < fin u" using s' that by (auto simp: aligned_def)
    ultimately show False using cover_disjoint(2) [OF le, of "beg t" u] that tt by auto
  qed
  have "beg t < f" using sorting_within(1) [OF s, of "(t, [])"] tt by simp
  then have zero: "\<forall>x. f \<le> x \<longrightarrow> x < length xs \<longrightarrow> pc' ! x = 0"
    using s' by (auto simp: pc'_def nth_update_if)
  have same: "pc' ! x = pc ! x" if "x \<noteq> beg t" for x
    using that by (simp add: pc'_def nth_update_if)
  have keepJ: "\<forall>j \<in># J. job_ok xs j \<and> aligned (Suc (unat (pc' ! beg (fst j)))) (fst j)"
    using s' same [OF other] by simp
  have keepP: "\<forall>u \<in># P. sorted (seg (beg u) (fin u - beg u) xs) \<and> aligned (unat (pc' ! beg u)) u"
    using s' same [OF other'] by simp
  have sorted_t: "sorted (seg (beg t) l xs)" using s' l(1) by (simp add: job_ok_def)
  have cov: "covers t x + cover J P x = (if x < f then 1 else 0)" for x using s' by simp
  show "sorting xs0 xs J (add_mset t P) f pc'" if ne: "pc' ! p \<noteq> pc' ! (p + l)"
  proof -
    have count: "unat (pc' ! beg u) = k" if "u \<in># P" "aligned k u" for u
      using keepP that aligned_unique by blast
    have start: "p = beg u" if "2 ^ Suc k dvd beg u" "beg t = beg u \<or> beg t = fin u" "aligned k u" for u
      using that pair_begin_mod [of "beg t" k]
      by (auto simp: p_def lk aligned_def elim!: dvdE simp del: power_Suc)
    have ne: "unat (pc' ! p) \<noteq> unat (pc' ! (p + l))" using ne by (metis unsigned_word_eqI)
    have "unpaired (length xs) (add_mset t P)"
    proof (rule unpaired_add [OF _ k])
      show "(2 :: nat) ^ k < length xs" using \<open>k < m\<close> len(1) by simp
      fix u assume u: "u \<in># P" "aligned k u"
      show "beg u \<noteq> fin t" if "2 ^ Suc k dvd beg t"
        using ne count [OF u] up start [of t] that k by (auto simp: lk aligned_def)
      show "beg t \<noteq> fin u" if "2 ^ Suc k dvd beg u"
        using ne count [OF u] up start [of u] that u(2) by (auto simp: lk aligned_def)
    qed (use s' in auto)
    then show ?thesis
      unfolding sorting_def using s' keepJ keepP zero cov sorted_t l(1) up k
      by (simp add: pc'_def)
  qed
  assume eq: "pc' ! p = pc' ! (p + l)"
  define b' where "b' = (if beg t = p then p + l else p)"
  have b': "beg t = p \<and> b' = p + l \<or> beg t = p + l \<and> b' = p"
    using pair(1) l0 by (auto simp: b'_def)
  then have "pc' ! b' = pc' ! beg t" "b' \<noteq> beg t" using eq l0 by auto
  then have "unat (pc ! b') = k" using up by (simp add: pc'_def nth_update_if split: if_splits)
  from buddy_parked [OF s k len(1) \<open>k < m\<close> p_def [THEN meta_eq_to_obj_eq, unfolded lk] b' [unfolded lk] this]
  obtain u where u: "u \<in># P" "beg u = b'" "aligned k u" by blast
  then obtain P' where P: "P = add_mset u P'" by (metis multi_member_split)
  have fin_u: "fin u = b' + l" "fin t = beg t + l" using u(2,3) k by (auto simp: aligned_def lk)
  let ?v = "\<lparr>beg = p, fin = p + l + l, torswap = True\<rparr>"
  have pl: "l + l = 2 ^ Suc k" "p + 2 ^ Suc k \<le> length xs" using lk pair(3) len(1) by simp_all
  have "sorted (seg p l xs)" "sorted (seg (p + l) l xs)"
  proof -
    have "sorted (seg b' l xs)" using s' P u(2) fin_u(1) by simp
    then show "sorted (seg p l xs)" "sorted (seg (p + l) l xs)" using b' sorted_t by auto
  qed
  then have "sorted (seg p (2 ^ Suc k) (exec (task_ops p (p + 2 ^ Suc k) True) xs))"
    using pl by (intro task_sorts) (simp_all add: lk)
  moreover have "ops_within p (p + 2 ^ Suc k) (task_ops p (p + 2 ^ Suc k) True)"
    by (rule task_ops_within [of "Suc k"]) simp_all
  ultimately have "job_ok xs (new_job ?v)"
    using pl(1) by (simp add: job_ok_def new_job_def add.assoc)
  moreover have "aligned (Suc (unat (pc' ! p))) ?v"
  proof -
    have "unat (pc' ! p) = k" using eq up b' by auto
    then show ?thesis using pair(2) pl(1) by (simp add: aligned_def add.assoc)
  qed
  moreover have "covers ?v x = covers t x + covers u x" for x
    using b' u(2) fin_u l0 by (auto simp: covers_def)
  then have "covers ?v x + cover J P' x = (if x < f then 1 else 0)" for x
    using cov [of x] by (simp add: P add.assoc)
  ultimately have "sorting xs0 xs (add_mset (new_job ?v) J) P' f pc'"
    unfolding sorting_def using s' keepJ keepP zero P unpaired_remove by (auto simp: pc'_def)
  with P show "\<exists>u P'. P = add_mset u P' \<and> sorting xs0 xs (add_mset (new_job ?v) J) P' f pc'"
    by blast
qed

section \<open>The invariant of the program\<close>

fun slave_jobs :: "slave \<Rightarrow> job multiset" where
  "slave_jobs (Working t es) = {#(t, es)#}"
| "slave_jobs (Returning t) = {#(t, [])#}"
| "slave_jobs _ = {#}"

fun master_jobs :: "master \<Rightarrow> job multiset" where
  "master_jobs (Sending t) = {#new_job t#}"
| "master_jobs _ = {#}"

definition jobs :: "('q \<Rightarrow> task multiset) \<Rightarrow> ('q, 'a) sorter \<Rightarrow> job multiset" where
  "jobs contents s =
     image_mset new_job (contents (to_slave s)) + master_jobs (master s) +
     sum_list (map slave_jobs (slaves s)) + image_mset (\<lambda>t. (t, [])) (contents (to_master s))"

definition sorter_inv ::
  "('q \<Rightarrow> task multiset) \<Rightarrow> nat \<Rightarrow> 'a::linorder list \<Rightarrow> ('q, 'a) sorter \<Rightarrow> bool" where
  "sorter_inv contents m xs0 s \<longleftrightarrow>
     length (base s) = 2 ^ m \<and> Broken \<notin> set (slaves s) \<and> master s \<noteq> Overrun \<and>
     (lock_done s \<longleftrightarrow> master s = Finished) \<and>
     (if master s = Finished
      then sorted (base s) \<and> mset (base s) = mset xs0 \<and> jobs contents s = {#}
      else on_the_fly s = size (jobs contents s) \<and>
        (\<exists>P. sorting xs0 (base s) (jobs contents s) P (feed_in s) (pcount s)))"

lemma slaves_update_jobs:
  assumes "i < length ws" "slave_jobs w = slave_jobs (ws ! i) + K"
  shows "sum_list (map slave_jobs (ws[i := w])) = sum_list (map slave_jobs ws) + K"
proof -
  have "sum_list (map slave_jobs (ws[i := w])) + slave_jobs (ws ! i) =
      (sum_list (map slave_jobs ws) + K) + slave_jobs (ws ! i)"
    using sum_list_update_mset [OF assms(1), of slave_jobs w] by (simp add: assms(2) add_ac)
  then show ?thesis by (rule add_right_imp_eq)
qed

lemma slaves_update_jobs':
  assumes "i < length ws" "slave_jobs (ws ! i) = slave_jobs w + K"
  shows "sum_list (map slave_jobs ws) = sum_list (map slave_jobs (ws[i := w])) + K"
proof -
  have "(sum_list (map slave_jobs (ws[i := w])) + K) + slave_jobs w =
      sum_list (map slave_jobs ws) + slave_jobs w"
    using sum_list_update_mset [OF assms(1), of slave_jobs w] by (simp add: assms(2) add_ac)
  then show ?thesis by (rule add_right_imp_eq [symmetric])
qed

lemma sorting_length: "sorting xs0 xs J P f pc \<Longrightarrow> length pc = length xs"
  by (simp add: sorting_def)

text \<open>When a job is the whole array, there is no other.\<close>

lemma whole_array:
  assumes "sorting xs0 xs (add_mset (t, []) J) P f pc" "fin t - beg t = length xs"
  shows "J = {#}"
proof (rule ccontr)
  assume "J \<noteq> {#}"
  then obtain j where j: "j \<in># J" by blast
  note s = assms(1) [unfolded sorting_def]
  have within: "fin t \<le> f" "fin (fst j) \<le> f" "f \<le> length xs"
    using sorting_within(1) [OF assms(1), of "(t, [])"] sorting_within(1) [OF assms(1), of j] s j
    by auto
  moreover have "beg t < fin t" using s by (auto simp: aligned_def)
  ultimately have t: "beg t = 0" "fin t = length xs" using assms(2) by simp_all
  have "beg (fst j) < fin (fst j)" using s j by (auto simp: aligned_def)
  moreover have "\<forall>x. cover (add_mset (t, []) J) P x \<le> 1" using s by simp
  ultimately show False
    using cover_disjoint(1) [of "(t, [])" J P "beg (fst j)" j] j t within by auto
qed

locale sorter_queue = unbounded_queue Q contents
  for Q :: "('q, task) queue_ops" and contents :: "'q \<Rightarrow> task multiset"
begin

lemma push_ignoring_contents: "contents (push_ignoring Q m q) = add_mset m (contents q)"
  using push_succeeds [of m q] by (auto simp: push_ignoring_def)

lemma jobs_feed:
  assumes "master_jobs (master s) = {#}" "master_jobs pc = {#}"
  shows "jobs contents (feed Q pc s) = add_mset (new_job (fed_task (feed_in s))) (jobs contents s)"
  by (simp add: jobs_def feed_def push_ignoring_contents fed_task_def assms)

lemma inv_feed:
  assumes "sorter_inv contents m xs0 s" "0 < m" "feed_in s < length (base s)"
    "master s = Feeding \<or> master s = Refilling" "pc = Pairing \<or> pc = Feeding"
  shows "sorter_inv contents m xs0 (feed Q pc s)"
proof -
  obtain P where P: "sorting xs0 (base s) (jobs contents s) P (feed_in s) (pcount s)"
    using assms(1,4) by (auto simp: sorter_inv_def)
  have "even (length (base s))" using assms(1,2) by (simp add: sorter_inv_def)
  note fed = sorting_feed [OF P assms(3) this]
  have jobs: "jobs contents (feed Q pc s) = add_mset (new_job (fed_task (feed_in s))) (jobs contents s)"
    using assms(4,5) by (intro jobs_feed) auto
  have state: "base (feed Q pc s) = base s" "slaves (feed Q pc s) = slaves s"
      "feed_in (feed Q pc s) = feed_in s + 2" "pcount (feed Q pc s) = pcount s"
      "on_the_fly (feed Q pc s) = on_the_fly s + 1" "lock_done (feed Q pc s) = lock_done s"
      "master (feed Q pc s) = pc"
    by (simp_all add: feed_def)
  show ?thesis
    using assms(1,4,5) fed by (auto simp: sorter_inv_def jobs state)
qed

lemma inv_pairing:
  assumes "sorter_inv contents m xs0 s" "m < 64" "master s = Pairing"
    "q_pop Q (to_master s) = Some (t, q)"
  shows "sorter_inv contents m xs0 (pairing t (s\<lparr>to_master := q\<rparr>))"
proof -
  let ?s = "s\<lparr>to_master := q\<rparr>"
  have len: "length (base s) = 2 ^ m" using assms(1) by (simp add: sorter_inv_def)
  obtain P where "sorting xs0 (base s) (jobs contents s) P (feed_in s) (pcount s)"
    using assms(1,3) by (auto simp: sorter_inv_def)
  moreover have jobs: "jobs contents s = add_mset (t, []) (jobs contents ?s)"
    using assms(4) by (simp add: jobs_def pop_contents)
  ultimately have P: "sorting xs0 (base s) (add_mset (t, []) (jobs contents ?s)) P (feed_in s) (pcount s)"
    by simp
  have pc: "length (pcount s) = length (base s)" using sorting_length [OF P] .
  show ?thesis
  proof (cases "fin t - beg t = length (base s)")
    case True
    have "jobs contents (?s\<lparr>master := Finished, lock_done := True\<rparr>) = jobs contents ?s"
      using assms(3) by (simp add: jobs_def)
    then show ?thesis
      using whole_array [OF P True] sorting_final [OF P True] assms(1) True
      by (simp add: pairing_def sorter_inv_def)
  next
    case False
    note arrive = sorting_arrive [OF P len assms(2) refl False]
    let ?l = "fin t - beg t"
    let ?pc = "(pcount s)[beg t := pcount s ! beg t + 1]" and ?p = "pair_begin (beg t) ?l"
    show ?thesis
    proof (cases "?pc ! ?p = ?pc ! (?p + ?l)")
      case True
      let ?v = "\<lparr>beg = ?p, fin = ?p + ?l + ?l, torswap = True\<rparr>"
      have "pairing t ?s = ?s\<lparr>pcount := ?pc, master := Sending ?v\<rparr>"
        using False True arrive(1,2) by (simp add: pairing_def Let_def)
      moreover have "jobs contents (?s\<lparr>pcount := ?pc, master := Sending ?v\<rparr>) =
          add_mset (new_job ?v) (jobs contents ?s)"
        using assms(3) by (simp add: jobs_def)
      ultimately show ?thesis
        using arrive(3) [OF True] assms(1,3) jobs by (auto simp: sorter_inv_def)
    next
      case other: False
      have "pairing t ?s = ?s\<lparr>pcount := ?pc, on_the_fly := on_the_fly s - 1, master := Refilling\<rparr>"
        using False other arrive(1,2) by (simp add: pairing_def Let_def)
      moreover have "jobs contents (?s\<lparr>pcount := ?pc, on_the_fly := on_the_fly s - 1,
          master := Refilling\<rparr>) = jobs contents ?s"
        using assms(3) by (simp add: jobs_def)
      ultimately show ?thesis
        using arrive(4) [OF other] assms(1,3) jobs by (auto simp: sorter_inv_def)
    qed
  qed
qed

lemma inv_master_step:
  assumes "sorter_inv contents m xs0 s" "0 < m" "m < 64"
  shows "sorter_inv contents m xs0 (master_step Q s)"
proof -
  have same: "sorter_inv contents m xs0 (s\<lparr>master := pc\<rparr>)"
    if "master_jobs (master s) = {#}" "master_jobs pc = {#}" "master s \<noteq> Finished" "pc \<noteq> Finished"
      "pc \<noteq> Overrun" for pc
  proof -
    have "jobs contents (s\<lparr>master := pc\<rparr>) = jobs contents s" using that by (simp add: jobs_def)
    then show ?thesis using assms(1) that by (simp add: sorter_inv_def)
  qed
  show ?thesis
  proof (cases "master s")
    case Feeding
    then show ?thesis
      using inv_feed [OF assms(1,2)] same by (auto simp: master_step_def)
  next
    case Pairing
    then show ?thesis
      using inv_pairing [OF assms(1,3)] same
      by (cases "q_pop Q (to_master s)") (auto simp: master_step_def)
  next
    case (Sending t)
    then have "jobs contents (s\<lparr>to_slave := push_ignoring Q t (to_slave s), master := Refilling\<rparr>) =
        jobs contents s"
      by (simp add: jobs_def push_ignoring_contents)
    then show ?thesis using assms(1) Sending by (simp add: master_step_def sorter_inv_def)
  next
    case Refilling
    then show ?thesis
      using inv_feed [OF assms(1,2)] same by (auto simp: master_step_def)
  qed (use assms(1) in \<open>simp_all add: master_step_def\<close>)
qed

text \<open>A slave that changes neither the array nor the jobs keeps the invariant.\<close>

lemma inv_same_jobs:
  assumes "sorter_inv contents m xs0 s" "jobs contents s' = jobs contents s"
    "base s' = base s" "Broken \<notin> set (slaves s')" "master s' = master s"
    "feed_in s' = feed_in s" "pcount s' = pcount s" "on_the_fly s' = on_the_fly s"
    "lock_done s' = lock_done s"
  shows "sorter_inv contents m xs0 s'"
  using assms by (simp add: sorter_inv_def)

lemma not_broken:
  "sorter_inv contents m xs0 s \<Longrightarrow> w \<noteq> Broken \<Longrightarrow> Broken \<notin> set ((slaves s)[i := w])"
  by (auto simp: sorter_inv_def dest!: set_update_subset_insert [THEN subsetD])

lemma inv_work:
  assumes "sorter_inv contents m xs0 s" "i < length (slaves s)" "slaves s ! i = Working t (e # es)"
  shows "sorter_inv contents m xs0 (slave_step Q i s)"
proof -
  let ?s = "s\<lparr>base := exchange (fst e) (snd e) (base s), slaves := (slaves s)[i := Working t es]\<rparr>"
  define K where "K = image_mset new_job (contents (to_slave s)) + master_jobs (master s) +
    image_mset (\<lambda>t. (t, [])) (contents (to_master s))"
  define R where "R = sum_list (map slave_jobs ((slaves s)[i := Polling]))"
  have R: "sum_list (map slave_jobs (slaves s)) = R + {#(t, e # es)#}"
    unfolding R_def by (rule slaves_update_jobs') (simp_all add: assms(2,3))
  have R': "sum_list (map slave_jobs ((slaves s)[i := Working t es])) = R + {#(t, es)#}"
    using slaves_update_jobs [of i "(slaves s)[i := Polling]" "Working t es" "{#(t, es)#}"]
      assms(2) by (simp add: R_def)
  have J: "jobs contents s = add_mset (t, e # es) (K + R)"
      "jobs contents ?s = add_mset (t, es) (K + R)"
    by (simp_all add: jobs_def K_def R R' add_ac)
  have "master s \<noteq> Finished"
    using assms(1) J(1) by (auto simp: sorter_inv_def)
  then obtain P where P: "sorting xs0 (base s) (add_mset (t, e # es) (K + R)) P (feed_in s) (pcount s)"
    using assms(1) J(1) by (auto simp: sorter_inv_def)
  note work = sorting_work [OF P]
  have "slave_step Q i s = ?s" using work(1,2) by (simp add: slave_step_def assms(3))
  moreover have "sorter_inv contents m xs0 ?s"
    using assms(1) work(3) \<open>master s \<noteq> Finished\<close> J not_broken [OF assms(1), of "Working t es"]
    by (auto simp: sorter_inv_def)
  ultimately show ?thesis by simp
qed

lemma inv_slave_step:
  assumes "sorter_inv contents m xs0 s" "i < length (slaves s)"
  shows "sorter_inv contents m xs0 (slave_step Q i s)"
proof -
  have idle: "sorter_inv contents m xs0 (s\<lparr>slaves := (slaves s)[i := w]\<rparr>)"
    if "slave_jobs w = slave_jobs (slaves s ! i)" "w \<noteq> Broken" for w
  proof (rule inv_same_jobs [OF assms(1)])
    show "jobs contents (s\<lparr>slaves := (slaves s)[i := w]\<rparr>) = jobs contents s"
      using slaves_update_jobs [OF assms(2), of w "{#}"] that(1) by (simp add: jobs_def)
  qed (use not_broken [OF assms(1) that(2)] in simp_all)
  show ?thesis
  proof (cases "slaves s ! i")
    case Polling
    show ?thesis
    proof (cases "q_pop Q (to_slave s)")
      case None
      then show ?thesis using idle [of Checking] by (simp add: slave_step_def Polling)
    next
      case (Some tq)
      then obtain t q where tq: "q_pop Q (to_slave s) = Some (t, q)" by (cases tq) auto
      let ?w = "Working t (task_ops (beg t) (fin t) (torswap t))"
      have "slave_jobs ?w = slave_jobs (slaves s ! i) + {#new_job t#}"
        by (simp add: Polling new_job_def)
      from slaves_update_jobs [OF assms(2) this] pop_contents [OF tq]
      have "jobs contents (s\<lparr>to_slave := q, slaves := (slaves s)[i := ?w]\<rparr>) = jobs contents s"
        by (simp add: jobs_def)
      then show ?thesis
        using inv_same_jobs [OF assms(1)] not_broken [OF assms(1), of ?w]
        by (simp add: slave_step_def Polling tq)
    qed
  next
    case (Working t es)
    show ?thesis
    proof (cases es)
      case Nil
      then show ?thesis using idle [of "Returning t"] Working by (simp add: slave_step_def)
    next
      case (Cons e es')
      then show ?thesis using inv_work [OF assms] Working by simp
    qed
  next
    case (Returning t)
    have "slave_jobs (slaves s ! i) = slave_jobs Checking + {#(t, [])#}" by (simp add: Returning)
    from slaves_update_jobs' [OF assms(2) this]
    have "jobs contents (s\<lparr>to_master := push_ignoring Q t (to_master s),
        slaves := (slaves s)[i := Checking]\<rparr>) = jobs contents s"
      by (simp add: jobs_def push_ignoring_contents)
    then show ?thesis
      using inv_same_jobs [OF assms(1)] not_broken [OF assms(1), of Checking]
      by (simp add: slave_step_def Returning)
  next
    case Checking
    then show ?thesis
      using idle [of "if lock_done s then Stopped else Polling"]
      by (cases "lock_done s") (simp_all add: slave_step_def)
  qed (use assms(1) in \<open>simp_all add: slave_step_def\<close>)
qed

lemma length_slaves_step [simp]:
  "length (slaves (slave_step Q i s)) = length (slaves s)"
  by (auto simp: slave_step_def Let_def split: slave.splits list.splits option.splits)

lemma inv_start:
  assumes "length xs = 2 ^ m" "0 < m"
  shows "sorter_inv contents m xs (sort_start Q k xs)"
proof -
  have "sum_list (map slave_jobs (replicate k Polling)) = {#}" by (induction k) simp_all
  then have "jobs contents (sort_start Q k xs) = {#}"
    by (simp add: jobs_def sort_start_def contents_empty del: map_replicate)
  moreover have "sorting xs xs {#} {#} 0 (replicate (length xs) 0)"
    by (simp add: sorting_def)
  ultimately show ?thesis
    using assms by (simp add: sorter_inv_def) (auto simp: sort_start_def)
qed

lemma sort_reach_inv:
  assumes "sort_reach Q k xs s" "length xs = 2 ^ m" "0 < m" "m < 64"
  shows "sorter_inv contents m xs s"
  using assms(1)
  by (induction rule: sort_reach.induct)
    (simp_all add: inv_start assms(2-4) inv_master_step inv_slave_step)

end

interpretation std_sorter: sorter_queue std_queue mset ..

section \<open>Properties\<close>

text \<open>
  C2: In every interleaving of the master and any number of slaves on an array whose length is a
  power of two: no thread ever accesses an element outside the arrays, and when the master ends
  its loop the array is sorted and has the elements it started with. The queue may be any that
  takes every message and neither loses nor doubles one; it may reorder them.
\<close>

theorem bitonic_sort_correct:
  assumes "unbounded_queue Q contents" "sort_reach Q k xs s" "length xs = 2 ^ m" "0 < m" "m < 64"
  shows "Broken \<notin> set (slaves s) \<and> master s \<noteq> Overrun \<and>
    (master s = Finished \<longrightarrow> sorted (base s) \<and> mset (base s) = mset xs)"
proof -
  have "sorter_queue Q contents" using assms(1) by (simp add: sorter_queue_def)
  from sorter_queue.sort_reach_inv [OF this assms(2-5)]
  show ?thesis by (simp add: sorter_inv_def)
qed

text \<open>A schedule: \<open>None\<close> is a step of the master, \<open>Some i\<close> one of slave \<open>i\<close>.\<close>

definition scheduled ::
  "('q, task) queue_ops \<Rightarrow> nat option \<Rightarrow> ('q, 'a::linorder) sorter \<Rightarrow> ('q, 'a) sorter" where
  "scheduled Q i s =
     (case i of
        None \<Rightarrow> master_step Q s
      | Some j \<Rightarrow> if j < length (slaves s) then slave_step Q j s else s)"

lemma scheduled_reach:
  "sort_reach Q k xs s \<Longrightarrow> sort_reach Q k xs (fold (scheduled Q) is s)"
proof (induction "is" arbitrary: s)
  case (Cons i "is")
  then have "sort_reach Q k xs (scheduled Q i s)"
    by (auto simp: scheduled_def split: option.splits intro: sort_reach.intros)
  with Cons show ?case by simp
qed simp

definition sample_sort :: "(task list, nat) sorter" where
  "sample_sort = fold (scheduled std_queue) (concat (replicate 12 [None, Some 0, Some 0, Some 1]))
     (sort_start std_queue 2 [4, 3, 2, 1])"

theorem bitonic_sort_correct_witness:
  "master sample_sort = Finished \<and> Broken \<notin> set (slaves sample_sort) \<and>
     sorted (base sample_sort) \<and> mset (base sample_sort) = mset [4, 3, 2, 1]"
proof -
  have "master sample_sort = Finished" by code_simp
  moreover have "sort_reach std_queue 2 [4, 3, 2, 1] sample_sort"
    unfolding sample_sort_def by (intro scheduled_reach sort_init)
  ultimately show ?thesis
    using bitonic_sort_correct [OF std.unbounded_queue_axioms, of 2 "[4, 3, 2, 1]" sample_sort 2]
    by simp
qed

end
