(* ===== verification/Bitonic_Live.thy ===== *)
theory Bitonic_Live
  imports Bitonic_Boost
begin

text \<open>
  The sort of \<^verbatim>\<open>apps/bitonic/boost.cpp\<close> does not get stuck. When no task is handed out and the
  whole array was fed in, the parked segments tile the array without a pair of halves, so one of
  them is the whole array. Hence there is always a step that brings the sort nearer to its end, in
  the lexicographic order of the pairings still possible, the elements not fed in yet and the work
  on the tasks under way.
\<close>

section \<open>Where nothing is handed out, nothing waits in vain\<close>

lemma aligned_len: "aligned k t \<Longrightarrow> fin t - beg t = 2 ^ k \<and> beg t < fin t"
  by (simp add: aligned_def)

lemma sibling_exists:
  assumes "2 ^ k dvd (b :: nat)" "b < 2 ^ m" "k < m"
  obtains b' where "b' < 2 ^ m" "2 ^ k dvd b'"
    "2 ^ Suc k dvd b \<and> b' = b + 2 ^ k \<or> 2 ^ Suc k dvd b' \<and> b = b' + 2 ^ k"
proof -
  let ?p = "pair_begin b (2 ^ k)"
  note p = pair_of [OF assms]
  have dvd: "(2 :: nat) ^ k dvd ?p" using p(2) by (metis dvd_trans dvd_triv_right power_Suc)
  have pos: "(0 :: nat) < 2 ^ k" "(2 :: nat) ^ Suc k = 2 ^ k + 2 ^ k" by simp_all
  show thesis
  proof (cases "b = ?p")
    case True
    have "?p + 2 ^ k < 2 ^ m" using p(3) pos by linarith
    then show ?thesis using that [of "?p + 2 ^ k"] True p(2) dvd by simp
  next
    case False
    then have "b = ?p + 2 ^ k" using p(1) by simp
    moreover have "?p < 2 ^ m" using p(3) pos by linarith
    ultimately show ?thesis using that [of ?p] p(2) dvd by simp
  qed
qed

text \<open>An aligned segment that reaches into the other half of a shorter one covers both halves.\<close>

lemma covers_both:
  assumes "aligned j u" "k < j" "beg u \<le> b'" "b' < fin u"
    "2 ^ Suc k dvd b \<and> b' = b + 2 ^ k \<or> 2 ^ Suc k dvd b' \<and> b = b' + 2 ^ k"
  shows "beg u \<le> b \<and> b < fin u"
proof -
  have fin: "fin u = beg u + 2 ^ j" "2 ^ j dvd beg u" using assms(1) by (simp_all add: aligned_def)
  have "(2 :: nat) ^ Suc k dvd 2 ^ j" using assms(2) by (intro le_imp_power_dvd) simp
  then have dvd: "2 ^ Suc k dvd beg u" "2 ^ Suc k dvd fin u"
    using fin by (auto intro: dvd_trans)
  have pow: "(2 :: nat) ^ Suc k = 2 ^ k + 2 ^ k" "(0 :: nat) < 2 ^ k" by simp_all
  define p where "p = (if b' = b + 2 ^ k then b else b')"
  have p: "2 ^ Suc k dvd p" "p \<le> b" "b < p + 2 ^ Suc k" "p \<le> b'" "b' < p + 2 ^ Suc k"
    using assms(5) pow by (auto simp: p_def)
  have "beg u \<le> p" using multiple_le [OF dvd(1) p(1)] assms(3) p(5) by simp
  moreover have "p + 2 ^ Suc k \<le> fin u"
  proof (rule ccontr)
    assume "\<not> p + 2 ^ Suc k \<le> fin u"
    then have "fin u \<le> p" using multiple_le [OF dvd(2) p(1)] by simp
    then show False using assms(4) p(4) by simp
  qed
  ultimately show ?thesis using p(2,3) by linarith
qed

lemma some_job_left:
  assumes s: "sorting xs0 xs J P f pc" and f: "f = length xs" and len: "length xs = 2 ^ m"
  shows "J \<noteq> {#}"
proof
  assume "J = {#}"
  note s' = s [unfolded sorting_def \<open>J = {#}\<close>]
  have cov: "cover {#} P x = 1" if "x < 2 ^ m" for x using s' f len that by simp
  have al: "aligned (unat (pc ! beg t)) t" if "t \<in># P" for t using s' that by blast
  have found: "\<exists>u. u \<in># P \<and> beg u \<le> x \<and> x < fin u" if "x < 2 ^ m" for x
    using cover_exists [OF cov [OF that]] by (auto simp: covers_def split: if_splits)
  then obtain t0 where "t0 \<in># P" by (metis zero_less_numeral zero_less_power)
  then obtain t where t: "t \<in># P" "\<And>u. u \<in># P \<Longrightarrow> fin t - beg t \<le> fin u - beg u"
    using ex_has_least_nat [of "\<lambda>t. t \<in># P" t0 "\<lambda>t. fin t - beg t"] by blast
  define k where "k = unat (pc ! beg t)"
  have k: "aligned k t" "fin t = beg t + 2 ^ k" "2 ^ k dvd beg t" using al [OF t(1)] by (simp_all add: k_def aligned_def)
  have "fin t \<le> 2 ^ m" using sorting_within(2) [OF s t(1)] f len by simp
  note small = aligned_small [OF k(1) this]
  have "fin t - beg t < length xs" using s' t(1) unfolding unpaired_def by blast
  then have "2 ^ k < (2 :: nat) ^ m" by (simp only: aligned_len [OF k(1)] len)
  then have "k < m" by simp
  from sibling_exists [OF k(3) small(2) this] obtain b' where b': "b' < 2 ^ m" "2 ^ k dvd b'"
    "2 ^ Suc k dvd beg t \<and> b' = beg t + 2 ^ k \<or> 2 ^ Suc k dvd b' \<and> beg t = b' + 2 ^ k" by blast
  obtain u where u: "u \<in># P" "beg u \<le> b'" "b' < fin u" using found [OF b'(1)] by blast
  define j where "j = unat (pc ! beg u)"
  have j: "aligned j u" using al [OF u(1)] by (simp add: j_def)
  have "2 ^ k \<le> (2 :: nat) ^ j" using t(2) [OF u(1)] aligned_len [OF j] aligned_len [OF k(1)] by simp
  then have "k \<le> j" by (rule power_le_imp_le_exp [rotated]) simp
  show False
  proof (cases "k = j")
    case True
    then have "beg u = b'"
      using multiple_le [of "2 ^ k" b' "beg u"] b'(2) u(2,3) j by (auto simp: aligned_def)
    have apart: "\<not> 2 * (fin v - beg v) dvd beg v"
      if "v \<in># P" "w \<in># P" "beg w = fin v" "fin w - beg w = fin v - beg v" for v w
      using s' that unfolding unpaired_def by blast
    have "fin u = b' + 2 ^ k" using j True \<open>beg u = b'\<close> by (simp add: aligned_def)
    then show False
      using apart [OF t(1) u(1)] apart [OF u(1) t(1)] b'(3) k(2) \<open>beg u = b'\<close> by auto
  next
    case False
    then have both: "beg u \<le> beg t \<and> beg t < fin u"
      using covers_both [OF j _ u(2,3) b'(3)] \<open>k \<le> j\<close> by simp
    have "u \<noteq> t" using False j k(1) aligned_unique by blast
    then obtain P' where "P = add_mset t (add_mset u P')"
      using t(1) u(1) by (metis insert_noteq_member mset_add)
    then have "cover {#} P (beg t) \<ge> 2"
      using both aligned_len [OF k(1)] by (simp add: covers_def)
    then show False using cov [OF small(2)] by simp
  qed
qed


section \<open>Progress\<close>

text \<open>
  What is still to be done on the tasks that are handed out. Only a pairing adds to it, and only a
  feeding or a pairing creates a task.
\<close>

definition task_work :: "task \<Rightarrow> nat" where
  "task_work t = 4 + length (task_ops (beg t) (fin t) (torswap t))"

fun slave_work :: "slave \<Rightarrow> nat" where
  "slave_work (Working t es) = 3 + length es"
| "slave_work (Returning t) = 2"
| "slave_work _ = 0"

fun master_work :: "master \<Rightarrow> nat" where
  "master_work (Sending t) = Suc (task_work t)"
| "master_work _ = 0"

definition backlog :: "('q \<Rightarrow> task multiset) \<Rightarrow> ('q, 'a) sorter \<Rightarrow> nat" where
  "backlog contents s =
     (\<Sum>t \<in># contents (to_slave s). task_work t) + master_work (master s) +
     (\<Sum>w \<leftarrow> slaves s. slave_work w) + size (contents (to_master s))"

definition unpairings :: "('q, 'a) sorter \<Rightarrow> nat" where
  "unpairings s = (\<Sum>c \<leftarrow> pcount s. 256 - unat c)"

definition unfed :: "('q, 'a) sorter \<Rightarrow> nat" where
  "unfed s = length (base s) - feed_in s"

definition nearer :: "('q \<Rightarrow> task multiset) \<Rightarrow> (('q, 'a) sorter \<times> ('q, 'a) sorter) set" where
  "nearer contents = measures [unpairings, unfed, backlog contents]"

lemma wf_nearer: "wf (nearer contents)"
  by (simp add: nearer_def)

definition idle :: "slave \<Rightarrow> bool" where
  "idle w \<longleftrightarrow> w = Polling \<or> w = Checking"

text \<open>A schedule that ends the sort or brings it nearer to its end.\<close>

definition gets_on ::
  "('q, task) queue_ops \<Rightarrow> ('q \<Rightarrow> task multiset) \<Rightarrow> ('q, 'a::linorder) sorter \<Rightarrow> bool" where
  "gets_on Q contents s \<longleftrightarrow>
     (\<exists>is. let s' = fold (scheduled Q) is s in master s' = Finished \<or> (s', s) \<in> nearer contents)"

context sorter_queue
begin

lemma nearer_backlog:
  "unpairings s' = unpairings s \<Longrightarrow> unfed s' = unfed s \<Longrightarrow> backlog contents s' < backlog contents s \<Longrightarrow>
    (s', s) \<in> nearer contents"
  by (simp add: nearer_def)

lemma slave_nearer:
  assumes "sorter_inv contents m xs0 s" "master s \<noteq> Finished" "i < length (slaves s)"
    "slaves s ! i \<noteq> Stopped" "\<not> idle (slaves s ! i)"
  shows "(slave_step Q i s, s) \<in> nearer contents"
proof (rule nearer_backlog)
  have keep: "pcount (slave_step Q i s) = pcount s \<and> feed_in (slave_step Q i s) = feed_in s \<and>
      length (base (slave_step Q i s)) = length (base s)"
    by (auto simp: slave_step_def split: slave.splits list.splits option.splits)
  then show "unpairings (slave_step Q i s) = unpairings s" "unfed (slave_step Q i s) = unfed s"
    by (simp_all add: unpairings_def unfed_def)
  have "slaves s ! i \<in> set (slaves s)" using assms(3) by simp
  then have "slaves s ! i \<noteq> Broken" using assms(1) by (auto simp: sorter_inv_def)
  then consider t e es where "slaves s ! i = Working t (e # es)" | t where "slaves s ! i = Working t []"
    | t where "slaves s ! i = Returning t"
  proof (cases "slaves s ! i")
    case (Working t es)
    then show ?thesis using that(1,2) by (cases es) auto
  qed (use assms(4,5) that(3) in \<open>auto simp: idle_def\<close>)
  then show "backlog contents (slave_step Q i s) < backlog contents s"
  proof cases
    case 1
    have "slave_step Q i s \<noteq> s\<lparr>slaves := (slaves s)[i := Broken]\<rparr>"
      using inv_slave_step [OF assms(1,3)] assms(3) set_update_memI [of i "slaves s" Broken]
      by (auto simp: sorter_inv_def)
    then have "slave_step Q i s = s\<lparr>base := exchange (fst e) (snd e) (base s),
        slaves := (slaves s)[i := Working t es]\<rparr>"
      by (simp add: slave_step_def 1 split: if_splits)
    then show ?thesis
      using sum_list_update_nat [OF assms(3), of slave_work "Working t es"]
      by (simp add: backlog_def 1)
  next
    case 2
    then show ?thesis
      using sum_list_update_nat [OF assms(3), of slave_work "Returning t"]
      by (simp add: backlog_def slave_step_def)
  next
    case 3
    then show ?thesis
      using sum_list_update_nat [OF assms(3), of slave_work "Checking"]
      by (simp add: backlog_def slave_step_def push_ignoring_contents)
  qed
qed

lemma taking_nearer:
  assumes "slaves s ! i = Polling" "i < length (slaves s)" "contents (to_slave s) \<noteq> {#}"
  shows "(slave_step Q i s, s) \<in> nearer contents"
proof -
  obtain t q where q: "q_pop Q (to_slave s) = Some (t, q)" "contents (to_slave s) = add_mset t (contents q)"
    using assms(3) pop_empty pop_contents by (metis option.exhaust surj_pair)
  show ?thesis
    by (rule nearer_backlog)
      (use sum_list_update_nat [OF assms(2), of slave_work
          "Working t (task_ops (beg t) (fin t) (torswap t))"] assms(1) q in
        \<open>simp_all add: slave_step_def unpairings_def unfed_def backlog_def task_work_def\<close>)
qed

lemma feed_nearer:
  "feed_in s < length (base s) \<Longrightarrow> (feed Q pc s, s) \<in> nearer contents"
  by (simp add: nearer_def unpairings_def unfed_def feed_def) linarith

lemma pairing_nearer:
  assumes "sorter_inv contents m xs0 s" "0 < m" "m < 64" "master s = Pairing" "contents (to_master s) \<noteq> {#}"
  shows "master (master_step Q s) = Finished \<or> (master_step Q s, s) \<in> nearer contents"
proof -
  obtain t q where q: "q_pop Q (to_master s) = Some (t, q)" "contents (to_master s) = add_mset t (contents q)"
    using assms(5) pop_empty pop_contents by (metis option.exhaust surj_pair)
  let ?s = "s\<lparr>to_master := q\<rparr>"
  have step: "master_step Q s = pairing t ?s" by (simp add: master_step_def assms(4) q(1))
  have no_overrun: "master (pairing t ?s) \<noteq> Overrun"
    using inv_master_step [OF assms(1-3)] by (simp add: sorter_inv_def step)
  show ?thesis
  proof (cases "fin t - beg t = length (base s)")
    case True
    then show ?thesis by (simp add: step pairing_def)
  next
    case False
    obtain P where P: "sorting xs0 (base s) (jobs contents s) P (feed_in s) (pcount s)"
      using assms(1,4) by (auto simp: sorter_inv_def)
    have "(t, []) \<in># jobs contents s" by (simp add: jobs_def q(2))
    then have al: "aligned (Suc (unat (pcount s ! beg t))) t" and "fin t \<le> length (base s)"
      using P sorting_within(1) [OF P, of "(t, [])"] by (auto simp: sorting_def)
    moreover have len: "length (base s) = 2 ^ m" "length (pcount s) = length (base s)"
      using assms(1) P by (simp_all add: sorter_inv_def sorting_def)
    ultimately have small: "Suc (unat (pcount s ! beg t)) \<le> m" "beg t < length (pcount s)"
      using aligned_small [OF al, of m] by simp_all
    have "unat (pcount s ! beg t + 1) = Suc (unat (pcount s ! beg t))"
      using small(1) assms(3) by (intro unat_Suc_byte) simp
    then have "unpairings (s\<lparr>pcount := (pcount s)[beg t := pcount s ! beg t + 1]\<rparr>) < unpairings s"
      using sum_list_update_nat [OF small(2), of "\<lambda>c. 256 - unat c" "pcount s ! beg t + 1"] small(1) assms(3)
      by (simp add: unpairings_def)
    moreover have "pcount (pairing t ?s) = (pcount s)[beg t := pcount s ! beg t + 1]"
      using no_overrun False by (auto simp: pairing_def Let_def split: if_splits)
    ultimately have "unpairings (pairing t ?s) < unpairings s" by (simp add: unpairings_def)
    then show ?thesis by (simp add: step nearer_def)
  qed
qed

lemma no_jobs_idle:
  assumes "\<forall>w \<in> set ws. idle w"
  shows "sum_list (map slave_jobs ws) = {#}"
  using assms by (induction ws) (auto simp: idle_def)

text \<open>When only the master has something to do, it gets on within three of its steps.\<close>

lemma nearer_master: "(s', s\<lparr>master := pc\<rparr>) \<in> nearer contents \<Longrightarrow> master_work pc = master_work (master s) \<Longrightarrow>
    (s', s) \<in> nearer contents"
  by (auto simp: nearer_def unpairings_def unfed_def backlog_def)

lemma waiting_feeds:
  assumes "sorter_inv contents m xs0 s" "0 < m" "master s = Refilling"
    "contents (to_slave s) = {#}" "\<forall>w \<in> set (slaves s). idle w" "contents (to_master s) = {#}"
  shows "(master_step Q s, s) \<in> nearer contents"
proof -
  have jobs: "jobs contents s = {#}"
    using no_jobs_idle [OF assms(5)] assms(3,4,6) by (simp add: jobs_def)
  then obtain P where "on_the_fly s = 0" "sorting xs0 (base s) {#} P (feed_in s) (pcount s)"
    using assms(1,3) by (auto simp: sorter_inv_def)
  moreover have "length (base s) = 2 ^ m" using assms(1) by (simp add: sorter_inv_def)
  moreover from calculation have "feed_in s \<noteq> length (base s)" using some_job_left by blast
  moreover have "feed_in s \<le> length (base s)" using calculation(2) by (simp add: sorting_def)
  ultimately have "master_step Q s = feed Q Pairing s" "feed_in s < length (base s)"
    by (simp_all add: master_step_def assms(3) MAX_ON_THE_FLY_def)
  then show ?thesis using feed_nearer by simp
qed

lemma gets_onI:
  "master (fold (scheduled Q) is s) = Finished \<or> (fold (scheduled Q) is s, s) \<in> nearer contents \<Longrightarrow> gets_on Q contents s"
  unfolding gets_on_def Let_def by blast

lemma gets_on_later:
  assumes "gets_on Q contents s'" "s' = fold (scheduled Q) sched s"
    "\<And>s''. (s'', s') \<in> nearer contents \<Longrightarrow> (s'', s) \<in> nearer contents"
  shows "gets_on Q contents s"
proof -
  obtain js where "master (fold (scheduled Q) js s') = Finished \<or>
      (fold (scheduled Q) js s', s') \<in> nearer contents"
    using assms(1) by (auto simp: gets_on_def Let_def)
  then show ?thesis
    using assms(2,3) by (intro gets_onI [of "sched @ js"]) auto
qed

lemma pairing_gets_on:
  assumes "sorter_inv contents m xs0 s" "0 < m" "m < 64" "master s = Pairing"
    "contents (to_slave s) = {#}" "\<forall>w \<in> set (slaves s). idle w"
  shows "gets_on Q contents s"
proof (cases "contents (to_master s) = {#}")
  case True
  let ?s = "s\<lparr>master := Refilling\<rparr>"
  have s: "scheduled Q None s = ?s"
    using True by (simp add: scheduled_def master_step_def assms(4) pop_empty)
  then have "sorter_inv contents m xs0 ?s"
    using inv_master_step [OF assms(1-3)] by (simp add: scheduled_def)
  from waiting_feeds [OF this assms(2)] assms(5,6) True
  have "(master_step Q ?s, ?s) \<in> nearer contents" by simp
  then have "(master_step Q ?s, s) \<in> nearer contents" by (rule nearer_master) (simp add: assms(4))
  then show ?thesis
    by (intro gets_onI [of "[None, None]"]) (simp add: s, simp add: scheduled_def)
next
  case False
  from pairing_nearer [OF assms(1-4) this] show ?thesis
    by (intro gets_onI [of "[None]"]) (simp add: scheduled_def)
qed

lemma master_gets_on:
  assumes "sorter_inv contents m xs0 s" "0 < m" "m < 64" "master s \<noteq> Finished"
    "contents (to_slave s) = {#}" "\<forall>w \<in> set (slaves s). idle w"
  shows "gets_on Q contents s"
proof -
  note inv = inv_master_step [OF assms(1-3)]
  have turn: "gets_on Q contents s" if s: "master_step Q s = s\<lparr>master := Pairing\<rparr>" "master_work (master s) = 0"
  proof (rule gets_on_later [where sched = "[None]"])
    show "gets_on Q contents (s\<lparr>master := Pairing\<rparr>)"
      using pairing_gets_on [of m xs0 "s\<lparr>master := Pairing\<rparr>"] inv assms(2,3,5,6) s(1) by simp
    show "s\<lparr>master := Pairing\<rparr> = fold (scheduled Q) [None] s" using s(1) by (simp add: scheduled_def)
    fix s'' assume "(s'', s\<lparr>master := Pairing\<rparr>) \<in> nearer contents"
    then show "(s'', s) \<in> nearer contents" by (rule nearer_master) (simp add: s(2))
  qed
  have once: "gets_on Q contents s" if "(master_step Q s, s) \<in> nearer contents"
    using that by (intro gets_onI [of "[None]"]) (simp add: scheduled_def)
  show ?thesis
  proof (cases "master s")
    case Feeding
    then show ?thesis
      using turn once feed_nearer [of s "if MAX_ON_THE_FLY \<le> on_the_fly s + 1 then Pairing else Feeding"]
      by (cases "feed_in s < length (base s)") (simp_all add: master_step_def)
  next
    case Pairing
    then show ?thesis using pairing_gets_on [OF assms(1-3) _ assms(5,6)] by simp
  next
    case (Sending t)
    then have "(master_step Q s, s) \<in> nearer contents"
      by (intro nearer_backlog)
        (simp_all add: master_step_def unpairings_def unfed_def backlog_def push_ignoring_contents task_work_def)
    then show ?thesis by (rule once)
  next
    case Refilling
    then show ?thesis
      using turn once feed_nearer [of s Pairing]
      by (cases "feed_in s < length (base s) \<and> on_the_fly s < MAX_ON_THE_FLY")
        (simp_all add: master_step_def)
  qed (use assms(1,4) in \<open>simp_all add: sorter_inv_def\<close>)
qed

lemma sorter_gets_on:
  assumes "sorter_inv contents m xs0 s" "0 < m" "m < 64" "master s \<noteq> Finished"
    "slaves s \<noteq> []" "Stopped \<notin> set (slaves s)"
  shows "gets_on Q contents s"
proof (cases "\<forall>w \<in> set (slaves s). idle w")
  case False
  then obtain i where i: "i < length (slaves s)" "\<not> idle (slaves s ! i)" by (auto simp: in_set_conv_nth)
  moreover have "slaves s ! i \<noteq> Stopped" using assms(6) i(1) by (metis nth_mem)
  ultimately have "(slave_step Q i s, s) \<in> nearer contents"
    using slave_nearer assms(1,4) by blast
  then show ?thesis by (intro gets_onI [of "[Some i]"]) (simp add: scheduled_def i(1))
next
  case all_idle: True
  have 0: "0 < length (slaves s)" using assms(5) by simp
  show ?thesis
  proof (cases "contents (to_slave s) = {#}")
    case True
    then show ?thesis using master_gets_on [OF assms(1-4)] all_idle by blast
  next
    case False
    have "idle (slaves s ! 0)" using all_idle 0 by simp
    then consider "slaves s ! 0 = Polling" | "slaves s ! 0 = Checking" by (auto simp: idle_def)
    then show ?thesis
    proof cases
      case 1
      then show ?thesis
        using taking_nearer [OF _ 0 False] 0 by (intro gets_onI [of "[Some 0]"]) (simp add: scheduled_def)
    next
      case 2
      let ?s = "s\<lparr>slaves := (slaves s)[0 := Polling]\<rparr>"
      have "\<not> lock_done s" using assms(1,4) by (simp add: sorter_inv_def)
      then have s: "scheduled Q (Some 0) s = ?s" using 0 2 by (simp add: scheduled_def slave_step_def)
      have "(slave_step Q 0 ?s, ?s) \<in> nearer contents"
        using taking_nearer [of ?s 0] 0 False by simp
      moreover have "backlog contents ?s = backlog contents s"
        using sum_list_update_nat [OF 0, of slave_work Polling] 2 by (simp add: backlog_def)
      ultimately have "(slave_step Q 0 ?s, s) \<in> nearer contents"
        by (simp add: nearer_def unpairings_def unfed_def)
      then show ?thesis
        using 0 by (intro gets_onI [of "[Some 0, Some 0]"]) (simp add: s, simp add: scheduled_def)
    qed
  qed
qed

lemma reach_slaves:
  assumes "sort_reach Q k xs s"
  shows "length (slaves s) = k \<and> (Stopped \<in> set (slaves s) \<longrightarrow> lock_done s)"
  using assms
proof (induction rule: sort_reach.induct)
  case sort_init
  show ?case by (simp add: sort_start_def)
next
  case (sort_master s)
  have "slaves (master_step Q s) = slaves s \<and> (lock_done s \<longrightarrow> lock_done (master_step Q s))"
    by (auto simp: master_step_def feed_def pairing_def Let_def split: master.splits option.splits)
  with sort_master.IH show ?case by auto
next
  case (sort_slave s i)
  have "\<exists>w. slaves (slave_step Q i s) = (slaves s)[i := w] \<and> (w = Stopped \<longrightarrow> lock_done s \<or> slaves s ! i = Stopped)"
  proof (cases "slaves s ! i = Stopped \<or> slaves s ! i = Broken")
    case True
    then have "slave_step Q i s = s" by (auto simp: slave_step_def)
    then show ?thesis by (intro exI [of _ "slaves s ! i"]) simp
  qed (auto simp: slave_step_def split: slave.splits list.splits option.splits)
  moreover have "lock_done (slave_step Q i s) = lock_done s"
    by (auto simp: slave_step_def split: slave.splits list.splits option.splits)
  moreover have "slaves s ! i \<in> set (slaves s)" using sort_slave(2) by simp
  ultimately show ?case
    using sort_slave by (cases "slaves s ! i = Stopped") (auto dest!: set_update_subset_insert [THEN subsetD])
qed

lemma can_finish:
  assumes "sort_reach Q k xs s" "length xs = 2 ^ m" "0 < m" "m < 64" "0 < k"
  shows "\<exists>is. master (fold (scheduled Q) is s) = Finished"
  using assms(1)
proof (induction s rule: wf_induct_rule [OF wf_nearer [of contents]])
  case (1 s)
  show ?case
  proof (cases "master s = Finished")
    case True
    then show ?thesis by (intro exI [of _ "[]"]) simp
  next
    case False
    note inv = sort_reach_inv [OF 1(2) assms(2-4)]
    have "\<not> lock_done s" using inv False by (simp add: sorter_inv_def)
    then have "gets_on Q contents s"
      using sorter_gets_on [OF inv assms(3,4) False] reach_slaves [OF 1(2)] assms(5) by auto
    then obtain "is" where s': "master (fold (scheduled Q) is s) = Finished \<or>
        (fold (scheduled Q) is s, s) \<in> nearer contents"
      by (auto simp: gets_on_def Let_def)
    then show ?thesis
    proof
      assume "(fold (scheduled Q) is s, s) \<in> nearer contents"
      from 1(1) [OF this scheduled_reach [OF 1(2)]] obtain js where
        "master (fold (scheduled Q) (is @ js) s) = Finished" by auto
      then show ?thesis by blast
    qed blast
  qed
qed

end

section \<open>Properties\<close>

text \<open>
  C5: The parallel sort never gets stuck: from every state that some interleaving reaches, with at
  least one slave, there is a continuation in which the master ends its loop, and then the array
  is sorted.
\<close>

theorem bitonic_sort_can_finish:
  assumes "unbounded_queue Q contents" "sort_reach Q k xs s" "length xs = 2 ^ m" "0 < m" "m < 64" "0 < k"
  shows "\<exists>is. let s' = fold (scheduled Q) is s in
    master s' = Finished \<and> sorted (base s') \<and> mset (base s') = mset xs"
proof -
  have Q: "sorter_queue Q contents" using assms(1) by (simp add: sorter_queue_def)
  from sorter_queue.can_finish [OF Q assms(2-6)]
  obtain "is" where fin: "master (fold (scheduled Q) is s) = Finished" by blast
  from sorter_queue.sort_reach_inv [OF Q scheduled_reach [OF assms(2)] assms(3-5)] fin
  show ?thesis by (intro exI [of _ "is"]) (simp add: sorter_inv_def Let_def)
qed

theorem bitonic_sort_can_finish_witness:
  "\<exists>is. let s' = fold (scheduled std_queue) is
      (fold (scheduled std_queue) [None, Some 0, None, Some 1] (sort_start std_queue 2 [4, 3, 2, 1 :: nat])) in
    master s' = Finished \<and> sorted (base s') \<and> mset (base s') = mset [4, 3, 2, 1]"
  by (rule bitonic_sort_can_finish [OF std.unbounded_queue_axioms scheduled_reach [OF sort_init], of _ 2])
    simp_all

end
