(* ===== verification/Bitonic_Fair.thy ===== *)
theory Bitonic_Fair
  imports Bitonic_Live
begin

text \<open>
  Under a fair schedule the sort of \<^verbatim>\<open>apps/bitonic/boost.cpp\<close> ends. A turn either brings the
  sort nearer to its end or is quiet: it changes no queue, no count and no element. A run that does
  not end is quiet from some time on, and then no thread could be anywhere (\<open>not_stuck\<close>).
\<close>

section \<open>Fair schedules\<close>

primrec sort_run ::
  "('q, task) queue_ops \<Rightarrow> (nat \<Rightarrow> nat option) \<Rightarrow> ('q, 'a::linorder) sorter \<Rightarrow> nat \<Rightarrow> ('q, 'a) sorter" where
  "sort_run Q \<sigma> s 0 = s"
| "sort_run Q \<sigma> s (Suc n) = scheduled Q (\<sigma> n) (sort_run Q \<sigma> s n)"

text \<open>The master and each of the \<open>k\<close> slaves get their turn again and again.\<close>

definition fair :: "nat \<Rightarrow> (nat \<Rightarrow> nat option) \<Rightarrow> bool" where
  "fair k \<sigma> \<longleftrightarrow> (\<forall>n. (\<exists>m \<ge> n. \<sigma> m = None) \<and> (\<forall>i < k. \<exists>m \<ge> n. \<sigma> m = Some i))"

lemma fair_shift:
  assumes "fair k \<sigma>"
  shows "fair k (\<lambda>n. \<sigma> (N + n))"
  unfolding fair_def
proof (intro allI conjI impI)
  fix n
  obtain j where "N + n \<le> j" "\<sigma> j = None" using assms unfolding fair_def by blast
  then show "\<exists>m \<ge> n. \<sigma> (N + m) = None" by (intro exI [of _ "j - N"]) simp
  fix i assume "i < k"
  then obtain j where "N + n \<le> j" "\<sigma> j = Some i" using assms unfolding fair_def by blast
  then show "\<exists>m \<ge> n. \<sigma> (N + m) = Some i" by (intro exI [of _ "j - N"]) simp
qed

definition quiet :: "('q \<Rightarrow> task multiset) \<Rightarrow> ('q, 'a) sorter \<Rightarrow> ('q, 'a) sorter \<Rightarrow> bool" where
  "quiet contents s s' \<longleftrightarrow>
     contents (to_slave s') = contents (to_slave s) \<and> contents (to_master s') = contents (to_master s) \<and>
     unpairings s' = unpairings s \<and> unfed s' = unfed s \<and> backlog contents s' = backlog contents s"

lemma quiet_refl [simp]: "quiet contents s s"
  by (simp add: quiet_def)

lemma quiet_trans: "quiet contents s s' \<Longrightarrow> quiet contents s' s'' \<Longrightarrow> quiet contents s s''"
  by (simp add: quiet_def)

lemma quiet_not_nearer: "(s', s) \<in> nearer contents \<Longrightarrow> \<not> quiet contents s s'"
  by (auto simp: quiet_def nearer_def)

lemma quiet_nearer: "quiet contents s s' \<Longrightarrow> (s'', s') \<in> nearer contents \<Longrightarrow> (s'', s) \<in> nearer contents"
  by (simp add: quiet_def nearer_def)

lemma master_step_slaves: "slaves (master_step Q s) = slaves s"
  by (auto simp: master_step_def feed_def pairing_def Let_def split: option.splits master.splits)

lemma slave_step_master: "master (slave_step Q i s) = master s"
  by (auto simp: slave_step_def split: slave.splits list.splits option.splits)

lemma slave_step_others: "i \<noteq> j \<Longrightarrow> slaves (slave_step Q j s) ! i = slaves s ! i"
  by (auto simp: slave_step_def split: slave.splits list.splits option.splits)

lemma slave_step_length: "length (slaves (slave_step Q i s)) = length (slaves s)"
  by (auto simp: slave_step_def split: slave.splits list.splits option.splits)

lemma scheduled_others:
  "th \<noteq> Some i \<Longrightarrow> slaves (scheduled Q th s) ! i = slaves s ! i"
  "th \<noteq> None \<Longrightarrow> master (scheduled Q th s) = master s"
  by (cases th; cases "i = the th"; simp add: scheduled_def master_step_slaves slave_step_master
      slave_step_others)+

context sorter_queue
begin

lemma slave_turn:
  assumes "sorter_inv contents m xs0 s" "master s \<noteq> Finished" "i < length (slaves s)" "slaves s ! i \<noteq> Stopped"
  shows "(slave_step Q i s, s) \<in> nearer contents \<or> quiet contents s (slave_step Q i s)"
proof (cases "idle (slaves s ! i)")
  case False
  then show ?thesis using slave_nearer [OF assms] by simp
next
  case True
  then consider "slaves s ! i = Polling" "contents (to_slave s) \<noteq> {#}"
    | "slaves s ! i = Polling" "q_pop Q (to_slave s) = None" | "slaves s ! i = Checking"
    using pop_empty [of "to_slave s"] by (cases "q_pop Q (to_slave s)") (auto simp: idle_def)
  then show ?thesis
  proof cases
    case 1
    then show ?thesis using taking_nearer assms(3) by blast
  next
    case 2
    then show ?thesis
      using sum_list_update_nat [OF assms(3), of slave_work Checking]
      by (simp add: slave_step_def quiet_def unpairings_def unfed_def backlog_def)
  next
    case 3
    then show ?thesis
      using sum_list_update_nat [OF assms(3), of slave_work "if lock_done s then Stopped else Polling"]
      by (simp add: slave_step_def quiet_def unpairings_def unfed_def backlog_def)
  qed
qed

lemma sending_nearer: "master s = Sending t \<Longrightarrow> (master_step Q s, s) \<in> nearer contents"
  by (intro nearer_backlog)
    (simp_all add: master_step_def unpairings_def unfed_def backlog_def push_ignoring_contents task_work_def)

lemma feeding_turn:
  "master s = Feeding \<Longrightarrow> (master_step Q s, s) \<in> nearer contents \<or>
    master_step Q s = s\<lparr>master := Pairing\<rparr>"
  using feed_nearer [of s "if MAX_ON_THE_FLY \<le> on_the_fly s + 1 then Pairing else Feeding"]
  by (cases "feed_in s < length (base s)") (simp_all add: master_step_def)

lemma refilling_turn:
  "master s = Refilling \<Longrightarrow> (master_step Q s, s) \<in> nearer contents \<or>
    master_step Q s = s\<lparr>master := Pairing\<rparr>"
  using feed_nearer [of s Pairing]
  by (cases "feed_in s < length (base s) \<and> on_the_fly s < MAX_ON_THE_FLY") (simp_all add: master_step_def)

lemma pairing_turn:
  assumes "sorter_inv contents m xs0 s" "0 < m" "m < 64" "master s = Pairing"
  shows "master (master_step Q s) = Finished \<or> (master_step Q s, s) \<in> nearer contents \<or>
    contents (to_master s) = {#} \<and> master_step Q s = s\<lparr>master := Refilling\<rparr>"
  using pairing_nearer [OF assms]
  by (cases "q_pop Q (to_master s)") (simp_all add: master_step_def assms(4) pop_empty)

lemma quiet_master:
  "master_work pc = master_work (master s) \<Longrightarrow> quiet contents s (s\<lparr>master := pc\<rparr>)"
  by (simp add: quiet_def unpairings_def unfed_def backlog_def)

lemma master_turn:
  assumes "sorter_inv contents m xs0 s" "0 < m" "m < 64" "master s \<noteq> Finished"
  shows "master (master_step Q s) = Finished \<or> (master_step Q s, s) \<in> nearer contents \<or>
    quiet contents s (master_step Q s)"
proof (cases "master s")
  case Feeding
  then show ?thesis using feeding_turn [OF Feeding] quiet_master [of Pairing s] by auto
next
  case Pairing
  then show ?thesis using pairing_turn [OF assms(1-3) Pairing] quiet_master [of Refilling s] by auto
next
  case (Sending t)
  then show ?thesis using sending_nearer by blast
next
  case Refilling
  then show ?thesis using refilling_turn [OF Refilling] quiet_master [of Pairing s] by auto
qed (use assms in \<open>simp_all add: sorter_inv_def\<close>)

lemma scheduled_turn:
  assumes "sorter_inv contents m xs0 s" "0 < m" "m < 64" "master s \<noteq> Finished"
    "Stopped \<notin> set (slaves s)" "master (scheduled Q th s) \<noteq> Finished"
  shows "(scheduled Q th s, s) \<in> nearer contents \<or> quiet contents s (scheduled Q th s)"
proof (cases th)
  case None
  then show ?thesis using master_turn [OF assms(1-4)] assms(6) by (simp add: scheduled_def)
next
  case (Some i)
  have "slaves s ! i \<noteq> Stopped" if "i < length (slaves s)" using assms(5) that by (metis nth_mem)
  then show ?thesis
    using slave_turn [OF assms(1,4), of i] by (auto simp: scheduled_def Some)
qed

end

text \<open>Ignored by the others, a thread is where it was until its next turn.\<close>

lemma next_turn:
  assumes "\<exists>j \<ge> n. P j" "\<And>j. \<not> P j \<Longrightarrow> f (Suc j) = f j"
  obtains j where "n \<le> j" "P j" "f j = f n"
proof -
  define j where "j = (LEAST j. n \<le> j \<and> P j)"
  have j: "n \<le> j" "P j" and least: "\<And>i. n \<le> i \<Longrightarrow> i < j \<Longrightarrow> \<not> P i"
  proof -
    have "\<exists>j. n \<le> j \<and> P j" using assms(1) by blast
    from LeastI_ex [OF this] show "n \<le> j" "P j" unfolding j_def by blast+
    show "\<not> P i" if "n \<le> i" "i < j" for i
      using not_less_Least [of i "\<lambda>j. n \<le> j \<and> P j"] that unfolding j_def by blast
  qed
  have "f (n + d) = f n" if "n + d \<le> j" for d
    using that by (induction d) (use assms(2) least in auto)
  from this [of "j - n"] j show thesis using that [of j] by simp
qed


lemma sort_run_reach: "sort_reach Q k xs s \<Longrightarrow> sort_reach Q k xs (sort_run Q \<sigma> s n)"
proof (induction n)
  case (Suc n)
  then show ?case using scheduled_reach [of Q k xs "sort_run Q \<sigma> s n" "[\<sigma> n]"] by simp
qed simp

lemma stopped_stays: "slaves s ! i = Stopped \<Longrightarrow> slaves (sort_run Q \<sigma> s n) ! i = Stopped"
proof (induction n)
  case (Suc n)
  then show ?case
    using scheduled_others(1) [of "\<sigma> n" i Q "sort_run Q \<sigma> s n"]
    by (cases "\<sigma> n = Some i") (simp_all add: scheduled_def slave_step_def)
qed simp

lemma run_add: "sort_run Q \<sigma> s (n + j) = sort_run Q (\<lambda>i. \<sigma> (n + i)) (sort_run Q \<sigma> s n) j"
  by (induction j) simp_all

lemma next_slave:
  assumes "fair k \<sigma>" "i < k" "length (slaves s) = k"
  obtains j where "n \<le> j" "sort_run Q \<sigma> s (Suc j) = slave_step Q i (sort_run Q \<sigma> s j)"
    "slaves (sort_run Q \<sigma> s j) ! i = slaves (sort_run Q \<sigma> s n) ! i"
proof -
  have len: "length (slaves (sort_run Q \<sigma> s j)) = k" for j
    by (induction j) (simp_all add: assms(3) scheduled_def master_step_slaves slave_step_length split: option.splits)
  have "\<exists>j \<ge> n. \<sigma> j = Some i" using assms(1,2) by (simp add: fair_def)
  then obtain j where "n \<le> j" "\<sigma> j = Some i" "slaves (sort_run Q \<sigma> s j) ! i = slaves (sort_run Q \<sigma> s n) ! i"
    using next_turn [where f = "\<lambda>j. slaves (sort_run Q \<sigma> s j) ! i" and P = "\<lambda>j. \<sigma> j = Some i" and n = n]
      scheduled_others(1) by (metis sort_run.simps(2))
  then show thesis using that len assms(2) by (simp add: scheduled_def)
qed

text \<open>What never ends, but also never moves away, is quiet from some time on.\<close>

lemma eventually_quiet:
  fixes r :: "nat \<Rightarrow> ('q, 'a) sorter"
  assumes "\<And>n. (r (Suc n), r n) \<in> nearer contents \<or> quiet contents (r n) (r (Suc n))"
  shows "\<exists>N. \<forall>n \<ge> N. quiet contents (r N) (r n)"
proof -
  have "\<exists>N. \<forall>n \<ge> N. quiet contents (r N) (r n)" if "r n0 = s" for s n0
    using that
  proof (induction s arbitrary: n0 rule: wf_induct_rule [OF wf_nearer [of contents]])
    case (1 s)
    show ?case
    proof (cases "\<forall>n \<ge> n0. quiet contents (r n0) (r n)")
      case False
      then obtain n where n: "n0 \<le> n" "\<not> quiet contents (r n0) (r n)" by blast
      define j where "j = (LEAST j. \<not> quiet contents (r n0) (r (n0 + j)))"
      have "\<not> quiet contents (r n0) (r (n0 + (n - n0)))" using n by simp
      then have j: "\<not> quiet contents (r n0) (r (n0 + j))" unfolding j_def by (rule LeastI)
      then obtain i where i: "j = Suc i" by (cases j) auto
      have before: "quiet contents (r n0) (r (n0 + i))"
        using not_less_Least [of i "\<lambda>j. \<not> quiet contents (r n0) (r (n0 + j))"] i by (simp add: j_def)
      then have "\<not> quiet contents (r (n0 + i)) (r (Suc (n0 + i)))" using j i quiet_trans by force
      then have "(r (Suc (n0 + i)), r (n0 + i)) \<in> nearer contents" using assms by blast
      then have "(r (Suc (n0 + i)), s) \<in> nearer contents" using before 1(2) quiet_nearer by metis
      from 1(1) [OF this refl] show ?thesis .
    qed blast
  qed
  then show ?thesis by blast
qed

text \<open>
  A run that is quiet and does not end. No slave has a task then, as it would work on it at its
  next turn; nothing waits to be taken by a slave; and the master has nowhere to be.
\<close>

definition stuck ::
  "('q, task) queue_ops \<Rightarrow> ('q \<Rightarrow> task multiset) \<Rightarrow> nat \<Rightarrow> 'a::linorder list \<Rightarrow> nat \<Rightarrow>
    (nat \<Rightarrow> nat option) \<Rightarrow> (nat \<Rightarrow> ('q, 'a) sorter) \<Rightarrow> bool" where
  "stuck Q contents m xs0 k \<sigma> r \<longleftrightarrow>
     0 < m \<and> m < 64 \<and> 0 < k \<and> fair k \<sigma> \<and>
     (\<forall>n. r (Suc n) = scheduled Q (\<sigma> n) (r n) \<and> quiet contents (r 0) (r n) \<and>
       sorter_inv contents m xs0 (r n) \<and> master (r n) \<noteq> Finished \<and>
       length (slaves (r n)) = k \<and> Stopped \<notin> set (slaves (r n)))"

lemma stuckD:
  assumes "stuck Q contents m xs0 k \<sigma> r"
  shows "0 < m" "m < 64" "0 < k" "fair k \<sigma>" "r (Suc n) = scheduled Q (\<sigma> n) (r n)"
    "quiet contents (r 0) (r n)" "sorter_inv contents m xs0 (r n)" "master (r n) \<noteq> Finished"
    "length (slaves (r n)) = k" "Stopped \<notin> set (slaves (r n))"
  using assms by (simp_all add: stuck_def)

lemma stuck_calm: "stuck Q contents m xs0 k \<sigma> r \<Longrightarrow> (r (Suc n), r n) \<notin> nearer contents"
  using stuckD(6) [of Q contents m xs0 k \<sigma> r n] stuckD(6) [of Q contents m xs0 k \<sigma> r "Suc n"]
  by (auto simp: quiet_def nearer_def)

lemma stuck_slave_turn:
  assumes "stuck Q contents m xs0 k \<sigma> r" "i < k"
  obtains j where "n \<le> j" "r (Suc j) = slave_step Q i (r j)" "slaves (r j) ! i = slaves (r n) ! i"
proof -
  note st = stuckD [OF assms(1)]
  have "\<exists>j \<ge> n. \<sigma> j = Some i" using st(4) assms(2) by (simp add: fair_def)
  then obtain j where "n \<le> j" "\<sigma> j = Some i" "slaves (r j) ! i = slaves (r n) ! i"
    using next_turn [where f = "\<lambda>j. slaves (r j) ! i" and P = "\<lambda>j. \<sigma> j = Some i" and n = n]
      scheduled_others(1) st(5) by metis
  then show thesis using that st(5,9) assms(2) by (simp add: scheduled_def)
qed

lemma stuck_master_turn:
  assumes "stuck Q contents m xs0 k \<sigma> r"
  obtains j where "n \<le> j" "r (Suc j) = master_step Q (r j)" "master (r j) = master (r n)"
proof -
  note st = stuckD [OF assms(1)]
  have "\<exists>j \<ge> n. \<sigma> j = None" using st(4) by (simp add: fair_def)
  then obtain j where "n \<le> j" "\<sigma> j = None" "master (r j) = master (r n)"
    using next_turn [where f = "\<lambda>j. master (r j)" and P = "\<lambda>j. \<sigma> j = None" and n = n]
      scheduled_others(2) st(5) by metis
  then show thesis using that st(5) by (simp add: scheduled_def)
qed

lemma stuck_leaves:
  assumes "stuck Q contents m xs0 k \<sigma> r"
    "\<And>j. master (r j) = pc \<Longrightarrow> r (Suc j) = master_step Q (r j) \<Longrightarrow> master (r (Suc j)) \<in> S"
    "\<And>j. master (r j) \<notin> S"
  shows "master (r n) \<noteq> pc"
  using stuck_master_turn [OF assms(1)] assms(2,3) by metis

context sorter_queue
begin

lemma stuck_idle:
  assumes "stuck Q contents m xs0 k \<sigma> r"
  shows "\<forall>w \<in> set (slaves (r n)). idle w"
proof (intro ballI, rule ccontr)
  note st = stuckD [OF assms]
  fix w assume "w \<in> set (slaves (r n))" and busy: "\<not> idle w"
  then obtain i where i: "i < k" "w = slaves (r n) ! i" using st(9) by (metis in_set_conv_nth)
  obtain j where j: "r (Suc j) = slave_step Q i (r j)" "slaves (r j) ! i = w"
    using stuck_slave_turn [OF assms i(1)] i(2) by metis
  have "slaves (r j) ! i \<noteq> Stopped" using st(9,10) [of j] i(1) by (metis nth_mem)
  then have "(r (Suc j), r j) \<in> nearer contents"
    using slave_nearer [OF st(7,8), of i j] busy j st(9) i(1) by simp
  then show False using stuck_calm [OF assms] by blast
qed

lemma stuck_to_slave:
  assumes "stuck Q contents m xs0 k \<sigma> r"
  shows "contents (to_slave (r n)) = {#}"
proof -
  note st = stuckD [OF assms]
  have polling: "contents (to_slave (r n)) = {#}" if n: "slaves (r n) ! 0 = Polling" for n
  proof (rule ccontr)
    assume full: "contents (to_slave (r n)) \<noteq> {#}"
    obtain j where j: "r (Suc j) = slave_step Q 0 (r j)" "slaves (r j) ! 0 = Polling"
      using stuck_slave_turn [OF assms st(3)] n by metis
    have "contents (to_slave (r j)) \<noteq> {#}"
      using full st(6) [of n] st(6) [of j] by (simp add: quiet_def)
    then have "(r (Suc j), r j) \<in> nearer contents" using taking_nearer [of "r j" 0] j st(3,9) by simp
    then show False using stuck_calm [OF assms] by blast
  qed
  obtain j where j: "r (Suc j) = slave_step Q 0 (r j)" using stuck_slave_turn [OF assms st(3)] by metis
  have "idle (slaves (r j) ! 0)" using stuck_idle [OF assms, of j] st(3) st(9) [of j] by simp
  moreover have "\<not> lock_done (r j)" using st(7,8) [of j] by (simp add: sorter_inv_def)
  ultimately have "slaves (r j) ! 0 = Polling \<or> slaves (r (Suc j)) ! 0 = Polling"
    using j st(3) st(9) [of j] by (auto simp: idle_def slave_step_def)
  then show ?thesis
    using polling [of j] polling [of "Suc j"] st(6) [of n] st(6) [of j] st(6) [of "Suc j"]
    by (auto simp: quiet_def)
qed

lemma not_stuck: "\<not> stuck Q contents m xs0 k \<sigma> r"
proof
  assume stuck: "stuck Q contents m xs0 k \<sigma> r"
  note st = stuckD [OF stuck] and calm = stuck_calm [OF stuck] and leaves = stuck_leaves [OF stuck]
  have to_master: "contents (to_master (r n)) = contents (to_master (r 0))" for n
    using st(6) [of n] by (simp add: quiet_def)
  have sending: "master (r n) \<noteq> Sending t" for n t
    by (rule leaves [where S = "{}"]) (use sending_nearer calm in \<open>metis\<close>, simp)
  have pairing: "master (r n) \<noteq> Pairing" for n
  proof (cases "contents (to_master (r 0)) = {#}")
    case True
    have refilling: "master (r n) \<noteq> Refilling" for n
      by (rule leaves [where S = "{}"])
        (use waiting_feeds [OF st(7,1) _ stuck_to_slave [OF stuck] stuck_idle [OF stuck]] True to_master calm
          in \<open>metis\<close>, simp)
    have "master (r (Suc j)) = Refilling" if "master (r j) = Pairing" "r (Suc j) = master_step Q (r j)" for j
      using pairing_turn [OF st(7,1,2) that(1)] that(2) st(8) [of "Suc j"] calm [of j] by auto
    then show ?thesis using leaves [where S = "{Refilling}"] refilling by blast
  next
    case False
    show ?thesis
      by (rule leaves [where S = "{}"])
        (use pairing_nearer [OF st(7,1,2)] False to_master calm st(8) in \<open>metis\<close>, simp)
  qed
  have "master (r n) \<noteq> Feeding" for n
  proof (rule leaves [where S = "{Pairing}"])
    fix j assume "master (r j) = Feeding" "r (Suc j) = master_step Q (r j)"
    then show "master (r (Suc j)) \<in> {Pairing}" using feeding_turn [of "r j"] calm [of j] by auto
  qed (simp add: pairing)
  moreover have "master (r n) \<noteq> Refilling" for n
  proof (rule leaves [where S = "{Pairing}"])
    fix j assume "master (r j) = Refilling" "r (Suc j) = master_step Q (r j)"
    then show "master (r (Suc j)) \<in> {Pairing}" using refilling_turn [of "r j"] calm [of j] by auto
  qed (simp add: pairing)
  moreover have "master (r 0) \<noteq> Finished" "master (r 0) \<noteq> Overrun"
    using st(7,8) [of 0] by (simp_all add: sorter_inv_def)
  ultimately show False using sending pairing by (metis master.exhaust)
qed

lemma fair_ends:
  assumes start: "sort_reach Q k xs s" and len: "length xs = 2 ^ m" "0 < m" "m < 64" and k: "0 < k"
    and fair: "fair k \<sigma>"
  shows "\<exists>n. master (sort_run Q \<sigma> s n) = Finished"
proof (rule ccontr)
  assume never: "\<not> ?thesis"
  define r where "r n = sort_run Q \<sigma> s n" for n
  have r: "r (Suc n) = scheduled Q (\<sigma> n) (r n)" "master (r n) \<noteq> Finished" for n
    using never by (simp_all add: r_def)
  have reach: "sort_reach Q k xs (r n)" for n using sort_run_reach [OF start] by (simp add: r_def)
  note inv = sort_reach_inv [OF reach len]
  have slaves: "length (slaves (r n)) = k" "Stopped \<notin> set (slaves (r n))" for n
    using reach_slaves [OF reach] inv [of n] r(2) [of n] by (auto simp: sorter_inv_def)
  have "(r (Suc n), r n) \<in> nearer contents \<or> quiet contents (r n) (r (Suc n))" for n
    using r(2) [of "Suc n"] unfolding r(1)
    by (rule scheduled_turn [OF inv len(2,3) r(2) slaves(2)])
  from eventually_quiet [of r, OF this]
  obtain N where N: "\<And>n. N \<le> n \<Longrightarrow> quiet contents (r N) (r n)" by blast
  have "fair k (\<lambda>n. \<sigma> (N + n))" using fair by (rule fair_shift)
  then have "stuck Q contents m xs k (\<lambda>n. \<sigma> (N + n)) (\<lambda>n. r (N + n))"
    using len(2,3) k r N inv slaves by (simp add: stuck_def)
  then show False using not_stuck by blast
qed

lemma finished_run:
  assumes "sort_reach Q k xs s" "length xs = 2 ^ m" "0 < m" "m < 64" "master s = Finished"
  shows "master (sort_run Q \<sigma> s n) = Finished" "contents (to_slave (sort_run Q \<sigma> s n)) = {#}"
    "\<forall>w \<in> set (slaves (sort_run Q \<sigma> s n)). idle w \<or> w = Stopped" "lock_done (sort_run Q \<sigma> s n)"
proof -
  let ?s = "sort_run Q \<sigma> s n"
  show fin: "master (sort_run Q \<sigma> s n) = Finished" for n
  proof (induction n)
    case (Suc n)
    then show ?case
      using scheduled_others(2) [of "\<sigma> n" Q "sort_run Q \<sigma> s n"]
      by (cases "\<sigma> n") (simp_all add: scheduled_def master_step_def)
  qed (simp add: assms(5))
  have inv: "sorter_inv contents m xs ?s"
    using sort_reach_inv [OF sort_run_reach [OF assms(1)] assms(2-4)] .
  then show "lock_done ?s" using fin by (simp add: sorter_inv_def)
  have jobs: "jobs contents ?s = {#}" using inv fin by (simp add: sorter_inv_def)
  then show "contents (to_slave ?s) = {#}" by (simp add: jobs_def)
  have none: "\<forall>w \<in> set (slaves ?s). slave_jobs w = {#}"
    using jobs by (auto simp: jobs_def in_set_conv_decomp)
  show "\<forall>w \<in> set (slaves ?s). idle w \<or> w = Stopped"
  proof
    fix w assume w: "w \<in> set (slaves ?s)"
    then have "w \<noteq> Broken" using inv by (auto simp: sorter_inv_def)
    then show "idle w \<or> w = Stopped" using none w by (cases w) (auto simp: idle_def)
  qed
qed

lemma slave_ends:
  assumes "sort_reach Q k xs s" "length xs = 2 ^ m" "0 < m" "m < 64" "master s = Finished"
    "fair k \<sigma>" "i < k"
  shows "\<exists>j \<ge> n. slaves (sort_run Q \<sigma> s j) ! i = Stopped"
proof -
  note fin = finished_run [OF assms(1-5)]
  have len: "length (slaves (sort_run Q \<sigma> s j)) = k" for j
    using reach_slaves [OF sort_run_reach [OF assms(1)]] by simp
  have looking: "\<exists>j \<ge> n. slaves (sort_run Q \<sigma> s j) ! i = Stopped"
    if at: "slaves (sort_run Q \<sigma> s n) ! i = Checking" for n
  proof -
    obtain j where "n \<le> j" "sort_run Q \<sigma> s (Suc j) = slave_step Q i (sort_run Q \<sigma> s j)"
        "slaves (sort_run Q \<sigma> s j) ! i = Checking"
      using next_slave [OF assms(6,7), of s n] reach_slaves [OF assms(1)] at by metis
    then show ?thesis
      using fin(4) [of \<sigma> j] len [of j] assms(7) by (intro exI [of _ "Suc j"]) (simp add: slave_step_def)
  qed
  have "slaves (sort_run Q \<sigma> s n) ! i \<in> set (slaves (sort_run Q \<sigma> s n))" using len assms(7) by simp
  then consider "slaves (sort_run Q \<sigma> s n) ! i = Stopped" | "slaves (sort_run Q \<sigma> s n) ! i = Checking"
    | "slaves (sort_run Q \<sigma> s n) ! i = Polling"
    using fin(3) [of \<sigma> n] by (auto simp: idle_def)
  then show ?thesis
  proof cases
    case 3
    then obtain j where j: "n \<le> j" "sort_run Q \<sigma> s (Suc j) = slave_step Q i (sort_run Q \<sigma> s j)"
        "slaves (sort_run Q \<sigma> s j) ! i = Polling"
      using next_slave [OF assms(6,7), of s n] reach_slaves [OF assms(1)] by metis
    have "q_pop Q (to_slave (sort_run Q \<sigma> s j)) = None" using fin(2) pop_empty by blast
    then have "slaves (sort_run Q \<sigma> s (Suc j)) ! i = Checking"
      using j len [of j] assms(7) by (simp add: slave_step_def)
    from looking [OF this] j(1) show ?thesis by (meson Suc_leD order_trans)
  qed (use looking in blast)+
qed

lemma all_slaves_end:
  assumes "sort_reach Q k xs s" "length xs = 2 ^ m" "0 < m" "m < 64" "master s = Finished" "fair k \<sigma>"
  shows "\<exists>n. \<forall>w \<in> set (slaves (sort_run Q \<sigma> s n)). w = Stopped"
proof -
  have "\<exists>n. \<forall>i < b. slaves (sort_run Q \<sigma> s n) ! i = Stopped" if "b \<le> k" for b
    using that
  proof (induction b)
    case (Suc b)
    then obtain n where n: "\<forall>i < b. slaves (sort_run Q \<sigma> s n) ! i = Stopped" by auto
    obtain j where j: "n \<le> j" "slaves (sort_run Q \<sigma> s j) ! b = Stopped"
      using slave_ends [OF assms, of b n] Suc.prems by auto
    have "slaves (sort_run Q \<sigma> s j) ! i = Stopped" if "i < b" for i
      using n that j(1) run_add [of Q \<sigma> s n "j - n"]
        stopped_stays [of "sort_run Q \<sigma> s n" i Q "\<lambda>i. \<sigma> (n + i)" "j - n"] by simp
    then show ?case using j(2) by (intro exI [of _ j]) (auto simp: less_Suc_eq)
  qed simp
  from this [OF order_refl] show ?thesis
    using reach_slaves [OF sort_run_reach [OF assms(1)]] by (metis in_set_conv_nth)
qed

end

section \<open>Properties\<close>

text \<open>
  C4: Whatever the order in which the threads take their turns, as long as each gets its turn again
  and again: the master ends its loop, every slave returns, and then the array is sorted.
\<close>

theorem bitonic_sort_terminates:
  assumes "unbounded_queue Q contents" "length xs = 2 ^ m" "0 < m" "m < 64" "0 < k" "fair k \<sigma>"
  shows "\<exists>n. let s = sort_run Q \<sigma> (sort_start Q k xs) n in
    master s = Finished \<and> (\<forall>w \<in> set (slaves s). w = Stopped) \<and>
    sorted (base s) \<and> mset (base s) = mset xs"
proof -
  have Q: "sorter_queue Q contents" using assms(1) by (simp add: sorter_queue_def)
  have start: "sort_reach Q k xs (sort_start Q k xs)" by (rule sort_init)
  let ?s = "sort_run Q \<sigma> (sort_start Q k xs)"
  obtain n where fin: "master (?s n) = Finished" using sorter_queue.fair_ends [OF Q start assms(2-6)] by blast
  have "fair k (\<lambda>i. \<sigma> (n + i))" using assms(6) by (rule fair_shift)
  from sorter_queue.all_slaves_end [OF Q sort_run_reach [OF start] assms(2-4) fin this]
  obtain j where "\<forall>w \<in> set (slaves (?s (n + j))). w = Stopped" unfolding run_add by blast
  moreover have "master (?s (n + j)) = Finished"
    unfolding run_add by (rule sorter_queue.finished_run(1) [OF Q sort_run_reach [OF start] assms(2-4) fin])
  ultimately show ?thesis
    using sorter_queue.sort_reach_inv [OF Q sort_run_reach [OF start] assms(2-4), of \<sigma> "n + j"]
    by (intro exI [of _ "n + j"]) (simp add: sorter_inv_def Let_def)
qed

text \<open>Round robin of the master and two slaves\<close>

definition round_robin :: "nat \<Rightarrow> nat option" where
  "round_robin n = [None, Some 0, Some 1] ! (n mod 3)"

lemma round_robin_fair: "fair 2 round_robin"
  unfolding fair_def
proof (intro allI conjI impI)
  fix n :: nat
  show "\<exists>m \<ge> n. round_robin m = None" by (rule exI [of _ "3 * n"]) (simp add: round_robin_def)
  fix i :: nat assume "i < 2"
  then have "i = 0 \<or> i = 1" by auto
  then have "round_robin (3 * n + (i + 1)) = Some i"
    by (auto simp: round_robin_def mod_Suc)
  then show "\<exists>m \<ge> n. round_robin m = Some i" by (intro exI [of _ "3 * n + (i + 1)"]) simp
qed

theorem bitonic_sort_terminates_witness:
  "\<exists>n. let s = sort_run std_queue round_robin (sort_start std_queue 2 [4, 3, 2, 1 :: nat]) n in
    master s = Finished \<and> (\<forall>w \<in> set (slaves s). w = Stopped) \<and>
    sorted (base s) \<and> mset (base s) = mset [4, 3, 2, 1]"
  by (rule bitonic_sort_terminates [OF std.unbounded_queue_axioms _ _ _ _ round_robin_fair, of _ 2])
    simp_all

end
