(* ===== verification/Bitonic_Counts.thy ===== *)
theory Bitonic_Counts
  imports Bitonic_Boost
begin

text \<open>
  The counters of the fine-grained bitonic sort (\<^verbatim>\<open>apps/bitonic/utils.cpp\<close>): the master
  records in arrays of bytes, one byte for a chunk, how long the sorted segment at a chunk is and
  how much of a swap has finished. The theory shows that \<open>maxdone\<close> recognises the last chunk of a
  swap, in whatever order the chunks finish.
\<close>

section \<open>Counters\<close>

text \<open>A read of a counter; \<open>None\<close> is an access outside the array.\<close>

definition counter :: "byte list \<Rightarrow> nat \<Rightarrow> nat option" where
  "counter xs i = (if i < length xs then Some (unat (xs ! i)) else None)"

definition down_to :: "nat \<Rightarrow> nat \<Rightarrow> nat" where
  "down_to c i = push_bit c (drop_bit c i)"

lemma down_to_div: "down_to c i = i div 2 ^ c * 2 ^ c"
  by (simp add: down_to_def push_bit_eq_mult drop_bit_eq_div)

lemma down_to_le: "down_to c i \<le> i"
  by (simp add: down_to_div)

text \<open>
  \<open>ispaired\<close>: whether the segment that starts at the given chunk has a sorted neighbour of its
  length, and where the two start. A count below \<open>e\<close> would make the shift undefined.
\<close>

definition ispaired :: "nat \<Rightarrow> byte list \<Rightarrow> nat \<Rightarrow> (bool \<times> nat) option" where
  "ispaired e scnts idx =
     Option.bind (counter scnts idx) (\<lambda>s.
       if s < e then None
       else
         let c = s - e; fst_idx = down_to (c + 1) idx in
         Option.bind (counter scnts fst_idx) (\<lambda>a.
         Option.bind (counter scnts (fst_idx + 2 ^ c)) (\<lambda>b. Some (a = b, fst_idx))))"

text \<open>
  \<open>maxsorted\<close>: the exponent of the largest sorted segment around a chunk, and where it starts.
  The loop leaves a chunk for one before it, as the count of a chunk never exceeds itself.
\<close>

function maxsorted :: "nat \<Rightarrow> byte list \<Rightarrow> nat \<Rightarrow> (nat \<times> nat) option" where
  "maxsorted e scnts idx =
     Option.bind (counter scnts idx) (\<lambda>s.
       if s < e then None
       else
         let c = s - e + 1; up = down_to c idx in
         Option.bind (counter scnts up) (\<lambda>u.
           if c + e \<le> u \<and> up \<noteq> idx then maxsorted e scnts up else Some (s, idx)))"
  by pat_completeness auto

termination
  by (relation "measure (\<lambda>(e, scnts, idx). idx)")
    (use down_to_le in \<open>auto simp: order_less_le split: bind_split_asm\<close>)

declare maxsorted.simps [simp del]

text \<open>
  \<open>maxdone\<close>: counts a finished chunk and climbs the tree of segments as long as both halves have
  the same count. A count that wraps to 0 would be a shift by a negative amount.
\<close>

function maxdone_from :: "byte list \<Rightarrow> nat \<Rightarrow> nat \<Rightarrow> (nat \<times> byte list) option" where
  "maxdone_from dcnts idx max_exp =
     (if length dcnts \<le> idx \<or> unat (dcnts ! idx) = 255 then None
      else
        let dcnts = dcnts[idx := dcnts ! idx + 1];
            c = unat (dcnts ! idx);
            up = down_to c idx
        in if c < max_exp then
             Option.bind (counter dcnts up) (\<lambda>a.
             Option.bind (counter dcnts (up + 2 ^ (c - 1))) (\<lambda>b.
               if a = b then maxdone_from dcnts up max_exp else Some (c, dcnts)))
           else Some (c, dcnts))"
  by pat_completeness auto


termination
proof (relation "measure (\<lambda>(dcnts, idx, max_exp). \<Sum>d \<leftarrow> dcnts. 255 - unat d)")
  fix dcnts :: "byte list" and idx max_exp :: nat and xa c up a b
  assume room: "\<not> (length dcnts \<le> idx \<or> unat (dcnts ! idx) = 255)" and xa: "xa = dcnts[idx := dcnts ! idx + 1]"
  have small: "unat (dcnts ! idx) < 255" using room unsigned_less [of "dcnts ! idx", where 'a = nat] by simp
  then have "unat (dcnts ! idx + 1) = unat (dcnts ! idx) + 1" by (simp add: unat_Suc_byte)
  then have "(\<Sum>d \<leftarrow> xa. 255 - unat d) < (\<Sum>d \<leftarrow> dcnts. 255 - unat d)"
    using room small unfolding xa by (intro sum_list_update_less) auto
  then show "((xa, up, max_exp), dcnts, idx, max_exp) \<in>
      measure (\<lambda>(dcnts, idx, max_exp). \<Sum>d \<leftarrow> dcnts. 255 - unat d)"
    by simp
qed simp

declare maxdone_from.simps [simp del]

definition maxdone :: "byte list \<Rightarrow> nat \<Rightarrow> nat \<Rightarrow> (nat \<times> byte list) option" where
  "maxdone dcnts idx max_exp =
     (if length dcnts \<le> idx then None else maxdone_from (dcnts[idx := 0]) idx max_exp)"

section \<open>Counting the chunks of a task\<close>

text \<open>
  \<open>D\<close> is the set of the finished chunks. The count of a chunk is one more than the height of the
  largest finished subtree that starts there, and 0 for a chunk that is not finished.
\<close>

definition finished :: "nat set \<Rightarrow> nat \<Rightarrow> nat \<Rightarrow> bool" where
  "finished D h i \<longleftrightarrow> 2 ^ h dvd i \<and> {i..<i + 2 ^ h} \<subseteq> D"

definition best :: "nat set \<Rightarrow> nat \<Rightarrow> nat \<Rightarrow> bool" where
  "best D i c \<longleftrightarrow> (c = 0 \<or> finished D (c - 1) i) \<and> \<not> finished D c i"

lemma finished_0 [simp]: "finished D 0 i \<longleftrightarrow> i \<in> D"
  by (simp add: finished_def)

lemma finished_down:
  assumes "finished D h i" "g \<le> h"
  shows "finished D g i"
proof -
  have "(2 :: nat) ^ g \<le> 2 ^ h" "(2 :: nat) ^ g dvd 2 ^ h"
    using assms(2) by (simp_all add: le_imp_power_dvd)
  with assms(1) show ?thesis unfolding finished_def
    by (meson add_left_mono atLeastLessThan_subset_iff dvd_trans ivl_subset order_refl subset_trans)
qed

lemma finished_Suc: "finished D (Suc h) i \<longleftrightarrow> 2 ^ Suc h dvd i \<and> finished D h i \<and> finished D h (i + 2 ^ h)"
proof -
  have "{i..<i + 2 ^ Suc h} = {i..<i + 2 ^ h} \<union> {i + 2 ^ h..<i + 2 ^ h + 2 ^ h}" by auto
  moreover have "2 ^ Suc h dvd i \<Longrightarrow> 2 ^ h dvd i" by (rule dvd_trans [OF _]) simp_all
  ultimately show ?thesis by (auto simp: finished_def)
qed

lemma best_unique:
  assumes "best D i c" "best D i c'"
  shows "c = c'"
proof -
  have "c \<le> c'" if "best D i c" "best D i c'" for c c'
  proof (rule ccontr)
    assume "\<not> c \<le> c'"
    then have "finished D (c - 1) i" "c' \<le> c - 1" using that by (auto simp: best_def)
    then show False using finished_down that(2) by (auto simp: best_def)
  qed
  with assms show ?thesis by (meson antisym)
qed

text \<open>Aligned blocks are nested or disjoint.\<close>

lemma aligned_nested:
  assumes "2 ^ g dvd (a :: nat)" "2 ^ h dvd b" "g \<le> h" "a \<le> x" "x < a + 2 ^ g" "b \<le> x" "x < b + 2 ^ h"
  shows "b \<le> a \<and> a + 2 ^ g \<le> b + 2 ^ h"
proof -
  obtain p where p: "a = 2 ^ g * p" using assms(1) by (rule dvdE)
  have "2 ^ g dvd b" "(2 :: nat) ^ g dvd 2 ^ h" using assms(2,3) by (meson dvd_trans le_imp_power_dvd)+
  then obtain q r where q: "b = 2 ^ g * q" "(2 :: nat) ^ h = 2 ^ g * r" by (auto elim!: dvdE)
  have "2 ^ g * q < 2 ^ g * (p + 1)" "2 ^ g * p < 2 ^ g * (q + r)"
    using assms(4-7) p q by (simp_all add: algebra_simps)
  then have "q \<le> p" "p + 1 \<le> q + r" by (simp_all only: mult_less_cancel1) simp_all
  from mult_le_mono2 [OF this(1), of "2 ^ g"] mult_le_mono2 [OF this(2), of "2 ^ g"]
  show ?thesis by (simp add: p q algebra_simps)
qed

lemma down_to_dvd: "2 ^ c dvd down_to c i"
  by (simp add: down_to_div)

lemma down_to_range: "down_to c i \<le> i \<and> i < down_to c i + 2 ^ c"
  by (simp add: down_to_div dividend_less_div_times mult.commute)
    (metis div_mult_mod_eq mod_less_divisor nat_add_left_cancel_less zero_less_numeral zero_less_power mult.commute)

lemma down_to_unique: "2 ^ c dvd a \<Longrightarrow> a \<le> i \<Longrightarrow> i < a + 2 ^ c \<Longrightarrow> down_to c i = a"
  using aligned_nested [of c a c "down_to c i" i] aligned_nested [of c "down_to c i" c a i]
    down_to_dvd [of c i] down_to_range [of c i] by auto

lemma best_same:
  assumes "\<And>h. finished (insert j D) h i \<Longrightarrow> j \<notin> {i..<i + 2 ^ h}" "best D i c"
  shows "best (insert j D) i c"
proof -
  have "finished (insert j D) h i \<longleftrightarrow> finished D h i" for h
  proof
    assume f: "finished (insert j D) h i"
    from assms(1) [OF f] f show "finished D h i" unfolding finished_def by (meson subset_insert)
  qed (auto simp: finished_def)
  then show ?thesis using assms(2) by (simp add: best_def)
qed


lemma best_Suc:
  assumes "best D i c" "\<not> finished D (Suc h) i"
  shows "c = Suc h \<longleftrightarrow> finished D h i"
proof
  assume "c = Suc h"
  then show "finished D h i" using assms(1) by (simp add: best_def)
next
  assume "finished D h i"
  then have "best D i (Suc h)" using assms(2) by (simp add: best_def)
  then show "c = Suc h" using best_unique assms(1) by blast
qed

lemma down_to_step:
  assumes "down_to h j = idx"
  shows "down_to (Suc h) idx = down_to (Suc h) j"
    "idx = down_to (Suc h) j \<or> idx = down_to (Suc h) j + 2 ^ h"
proof -
  have "down_to (Suc h) j \<le> idx \<and> idx + 2 ^ h \<le> down_to (Suc h) j + 2 ^ Suc h"
    using aligned_nested [OF down_to_dvd [of h j] down_to_dvd [of "Suc h" j], of j]
      down_to_range [of h j] down_to_range [of "Suc h" j] assms by simp
  moreover have pos: "(0 :: nat) < 2 ^ h" by simp
  ultimately have in_up: "down_to (Suc h) j \<le> idx" "idx < down_to (Suc h) j + 2 ^ Suc h"
      "idx + 2 ^ h \<le> down_to (Suc h) j + 2 ^ Suc h"
    unfolding power_Suc by linarith+
  then show "down_to (Suc h) idx = down_to (Suc h) j"
    by (intro down_to_unique down_to_dvd)
  obtain p where p: "idx = 2 ^ h * p" using down_to_dvd [of h j] assms by (auto elim: dvdE)
  obtain q where q: "down_to (Suc h) j = 2 ^ Suc h * q" using down_to_dvd [of "Suc h" j] by (rule dvdE)
  have "2 * q \<le> p" "p + 1 \<le> 2 * q + 2"
  proof -
    have "2 ^ h * (2 * q) \<le> 2 ^ h * p" "2 ^ h * (p + 1) \<le> 2 ^ h * (2 * q + 2)"
      using in_up(1,3) by (simp_all add: p q algebra_simps)
    then show "2 * q \<le> p" "p + 1 \<le> 2 * q + 2"
      by (simp_all only: mult_le_cancel1) simp_all
  qed
  then consider "p = 2 * q" | "p = 2 * q + 1" by linarith
  then show "idx = down_to (Suc h) j \<or> idx = down_to (Suc h) j + 2 ^ h"
    by cases (simp_all add: p q algebra_simps)
qed

lemma not_dvd_half: "2 ^ Suc h dvd (u :: nat) \<Longrightarrow> \<not> 2 ^ Suc h dvd u + 2 ^ h"
  using nat_dvd_not_less [of "2 ^ h" "2 ^ Suc h"] by (simp add: dvd_add_right_iff)

text \<open>Above \<open>idx\<close> the counts are those of the new set already, below still those of the old.\<close>

definition climbing :: "nat \<Rightarrow> nat \<Rightarrow> nat \<Rightarrow> nat set \<Rightarrow> byte list \<Rightarrow> nat \<Rightarrow> nat \<Rightarrow> bool" where
  "climbing s n j D d h idx \<longleftrightarrow>
     insert j D \<subseteq> {s..<s + 2 ^ n} \<and> j \<notin> D \<and> 2 ^ n dvd s \<and> n < 255 \<and> h \<le> n \<and> down_to h j = idx \<and> finished (insert j D) h idx \<and> unat (d ! idx) = h \<and>
     s + 2 ^ n \<le> length d \<and>
     (\<forall>i \<in> {s..<s + 2 ^ n}.
        (idx < i \<longrightarrow> best (insert j D) i (unat (d ! i))) \<and> (i < idx \<longrightarrow> best D i (unat (d ! i))))"

definition counted :: "nat \<Rightarrow> nat \<Rightarrow> nat set \<Rightarrow> byte list \<Rightarrow> bool" where
  "counted s n D d \<longleftrightarrow>
     s + 2 ^ n \<le> length d \<and> (\<forall>i \<in> {s..<s + 2 ^ n}. best D i (unat (d ! i)))"

lemma climb_up:
  assumes "climbing s n j D d h idx" "h < n"
  defines "up \<equiv> down_to (Suc h) j"
  shows "s \<le> up" "up + 2 ^ Suc h \<le> s + 2 ^ n" "down_to (Suc h) idx = up"
    "idx = up \<or> idx = up + 2 ^ h" "2 ^ Suc h dvd up" "up \<le> j" "j < up + 2 ^ Suc h"
  using assms down_to_step [of h j idx] down_to_dvd [of "Suc h" j] down_to_range [of "Suc h" j]
    aligned_nested [of "Suc h" up n s j]
  by (auto simp: climbing_def)

lemma climb_inside: "climbing s n j D d h idx \<Longrightarrow> idx \<in> {s..<s + 2 ^ n}"
  using finished_down [of "insert j D" h idx 0] unfolding climbing_def by (metis finished_0 le0 subsetD)

text \<open>The chunk whose count is compared with that of \<open>idx\<close> has it when its half is finished.\<close>

lemma climb_compare:
  assumes "climbing s n j D d h idx" "h < n"
  defines "up \<equiv> down_to (Suc h) j"
  shows "unat (d ! (if idx = up then up + 2 ^ h else up)) = Suc h \<longleftrightarrow>
    finished (insert j D) (Suc h) up"
proof -
  note up = climb_up [OF assms(1,2), folded up_def]
  have f: "finished (insert j D) h idx" using assms(1) unfolding climbing_def by blast
  show ?thesis
  proof (cases "idx = up")
    case True
    have "(0 :: nat) < 2 ^ h" by simp
    then have "up + 2 ^ h \<in> {s..<s + 2 ^ n}"
      using up(1,2) unfolding power_Suc atLeastLessThan_iff by linarith
    then have "best (insert j D) (up + 2 ^ h) (unat (d ! (up + 2 ^ h)))"
      using assms(1) True by (simp add: climbing_def)
    moreover have "\<not> finished (insert j D) (Suc h) (up + 2 ^ h)"
      using not_dvd_half [OF up(5)] by (simp add: finished_def)
    ultimately show ?thesis
      using best_Suc True f up(5) by (simp add: finished_Suc)
  next
    case False
    then have idx: "idx = up + 2 ^ h" using up(4) by simp
    have "(0 :: nat) < 2 ^ h" by simp
    then have "up \<in> {s..<s + 2 ^ n}"
      using up(1,2) unfolding power_Suc atLeastLessThan_iff by linarith
    then have b: "best D up (unat (d ! up))" using assms(1) idx by (simp add: climbing_def)
    have "\<not> finished D (Suc h) up" using up(6,7) assms(1) by (auto simp: finished_def climbing_def)
    note c = best_Suc [OF b this]
    have "idx \<le> j" using assms(1) down_to_range [of h j] by (simp add: climbing_def)
    then have "finished (insert j D) h up \<longleftrightarrow> finished D h up"
      by (auto simp: finished_def idx subset_insert)
    with c show ?thesis using False f up(5) by (simp add: finished_Suc idx [symmetric])
  qed
qed

text \<open>Below the current segment, only a larger segment around it can change its count.\<close>

lemma climb_below:
  assumes "climbing s n j D d h idx" "i < idx" "i \<in> {s..<s + 2 ^ n}"
    "\<And>g. h < g \<Longrightarrow> finished (insert j D) g i \<Longrightarrow> j < i + 2 ^ g \<Longrightarrow> False"
  shows "best (insert j D) i (unat (d ! i))"
proof (rule best_same)
  show "best D i (unat (d ! i))" using assms(1-3) by (simp add: climbing_def)
  fix g assume g: "finished (insert j D) g i"
  have idx: "2 ^ h dvd idx" "idx \<le> j" "j < idx + 2 ^ h"
    using assms(1) down_to_dvd [of h j] down_to_range [of h j] by (simp_all add: climbing_def)
  show "j \<notin> {i..<i + 2 ^ g}"
  proof
    assume j: "j \<in> {i..<i + 2 ^ g}"
    show False
    proof (cases "h < g")
      case True
      then show False using assms(4) [of g] g j by auto
    next
      case False
      then have "idx \<le> i"
        using aligned_nested [of g i h idx j] g j idx by (simp add: finished_def)
      then show False using assms(2) by simp
    qed
  qed
qed


lemma climb_best:
  assumes "climbing s n j D d h idx" "\<not> finished (insert j D) (Suc h) idx" "i \<in> {s..<s + 2 ^ n}"
    "\<And>g. i < idx \<Longrightarrow> h < g \<Longrightarrow> finished (insert j D) g i \<Longrightarrow> j < i + 2 ^ g \<Longrightarrow> False"
  shows "best (insert j D) i (unat (d[idx := d ! idx + 1] ! i))"
proof (cases "i = idx")
  case True
  have "unat (d ! idx + 1) = Suc h"
    using assms(1) unat_Suc_byte [of "d ! idx"] unfolding climbing_def by force
  then show ?thesis
    using True assms(1,2) climb_inside [OF assms(1)] by (simp add: best_def climbing_def)
next
  case False
  then show ?thesis
    using climb_below [OF assms(1) _ assms(3,4)] assms(1,3)
    by (cases "i < idx") (auto simp: climbing_def)
qed

lemma climbing_bounds:
  "climbing s n j D d h idx \<Longrightarrow> idx < length d \<and> unat (d ! idx) = h \<and> h < 255"
  using climb_inside [of s n j D d h idx] by (auto simp: climbing_def)

text \<open>One pass of the loop\<close>

lemma climb_unfold:
  assumes "climbing s n j D d h idx"
  defines "up \<equiv> down_to (Suc h) j" and "d' \<equiv> d[idx := d ! idx + 1]"
  shows "h < n \<Longrightarrow> maxdone_from d idx (Suc n) =
      (if finished (insert j D) (Suc h) up then maxdone_from d' up (Suc n) else Some (Suc h, d'))"
    "h = n \<Longrightarrow> maxdone_from d idx (Suc n) = Some (Suc n, d')"
proof -
  note b = climbing_bounds [OF assms(1)]
  then have c: "unat (d' ! idx) = Suc h" by (simp add: d'_def unat_Suc_byte)
  show "maxdone_from d idx (Suc n) = Some (Suc n, d')" if "h = n"
    using that b c by (simp add: maxdone_from.simps [of d] d'_def Let_def)
  assume h: "h < n"
  note up = climb_up [OF assms(1) h, folded up_def]
  have "s + 2 ^ n \<le> length d" using assms(1) by (simp add: climbing_def)
  moreover have "(0 :: nat) < 2 ^ h" by simp
  ultimately have len: "up < length d'" "up + 2 ^ h < length d'"
    using up(2) unfolding d'_def length_list_update power_Suc by linarith+
  have "unat (d' ! up) = unat (d' ! (up + 2 ^ h)) \<longleftrightarrow>
      unat (d ! (if idx = up then up + 2 ^ h else up)) = Suc h"
    using up(4) c by (auto simp: d'_def)
  also note climb_compare [OF assms(1) h, folded up_def]
  finally show "maxdone_from d idx (Suc n) =
      (if finished (insert j D) (Suc h) up then maxdone_from d' up (Suc n) else Some (Suc h, d'))"
    using b c h len up(3)
    by (simp add: maxdone_from.simps [of d] d'_def [symmetric] Let_def counter_def)
qed

lemma climb_next:
  assumes "climbing s n j D d h idx" "h < n" "finished (insert j D) (Suc h) (down_to (Suc h) j)"
  shows "climbing s n j D (d[idx := d ! idx + 1]) (Suc h) (down_to (Suc h) j)"
proof -
  let ?up = "down_to (Suc h) j" and ?d = "d[idx := d ! idx + 1]"
  note up = climb_up [OF assms(1,2)]
  note b = climbing_bounds [OF assms(1)]
  then have idx: "unat (?d ! idx) = Suc h" by (simp add: unat_Suc_byte)
  have "unat (?d ! ?up) = Suc h"
    using climb_compare [OF assms(1,2)] assms(3) idx up(4) by (cases "idx = ?up") auto
  moreover have "best (insert j D) i (unat (?d ! i))" if "i \<in> {s..<s + 2 ^ n}" "?up < i" for i
  proof (cases "idx = ?up")
    case True
    then show ?thesis using assms(1) that by (simp add: climbing_def)
  next
    case False
    then have "idx = ?up + 2 ^ h" using up(4) by simp
    then have "\<not> finished (insert j D) (Suc h) idx"
      using not_dvd_half [OF up(5)] by (simp add: finished_def)
    moreover have False if "h < g" "finished (insert j D) g i" "j < i + 2 ^ g" "i < idx" for g
    proof -
      have "i \<le> j" using \<open>i < idx\<close> assms(1) down_to_range [of h j] by (simp add: climbing_def)
      then have "i \<le> ?up"
        using aligned_nested [of "Suc h" ?up g i j] that up(5-7) by (simp add: finished_def)
      with \<open>?up < i\<close> show False by simp
    qed
    ultimately show ?thesis using climb_best [OF assms(1) _ \<open>i \<in> _\<close>] by blast
  qed
  moreover have "best D i (unat (?d ! i))" if "i \<in> {s..<s + 2 ^ n}" "i < ?up" for i
    using assms(1) that up(4) by (auto simp: climbing_def)
  ultimately show ?thesis
    using assms by (simp add: climbing_def)
qed

lemma climb:
  assumes "climbing s n j D d h idx"
  shows "\<exists>c d'. maxdone_from d idx (Suc n) = Some (c, d') \<and> length d' = length d \<and>
    counted s n (insert j D) d' \<and> (\<forall>i. i \<notin> {s..<s + 2 ^ n} \<longrightarrow> d' ! i = d ! i) \<and>
    (c = Suc n \<longleftrightarrow> insert j D = {s..<s + 2 ^ n})"
  using assms
proof (induction "n - h" arbitrary: h idx d)
  case 0
  then have h: "h = n" by (simp add: climbing_def)
  note c = 0(2) [unfolded climbing_def h]
  have idx: "idx \<in> {s..<s + 2 ^ n}" using climb_inside [OF 0(2)] .
  have "2 ^ n dvd idx" "2 ^ n dvd s" using c by (simp_all only: finished_def)
  from aligned_nested [OF this, of idx] idx have s: "idx = s" by simp
  then have "insert j D = {s..<s + 2 ^ n}" using c by (auto simp: finished_def)
  moreover have "\<not> finished (insert j D) (Suc h) idx"
  proof -
    have "s + 2 ^ n \<notin> insert j D" using c by auto
    moreover have "s + 2 ^ n \<in> {idx..<idx + 2 ^ Suc h}" by (simp add: s h)
    ultimately show ?thesis unfolding finished_def by blast
  qed
  then have "best (insert j D) i (unat (d[idx := d ! idx + 1] ! i))" if "i \<in> {s..<s + 2 ^ n}" for i
    using climb_best [OF 0(2) _ that] that s by auto
  ultimately show ?case
    using climb_unfold(2) [OF 0(2) h] c idx by (auto simp: counted_def)
next
  case (Suc x)
  then have h: "h < n" by simp
  let ?up = "down_to (Suc h) j" and ?d = "d[idx := d ! idx + 1]"
  note up = climb_up [OF Suc.prems h]
  show ?case
  proof (cases "finished (insert j D) (Suc h) ?up")
    case True
    have "x = n - Suc h" using Suc.hyps(2) by simp
    from Suc.hyps(1) [OF this climb_next [OF Suc.prems h True]]
    obtain c d' where d': "maxdone_from ?d ?up (Suc n) = Some (c, d')" "length d' = length ?d"
        "counted s n (insert j D) d'" "\<forall>i. i \<notin> {s..<s + 2 ^ n} \<longrightarrow> d' ! i = ?d ! i"
        "c = Suc n \<longleftrightarrow> insert j D = {s..<s + 2 ^ n}"
      by blast
    have "d' ! i = d ! i" if "i \<notin> {s..<s + 2 ^ n}" for i
      using d'(4) that climb_inside [OF Suc.prems] by (metis nth_list_update_neq)
    then show ?thesis
      using d' climb_unfold(1) [OF Suc.prems h] True by simp
  next
    case False
    have "best (insert j D) i (unat (?d ! i))" if i: "i \<in> {s..<s + 2 ^ n}" for i
    proof (rule climb_best [OF Suc.prems _ i])
      show "\<not> finished (insert j D) (Suc h) idx"
        using False up(4) not_dvd_half [OF up(5)] by (auto simp: finished_def)
      fix g assume g: "i < idx" "h < g" "finished (insert j D) g i" "j < i + 2 ^ g"
      have "i \<le> j" using g(1) Suc.prems down_to_range [of h j] by (simp add: climbing_def)
      then have "i \<le> ?up \<and> ?up + 2 ^ Suc h \<le> i + 2 ^ g"
        using aligned_nested [of "Suc h" ?up g i j] g up(5-7) by (simp add: finished_def)
      then have "{?up..<?up + 2 ^ Suc h} \<subseteq> {i..<i + 2 ^ g}" by (simp add: ivl_subset)
      then show False using False g(3) up(5) unfolding finished_def by blast
    qed
    moreover have "insert j D \<noteq> {s..<s + 2 ^ n}"
    proof -
      have "{?up..<?up + 2 ^ Suc h} \<subseteq> {s..<s + 2 ^ n}" using up(1,2) by (simp add: ivl_subset)
      then show ?thesis using False up(5) unfolding finished_def by blast
    qed
    moreover have "s + 2 ^ n \<le> length d" using Suc.prems by (simp add: climbing_def)
    moreover have "?d ! i = d ! i" if "i \<notin> {s..<s + 2 ^ n}" for i
      using that climb_inside [OF Suc.prems] by (metis nth_list_update_neq)
    ultimately show ?thesis
      using climb_unfold(1) [OF Suc.prems h] False h by (simp add: counted_def)
  qed
qed


lemma maxdone_counts:
  assumes "counted s n D d" "insert j D \<subseteq> {s..<s + 2 ^ n}" "j \<notin> D" "2 ^ n dvd s" "n < 255"
  shows "\<exists>c d'. maxdone d j (Suc n) = Some (c, d') \<and> length d' = length d \<and>
    counted s n (insert j D) d' \<and> (\<forall>i. i \<notin> {s..<s + 2 ^ n} \<longrightarrow> d' ! i = d ! i) \<and>
    (c = Suc n \<longleftrightarrow> insert j D = {s..<s + 2 ^ n})"
proof -
  have j: "j < length d" using assms(1,2) by (auto simp: counted_def)
  have "best D j (unat (d ! j))" using assms(1,2) by (simp add: counted_def)
  then have "unat (d ! j) = 0"
    using finished_down [of D "unat (d ! j) - 1" j 0] assms(3) by (auto simp: best_def)
  then have "d[j := 0] = d" by (simp add: unat_eq_0 list_update_same_conv [OF j])
  moreover have "climbing s n j D d 0 j"
    using assms \<open>unat (d ! j) = 0\<close>
    by (auto simp: climbing_def counted_def down_to_div intro!: best_same)
  ultimately show ?thesis using climb j by (simp add: maxdone_def)
qed

text \<open>The answers of \<open>maxdone\<close> when chunks finish in the given order.\<close>

primrec maxdone_each :: "nat \<Rightarrow> nat list \<Rightarrow> byte list \<Rightarrow> (nat list \<times> byte list) option" where
  "maxdone_each k [] d = Some ([], d)"
| "maxdone_each k (j # js) d =
     Option.bind (maxdone d j k) (\<lambda>(c, d).
     Option.bind (maxdone_each k js d) (\<lambda>(cs, d). Some (c # cs, d)))"

lemma maxdone_each_counts:
  assumes "counted s n D d" "D \<union> set js \<subseteq> {s..<s + 2 ^ n}" "distinct js" "D \<inter> set js = {}"
    "2 ^ n dvd s" "n < 255"
  shows "\<exists>cs d'. maxdone_each (Suc n) js d = Some (cs, d') \<and> length cs = length js \<and>
    (\<forall>i < length js. cs ! i = Suc n \<longleftrightarrow> D \<union> set (take (Suc i) js) = {s..<s + 2 ^ n}) \<and>
    (\<forall>i. i \<notin> {s..<s + 2 ^ n} \<longrightarrow> d' ! i = d ! i)"
  using assms(1-4)
proof (induction js arbitrary: D d)
  case (Cons j js)
  obtain c d1 where d1: "maxdone d j (Suc n) = Some (c, d1)" "counted s n (insert j D) d1"
      "\<forall>i. i \<notin> {s..<s + 2 ^ n} \<longrightarrow> d1 ! i = d ! i" "c = Suc n \<longleftrightarrow> insert j D = {s..<s + 2 ^ n}"
    using maxdone_counts [OF Cons.prems(1), of j] Cons.prems assms(5,6) by auto
  obtain cs d2 where d2: "maxdone_each (Suc n) js d1 = Some (cs, d2)" "length cs = length js"
      "\<forall>i < length js. cs ! i = Suc n \<longleftrightarrow> insert j D \<union> set (take (Suc i) js) = {s..<s + 2 ^ n}"
      "\<forall>i. i \<notin> {s..<s + 2 ^ n} \<longrightarrow> d2 ! i = d1 ! i"
    using Cons.IH [OF d1(2)] Cons.prems by auto
  have "(c # cs) ! i = Suc n \<longleftrightarrow> D \<union> set (take (Suc i) (j # js)) = {s..<s + 2 ^ n}"
    if "i < length (j # js)" for i
    using that d1(4) d2(3) by (cases i) auto
  then show ?case using d1(1,3) d2(1,2,4) by (intro exI [of _ "c # cs"] exI [of _ d2]) auto
qed simp

text \<open>
  C27: Whatever the order in which the \<open>2 ^ n\<close> chunks of a swap finish, \<open>maxdone\<close> stays within the
  counters and its answer is the exponent of the whole swap for the last chunk and for no chunk
  before it; no counter of another segment changes.
\<close>

theorem maxdone_detects_last:
  assumes "2 ^ n dvd s" "s + 2 ^ n \<le> length d" "n < 255" "\<forall>i \<in> {s..<s + 2 ^ n}. d ! i = 0"
    "distinct js" "set js \<subseteq> {s..<s + 2 ^ n}"
  shows "\<exists>cs d'. maxdone_each (Suc n) js d = Some (cs, d') \<and> length cs = length js \<and>
    (\<forall>i < length js. cs ! i = Suc n \<longleftrightarrow> set (take (Suc i) js) = {s..<s + 2 ^ n}) \<and>
    (\<forall>i. i \<notin> {s..<s + 2 ^ n} \<longrightarrow> d' ! i = d ! i)"
proof -
  have "counted s n {} d" using assms(2,4) by (simp add: counted_def best_def finished_def)
  from maxdone_each_counts [OF this, of js] assms show ?thesis by simp
qed

theorem maxdone_detects_last_witness:
  "\<exists>cs d'. maxdone_each (Suc 2) [6, 4, 7, 5] (replicate 9 0) = Some (cs, d') \<and>
     length cs = length [6, 4, 7, 5 :: nat] \<and>
     (\<forall>i < length [6, 4, 7, 5 :: nat]. cs ! i = Suc 2 \<longleftrightarrow>
       set (take (Suc i) [6, 4, 7, 5 :: nat]) = {4..<4 + 2 ^ 2}) \<and>
     (\<forall>i. i \<notin> {4..<4 + 2 ^ 2} \<longrightarrow> d' ! i = replicate 9 0 ! i)"
  by (rule maxdone_detects_last) (auto simp: nth_Cons' less_Suc_eq)

end
