(* ===== verification/Bitonic_Chunks.thy ===== *)
theory Bitonic_Chunks
  imports Bitonic_Counts
begin

text \<open>
  The fine-grained master/slave sort of \<^verbatim>\<open>apps/bitonic/bitonic.cpp\<close> and
  \<^verbatim>\<open>utils.cpp\<close>, in the build with \<^verbatim>\<open>boost::lockfree::queue\<close>: a merge is cut into
  chunks of \<open>2 ^ e\<close> elements (\<open>e\<close> is \<^verbatim>\<open>MINI_TASK_EXP\<close>) that different slaves can work on; the
  master counts finished chunks in three arrays and schedules the next level when a segment is
  complete. The arrays have less than \<open>2 ^ 31\<close> elements, so that the code's shifts of an
  \<open>int\<close> stay in range.
\<close>

section \<open>A slave's chunk\<close>

record chunk =
  c_beg :: nat
  c_exp :: nat
  c_torswap :: bool

text \<open>
  The initial task: pairs, then for each length up to the chunk's an rswap of every block and
  the swaps below it.
\<close>

definition rlevel_ops :: "nat \<Rightarrow> nat \<Rightarrow> nat \<Rightarrow> ops" where
  "rlevel_ops off n l = concat (map (\<lambda>k. rswap_ops (off + k * l) l) [0..<blocks n l])"

function init_rounds :: "nat \<Rightarrow> nat \<Rightarrow> nat \<Rightarrow> ops" where
  "init_rounds off n exp_tmp =
     (if 2 ^ exp_tmp < n
      then rlevel_ops off n (2 ^ Suc exp_tmp) @ down_ops off n (2 ^ Suc exp_tmp) @
        init_rounds off n (Suc exp_tmp)
      else [])"
  by pat_completeness auto

termination
proof (relation "measure (\<lambda>(off, n, exp_tmp). n - 2 ^ exp_tmp)")
  fix off n exp_tmp :: nat
  assume "2 ^ exp_tmp < n"
  then show "((off, n, Suc exp_tmp), off, n, exp_tmp) \<in>
      measure (\<lambda>(off, n, exp_tmp). n - 2 ^ exp_tmp)"
    by (simp add: diff_less_mono2)
qed simp

declare init_rounds.simps [simp del]

definition init_ops :: "nat \<Rightarrow> nat \<Rightarrow> nat \<Rightarrow> ops" where
  "init_ops e len off =
     (let n = min len (off + 2 ^ e) - off in level_ops off n 2 @ init_rounds off n 0)"

definition chunk_ops :: "nat \<Rightarrow> nat \<Rightarrow> chunk \<Rightarrow> ops" where
  "chunk_ops e len m =
     (let b = c_beg m; x = c_exp m in
      if e < x then
        let beg_tmp = down_to x b in
        (if c_torswap m then rswap_seg_ops else swap_seg_ops)
          beg_tmp (2 ^ x) (b - beg_tmp) (b + 2 ^ e - beg_tmp)
      else if x = e then
        (if c_torswap m then rswap_ops else swap_ops) b (2 ^ x) @ down_ops b (2 ^ x) (2 ^ x)
      else init_ops e len b)"

section \<open>State of the master and the slaves\<close>

datatype worker = Waiting | Sorting chunk ops | Pushing chunk | Looking | Ended | Faulted

text \<open>\<open>Push\<close> holds the messages the master still has to push before it polls again.\<close>

datatype scheduler = Feed | Poll | Push "chunk list" | Refill | Done_all | Overran

record ('q, 'a) chunk_sort =
  k_arr :: "'a list"
  k_scnts :: "byte list"
  k_dcnts :: "byte list"
  k_bcnts :: "byte list"
  k_feed :: nat
  k_fly :: u64
  k_msg :: chunk
  k_tosort :: 'q
  k_topair :: 'q
  k_master :: scheduler
  k_slaves :: "worker list"
  k_done :: bool

text \<open>The compile-time constants \<^verbatim>\<open>MINI_TASK_EXP\<close> and \<^verbatim>\<open>MAX_ON_THE_FLY\<close>.\<close>

record sort_config =
  mini_exp :: nat
  max_fly :: u64

section \<open>Steps of a slave\<close>

text \<open>A slave pushes a finished task again until the queue takes it.\<close>

definition worker_step ::
  "sort_config \<Rightarrow> ('q, chunk) queue_ops \<Rightarrow> nat \<Rightarrow> ('q, 'a::linorder) chunk_sort \<Rightarrow>
    ('q, 'a) chunk_sort" where
  "worker_step cf Q i s =
     (case k_slaves s ! i of
        Waiting \<Rightarrow>
          (case q_pop Q (k_tosort s) of
             None \<Rightarrow> s\<lparr>k_slaves := (k_slaves s)[i := Looking]\<rparr>
           | Some (m, q) \<Rightarrow>
               s\<lparr>k_tosort := q,
                 k_slaves := (k_slaves s)[i := Sorting m (chunk_ops (mini_exp cf) (length (k_arr s)) m)]\<rparr>)
      | Sorting m [] \<Rightarrow> s\<lparr>k_slaves := (k_slaves s)[i := Pushing m]\<rparr>
      | Sorting m (p # ps) \<Rightarrow>
          if fst p < length (k_arr s) \<and> snd p < length (k_arr s)
          then s\<lparr>k_arr := exchange (fst p) (snd p) (k_arr s),
                 k_slaves := (k_slaves s)[i := Sorting m ps]\<rparr>
          else s\<lparr>k_slaves := (k_slaves s)[i := Faulted]\<rparr>
      | Pushing m \<Rightarrow>
          (case q_push Q m (k_topair s) of
             None \<Rightarrow> s
           | Some q \<Rightarrow> s\<lparr>k_topair := q, k_slaves := (k_slaves s)[i := Waiting]\<rparr>)
      | Looking \<Rightarrow> s\<lparr>k_slaves := (k_slaves s)[i := (if k_done s then Ended else Waiting)]\<rparr>
      | Ended \<Rightarrow> s
      | Faulted \<Rightarrow> s)"

section \<open>Steps of the master\<close>

definition set_zero :: "nat list \<Rightarrow> byte list \<Rightarrow> byte list option" where
  "set_zero is xs =
     (if \<forall>i \<in> set is. i < length xs then Some (fold (\<lambda>i xs. xs[i := 0]) is xs) else None)"

definition overran :: "('q, 'a) chunk_sort \<Rightarrow> ('q, 'a) chunk_sort" where
  "overran s = s\<lparr>k_master := Overran\<rparr>"

text \<open>The begins of the chunks of \<open>2 ^ e\<close> elements from \<open>lo\<close> on, below \<open>hi\<close>.\<close>

definition chunk_begs :: "nat \<Rightarrow> nat \<Rightarrow> nat \<Rightarrow> nat list" where
  "chunk_begs e lo hi = map (\<lambda>i. lo + i * 2 ^ e) [0..<blocks (hi - lo) (2 ^ e)]"

text \<open>
  A chunk of a merge came back. When it was the last of its swap or rswap, the two halves of the
  segment are swapped next.
\<close>

definition finish_swap :: "nat \<Rightarrow> chunk \<Rightarrow> ('q, 'a) chunk_sort \<Rightarrow> ('q, 'a) chunk_sort" where
  "finish_swap e m s =
     (let b = c_beg m; x = c_exp m in
      case maxdone (k_dcnts s) (drop_bit e b) (x - e) of
        None \<Rightarrow> overran s
      | Some (cnt, dcnts) \<Rightarrow>
          if cnt + e = x then
            let tb = down_to x b;
                quarter = 2 ^ (x - 2);
                begs = chunk_begs e tb (tb + quarter) @
                  chunk_begs e (tb + quarter + quarter) (tb + quarter + quarter + quarter)
            in case set_zero (map (drop_bit e) begs) dcnts of
                 None \<Rightarrow> overran s
               | Some dcnts \<Rightarrow>
                   s\<lparr>k_dcnts := dcnts,
                     k_msg := m\<lparr>c_exp := x - 1, c_torswap := False\<rparr>,
                     k_master := Push (map (\<lambda>b. \<lparr>c_beg = b, c_exp = x - 1, c_torswap = False\<rparr>) begs)\<rparr>
          else s\<lparr>k_dcnts := dcnts, k_master := Poll\<rparr>)"

text \<open>
  The rswap of two neighbours of \<open>n\<close> sorted chunks each: one task for every chunk of the first,
  and the counters of the new merge are reset.
\<close>

definition pair_up :: "nat \<Rightarrow> nat \<Rightarrow> nat \<Rightarrow> nat \<Rightarrow> ('q, 'a) chunk_sort \<Rightarrow> ('q, 'a) chunk_sort" where
  "pair_up e x n idx s =
     (case (set_zero [idx..<idx + n] (k_dcnts s), set_zero [idx..<idx + n + n] (k_bcnts s)) of
        (Some dcnts, Some bcnts) \<Rightarrow>
          s\<lparr>k_dcnts := dcnts, k_bcnts := bcnts,
            k_msg := (k_msg s)\<lparr>c_exp := x, c_torswap := True\<rparr>,
            k_master := Push (map (\<lambda>i. \<lparr>c_beg = push_bit e i, c_exp = x, c_torswap = True\<rparr>)
              [idx..<idx + n])\<rparr>
      | _ \<Rightarrow> overran s)"

text \<open>Whether the array is sorted: \<open>test (1 << scnts[0]) len\<close>; the shift is of an \<open>int\<close>.\<close>

definition all_sorted :: "(nat \<Rightarrow> nat \<Rightarrow> bool) \<Rightarrow> ('q, 'a) chunk_sort \<Rightarrow> bool option" where
  "all_sorted test s =
     Option.bind (counter (k_scnts s) 0) (\<lambda>c.
       if 31 \<le> c then None else Some (test (2 ^ c) (length (k_arr s))))"

definition seek_pair :: "nat \<Rightarrow> nat \<Rightarrow> nat \<Rightarrow> nat \<Rightarrow> ('q, 'a) chunk_sort \<Rightarrow> ('q, 'a) chunk_sort" where
  "seek_pair e x n idx s =
     (case ispaired e (k_scnts s) idx of
        None \<Rightarrow> overran s
      | Some (True, first) \<Rightarrow> pair_up e x n first s
      | Some (False, _) \<Rightarrow> s\<lparr>k_master := Poll\<rparr>)"

definition all_done :: "('q, 'a) chunk_sort \<Rightarrow> ('q, 'a) chunk_sort" where
  "all_done s = s\<lparr>k_master := Done_all, k_done := True\<rparr>"

text \<open>A chunk is merged to the bottom. When it was the last of its merge, the segment is sorted.\<close>

definition finish_bottom :: "nat \<Rightarrow> chunk \<Rightarrow> ('q, 'a) chunk_sort \<Rightarrow> ('q, 'a) chunk_sort" where
  "finish_bottom e m s =
     (let b = c_beg m; i = drop_bit e b in
      case maxsorted e (k_scnts s) i of
        None \<Rightarrow> overran s
      | Some (t, _) \<Rightarrow>
          let x = t + 1 in
          (case maxdone (k_bcnts s) i (x - e + 1) of
             None \<Rightarrow> overran s
           | Some (cnt, bcnts) \<Rightarrow>
               if cnt + e - 1 = x then
                 let idx = drop_bit e (down_to x b); s = s\<lparr>k_bcnts := bcnts\<rparr> in
                 if length (k_scnts s) \<le> idx then overran s
                 else
                   let s = s\<lparr>k_scnts := (k_scnts s)[idx := k_scnts s ! idx + 1]\<rparr> in
                   (case all_sorted (=) s of
                      None \<Rightarrow> overran s
                    | Some True \<Rightarrow> all_done s
                    | Some False \<Rightarrow> seek_pair e (x + 1) (2 ^ (x - e)) idx s)
               else s\<lparr>k_bcnts := bcnts, k_master := Poll\<rparr>))"

definition finish_init :: "nat \<Rightarrow> chunk \<Rightarrow> ('q, 'a) chunk_sort \<Rightarrow> ('q, 'a) chunk_sort" where
  "finish_init e m s =
     (let idx = drop_bit e (c_beg m) in
      if length (k_scnts s) \<le> idx then overran s
      else
        let s = s\<lparr>k_scnts := (k_scnts s)[idx := of_nat e]\<rparr> in
        (case all_sorted (\<ge>) s of
           None \<Rightarrow> overran s
         | Some True \<Rightarrow> all_done s
         | Some False \<Rightarrow> seek_pair e (e + 1) 1 idx s))"

definition process_msg :: "nat \<Rightarrow> chunk \<Rightarrow> ('q, 'a) chunk_sort \<Rightarrow> ('q, 'a) chunk_sort" where
  "process_msg e m s =
     (let s = s\<lparr>k_msg := m, k_fly := k_fly s - 1\<rparr> in
      if e < c_exp m then finish_swap e m s
      else if c_exp m = e then finish_bottom e m s
      else finish_init e m s)"

definition feed_chunk ::
  "sort_config \<Rightarrow> ('q, chunk) queue_ops \<Rightarrow> scheduler \<Rightarrow> scheduler \<Rightarrow>
    ('q, 'a) chunk_sort \<Rightarrow> ('q, 'a) chunk_sort" where
  "feed_chunk cf Q refused taken s =
     (let m = (k_msg s)\<lparr>c_beg := k_feed s, c_exp := 0\<rparr>; s = s\<lparr>k_msg := m\<rparr> in
      case q_push Q m (k_tosort s) of
        None \<Rightarrow> s\<lparr>k_master := refused\<rparr>
      | Some q \<Rightarrow>
          s\<lparr>k_tosort := q, k_feed := k_feed s + 2 ^ mini_exp cf, k_fly := k_fly s + 1,
            k_master := taken\<rparr>)"

definition scheduler_step ::
  "sort_config \<Rightarrow> ('q, chunk) queue_ops \<Rightarrow> ('q, 'a) chunk_sort \<Rightarrow> ('q, 'a) chunk_sort" where
  "scheduler_step cf Q s =
     (case k_master s of
        Feed \<Rightarrow>
          if k_feed s < length (k_arr s)
          then feed_chunk cf Q Feed (if max_fly cf \<le> k_fly s + 1 then Poll else Feed) s
          else s\<lparr>k_master := Poll\<rparr>
      | Poll \<Rightarrow>
          (case q_pop Q (k_topair s) of
             None \<Rightarrow> s\<lparr>k_master := Refill\<rparr>
           | Some (m, q) \<Rightarrow> process_msg (mini_exp cf) m (s\<lparr>k_topair := q\<rparr>))
      | Push [] \<Rightarrow> s\<lparr>k_master := Poll\<rparr>
      | Push (m # ms) \<Rightarrow>
          (case q_push Q m (k_tosort s) of
             None \<Rightarrow> s
           | Some q \<Rightarrow> s\<lparr>k_msg := m, k_tosort := q, k_fly := k_fly s + 1, k_master := Push ms\<rparr>)
      | Refill \<Rightarrow>
          if k_feed s < length (k_arr s) \<and> k_fly s < max_fly cf
          then feed_chunk cf Q Poll Poll s
          else s\<lparr>k_master := Poll\<rparr>
      | Done_all \<Rightarrow> s
      | Overran \<Rightarrow> s)"

definition chunk_start ::
  "sort_config \<Rightarrow> ('q, chunk) queue_ops \<Rightarrow> nat \<Rightarrow> 'a list \<Rightarrow> ('q, 'a) chunk_sort" where
  "chunk_start cf Q k xs =
     (let cnts = replicate (drop_bit (mini_exp cf) (length xs)) 0 in
      \<lparr>k_arr = xs, k_scnts = cnts, k_dcnts = cnts, k_bcnts = cnts, k_feed = 0, k_fly = 0,
       k_msg = \<lparr>c_beg = 0, c_exp = 0, c_torswap = False\<rparr>,
       k_tosort = q_empty Q, k_topair = q_empty Q, k_master = Feed,
       k_slaves = replicate k Waiting, k_done = False\<rparr>)"

inductive chunk_reach ::
  "sort_config \<Rightarrow> ('q, chunk) queue_ops \<Rightarrow> nat \<Rightarrow> 'a::linorder list \<Rightarrow> ('q, 'a) chunk_sort \<Rightarrow> bool"
  for cf Q k xs where
  chunk_init: "chunk_reach cf Q k xs (chunk_start cf Q k xs)"
| chunk_master: "chunk_reach cf Q k xs s \<Longrightarrow> chunk_reach cf Q k xs (scheduler_step cf Q s)"
| chunk_slave: "chunk_reach cf Q k xs s \<Longrightarrow> i < length (k_slaves s) \<Longrightarrow>
    chunk_reach cf Q k xs (worker_step cf Q i s)"

section \<open>Padding\<close>

definition INT_MAX :: int where "INT_MAX = 2 ^ 31 - 1"

text \<open>
  What \<^verbatim>\<open>main\<close> does with the array before it is sorted: \<open>arr\<close> has the size rounded up and
  holds the input in its first \<open>n\<close> elements.
\<close>

definition pad_input :: "u64 \<Rightarrow> int list \<Rightarrow> int list option" where
  "pad_input n arr = fill (unat n) (unat (roundup64 n) - unat n) INT_MAX arr"

end
