(* ===== verification/Bitonic_Merge.thy ===== *)
theory Bitonic_Merge
  imports Bitonic_Chunks
begin

text \<open>
  What the tasks of the fine-grained bitonic sort do: an initial task sorts its chunk, and the
  chunk tasks of a swap or rswap together have its effect in every interleaving of the slaves. A
  step on many blocks is taken apart with \<open>part\<close>, the exchanges that lie within one block. The
  theory also shows what padding does, and that an array shorter than a chunk is never sorted.
\<close>

section \<open>Exchanges within blocks\<close>

lemma exec_filter:
  assumes "\<forall>e \<in> set es. lo \<le> fst e \<and> fst e < hi \<longleftrightarrow> lo \<le> snd e \<and> snd e < hi"
    "hi \<le> length xs" "length xs = length ys" "\<forall>k. lo \<le> k \<longrightarrow> k < hi \<longrightarrow> xs ! k = ys ! k"
  shows "\<forall>k. lo \<le> k \<longrightarrow> k < hi \<longrightarrow>
    exec es xs ! k = exec (filter (\<lambda>e. lo \<le> fst e \<and> fst e < hi) es) ys ! k"
  using assms
proof (induction es arbitrary: xs ys)
  case (Cons e es)
  let ?in = "lo \<le> fst e \<and> fst e < hi"
  let ?xs = "exchange (fst e) (snd e) xs" and ?ys = "if ?in then exchange (fst e) (snd e) ys else ys"
  have "?xs ! k = ?ys ! k" if k: "lo \<le> k" "k < hi" for k
  proof (cases ?in)
    case True
    then have "snd e < length xs" "fst e < length xs" "xs ! fst e = ys ! fst e" "xs ! snd e = ys ! snd e"
      using Cons.prems by auto
    then show ?thesis
      using True k Cons.prems(3,4) by (auto simp: exchange_def nth_update_if)
  next
    case False
    then have "k \<noteq> fst e" "k \<noteq> snd e" using Cons.prems(1) k by auto
    then show ?thesis using False k Cons.prems(4) by (auto simp: exchange_outside)
  qed
  then have "\<forall>k. lo \<le> k \<longrightarrow> k < hi \<longrightarrow>
      exec es ?xs ! k = exec (filter (\<lambda>e. lo \<le> fst e \<and> fst e < hi) es) ?ys ! k"
    using Cons.prems by (intro Cons.IH) auto
  then show ?case by (cases "lo \<le> fst e"; cases "fst e < hi") simp_all
qed simp

lemma seg_exec_filter:
  assumes "\<forall>e \<in> set es. lo \<le> fst e \<and> fst e < lo + n \<longleftrightarrow> lo \<le> snd e \<and> snd e < lo + n"
    "lo + n \<le> length xs"
  shows "seg lo n (exec es xs) = seg lo n (exec (filter (\<lambda>e. lo \<le> fst e \<and> fst e < lo + n) es) xs)"
  by (rule seg_agree) (use exec_filter [OF assms] in simp_all)

text \<open>Blocks of length \<open>l\<close>, \<open>r\<close> of them in each part.\<close>

lemma part_of_block:
  assumes "off + k * l \<le> x" "x < off + k * l + (l :: nat)"
  shows "off + q * (r * l) \<le> x \<and> x < off + q * (r * l) + r * l \<longleftrightarrow> q * r \<le> k \<and> k < q * r + r"
proof -
  have "q * r \<le> k \<Longrightarrow> q * (r * l) \<le> k * l" "\<not> q * r \<le> k \<Longrightarrow> k * l + l \<le> q * (r * l)"
      "k < q * r + r \<Longrightarrow> k * l + l \<le> q * (r * l) + r * l"
      "\<not> k < q * r + r \<Longrightarrow> q * (r * l) + r * l \<le> k * l"
    using mult_le_mono1 [of "q * r" k l] mult_le_mono1 [of "k + 1" "q * r" l]
      mult_le_mono1 [of "k + 1" "q * r + r" l] mult_le_mono1 [of "q * r + r" k l]
    by (simp_all add: algebra_simps)
  then show ?thesis using assms by linarith
qed

lemma concat_map_Nil: "concat (map (\<lambda>_. []) xs) = []"
  by (induction xs) simp_all

lemma filter_concat_blocks:
  assumes "\<And>k e. e \<in> set (f k) \<Longrightarrow> P e \<longleftrightarrow> a \<le> k \<and> k < a + r" "a + r \<le> m"
  shows "filter P (concat (map f [0..<m])) = concat (map (\<lambda>k. f (a + k)) [0..<r])"
proof -
  have f: "filter P (f k) = (if a \<le> k \<and> k < a + r then f k else [])" for k
    using assms(1) [of _ k] by (auto simp: filter_id_conv filter_empty_conv)
  have split: "[0..<m] = [0..<a] @ [a..<a + r] @ [a + r..<m]"
    using upt_add_eq_append [of 0 a "m - a"] upt_add_eq_append [of a "a + r" "m - (a + r)"] assms(2)
    by simp
  have "filter P (concat (map f [0..<m])) = concat (map (filter P \<circ> f) [0..<m])"
    by (simp add: filter_concat)
  also have "map (filter P \<circ> f) [0..<m] = map (\<lambda>_. []) [0..<a] @ map f [a..<a + r] @ map (\<lambda>_. []) [a + r..<m]"
    unfolding split by (simp add: f)
  also have "concat \<dots> = concat (map f [a..<a + r])"
    by (simp only: concat_append concat_map_Nil append_Nil append_Nil2)
  also have "[a..<a + r] = map (\<lambda>k. a + k) [0..<r]" by (simp add: map_add_upt add.commute)
  finally show ?thesis by (simp add: o_def)
qed

lemma blocks_in_part:
  fixes off q r l m :: nat
  assumes "\<And>p. ops_within p (p + l) (F p)" "q < m"
  defines "lo \<equiv> off + q * (r * l)" and "es \<equiv> concat (map (\<lambda>k. F (off + k * l)) [0..<m * r])"
  shows "\<forall>e \<in> set es. lo \<le> fst e \<and> fst e < lo + r * l \<longleftrightarrow> lo \<le> snd e \<and> snd e < lo + r * l"
    "filter (\<lambda>e. lo \<le> fst e \<and> fst e < lo + r * l) es = concat (map (\<lambda>k. F (lo + k * l)) [0..<r])"
proof -
  have part: "(lo \<le> fst e \<and> fst e < lo + r * l \<longleftrightarrow> q * r \<le> k \<and> k < q * r + r) \<and>
      (lo \<le> snd e \<and> snd e < lo + r * l \<longleftrightarrow> q * r \<le> k \<and> k < q * r + r)"
    if "e \<in> set (F (off + k * l))" for e k
    using part_of_block [of off k l "fst e" q r] part_of_block [of off k l "snd e" q r] that
      assms(1) [of "off + k * l"]
    unfolding lo_def by (auto simp: ops_within_def)
  then show "\<forall>e \<in> set es. lo \<le> fst e \<and> fst e < lo + r * l \<longleftrightarrow> lo \<le> snd e \<and> snd e < lo + r * l"
    unfolding es_def by auto
  have "q * r + r \<le> m * r" using assms(2) mult_le_mono1 [of "q + 1" m r] by (simp add: algebra_simps)
  then have "filter (\<lambda>e. lo \<le> fst e \<and> fst e < lo + r * l) es =
      concat (map (\<lambda>k. F (off + (q * r + k) * l)) [0..<r])"
    unfolding es_def by (rule filter_concat_blocks [rotated]) (use part in blast)
  then show "filter (\<lambda>e. lo \<le> fst e \<and> fst e < lo + r * l) es = concat (map (\<lambda>k. F (lo + k * l)) [0..<r])"
    by (simp add: lo_def algebra_simps)
qed

definition partable :: "nat \<Rightarrow> nat \<Rightarrow> ops \<Rightarrow> bool" where
  "partable lo n es \<longleftrightarrow>
     (\<forall>e \<in> set es. lo \<le> fst e \<and> fst e < lo + n \<longleftrightarrow> lo \<le> snd e \<and> snd e < lo + n)"

definition part :: "nat \<Rightarrow> nat \<Rightarrow> ops \<Rightarrow> ops" where
  "part lo n es = filter (\<lambda>e. lo \<le> fst e \<and> fst e < lo + n) es"

lemma partable_append: "partable lo n (es @ es') \<longleftrightarrow> partable lo n es \<and> partable lo n es'"
  by (auto simp: partable_def)

lemma part_append: "part lo n (es @ es') = part lo n es @ part lo n es'"
  by (simp add: part_def)

lemma seg_exec_part:
  "partable lo n es \<Longrightarrow> lo + n \<le> length xs \<Longrightarrow> seg lo n (exec es xs) = seg lo n (exec (part lo n es) xs)"
  unfolding partable_def part_def by (rule seg_exec_filter)

lemma level_part:
  assumes "0 < j" "j \<le> k" "q < m"
  shows "partable (off + q * 2 ^ k) (2 ^ k) (level_ops off (m * 2 ^ k) (2 ^ j))"
    "part (off + q * 2 ^ k) (2 ^ k) (level_ops off (m * 2 ^ k) (2 ^ j)) =
      level_ops (off + q * 2 ^ k) (2 ^ k) (2 ^ j)"
proof -
  have k: "(2 :: nat) ^ k = 2 ^ (k - j) * 2 ^ j" using assms(2) by (simp flip: power_add)
  have w: "ops_within p (p + 2 ^ j) (swap_ops p (2 ^ j))" for p
    using two_power [OF assms(1)] swap_ops_within by metis
  have "level_ops off (m * 2 ^ k) (2 ^ j) =
      concat (map (\<lambda>i. swap_ops (off + i * 2 ^ j) (2 ^ j)) [0..<m * 2 ^ (k - j)])" for off m
    using blocks_mult [of "2 ^ j" "m * 2 ^ (k - j)"] by (simp add: level_ops_def k mult.assoc)
  from this [of off m] this [of "off + q * 2 ^ k" 1]
  show "partable (off + q * 2 ^ k) (2 ^ k) (level_ops off (m * 2 ^ k) (2 ^ j))"
    "part (off + q * 2 ^ k) (2 ^ k) (level_ops off (m * 2 ^ k) (2 ^ j)) =
      level_ops (off + q * 2 ^ k) (2 ^ k) (2 ^ j)"
    using blocks_in_part [where F = "\<lambda>p. swap_ops p (2 ^ j)" and l = "2 ^ j" and r = "2 ^ (k - j)",
        OF w assms(3), of off]
    by (simp_all add: partable_def part_def k [symmetric])
qed

lemma down_part:
  assumes "j \<le> k" "q < m"
  shows "partable (off + q * 2 ^ k) (2 ^ k) (down_ops off (m * 2 ^ k) (2 ^ j)) \<and>
    part (off + q * 2 ^ k) (2 ^ k) (down_ops off (m * 2 ^ k) (2 ^ j)) =
      down_ops (off + q * 2 ^ k) (2 ^ k) (2 ^ j)"
  using assms(1)
proof (induction j)
  case (Suc j)
  show ?case
  proof (cases "2 < (2 :: nat) ^ Suc j")
    case True
    then have "0 < j" by (cases j) auto
    moreover have "(2 :: nat) ^ Suc j div 2 = 2 ^ j" by simp
    ultimately show ?thesis
      using Suc level_part [of j k q m off] assms(2) True
      by (simp only: down_ops_step partable_append part_append)
  qed (simp add: down_ops_stop not_less partable_def part_def)
qed (simp add: down_ops_stop partable_def part_def)

lemma part_of_one: "concat (map f [0..<1]) = f 0" "off + 0 * l = off" for f :: "nat \<Rightarrow> 'a list" and off l :: nat
  by simp_all

lemma rlevel_part:
  assumes "q < m"
  shows "partable (off + q * 2 ^ Suc k) (2 ^ Suc k) (rlevel_ops off (m * 2 ^ Suc k) (2 ^ Suc k))"
    "part (off + q * 2 ^ Suc k) (2 ^ Suc k) (rlevel_ops off (m * 2 ^ Suc k) (2 ^ Suc k)) =
      rswap_ops (off + q * 2 ^ Suc k) (2 ^ Suc k)"
proof -
  have w: "ops_within p (p + 2 ^ Suc k) (rswap_ops p (2 ^ Suc k))" for p
    using rswap_ops_within [of p "2 ^ k"] by simp
  have "blocks (m * 2 ^ Suc k) (2 ^ Suc k) = m" by (rule blocks_mult) simp
  then have "rlevel_ops off (m * 2 ^ Suc k) (2 ^ Suc k) =
      concat (map (\<lambda>i. rswap_ops (off + i * 2 ^ Suc k) (2 ^ Suc k)) [0..<m * 1])" for off
    unfolding rlevel_ops_def by (simp only: mult_1_right)
  then show "partable (off + q * 2 ^ Suc k) (2 ^ Suc k) (rlevel_ops off (m * 2 ^ Suc k) (2 ^ Suc k))"
    "part (off + q * 2 ^ Suc k) (2 ^ Suc k) (rlevel_ops off (m * 2 ^ Suc k) (2 ^ Suc k)) =
      rswap_ops (off + q * 2 ^ Suc k) (2 ^ Suc k)"
    using blocks_in_part [where F = "\<lambda>p. rswap_ops p (2 ^ Suc k)" and l = "2 ^ Suc k" and r = 1,
        OF w assms(1), of off]
    by (simp_all only: partable_def part_def mult_1 part_of_one)
qed

section \<open>The initial task sorts a chunk\<close>

definition sorted_blocks :: "nat \<Rightarrow> nat \<Rightarrow> nat \<Rightarrow> 'a::linorder list \<Rightarrow> bool" where
  "sorted_blocks off m k xs \<longleftrightarrow> (\<forall>q < m. sorted (seg (off + q * 2 ^ k) (2 ^ k) xs))"

lemma init_round:
  assumes "sorted_blocks off (2 * m) k xs" "off + m * 2 ^ Suc k \<le> length xs"
  shows "sorted_blocks off m (Suc k)
    (exec (rlevel_ops off (m * 2 ^ Suc k) (2 ^ Suc k) @ down_ops off (m * 2 ^ Suc k) (2 ^ Suc k)) xs)"
  unfolding sorted_blocks_def
proof (intro allI impI)
  fix q assume q: "q < m"
  let ?lo = "off + q * 2 ^ Suc k"
  let ?es = "rlevel_ops off (m * 2 ^ Suc k) (2 ^ Suc k) @ down_ops off (m * 2 ^ Suc k) (2 ^ Suc k)"
  have "(q + 1) * 2 ^ Suc k \<le> m * 2 ^ Suc k" using q by (intro mult_le_mono1) simp
  then have "?lo + 2 ^ Suc k \<le> length xs" using assms(2) by simp
  moreover have "partable ?lo (2 ^ Suc k) ?es" "part ?lo (2 ^ Suc k) ?es =
      rswap_ops ?lo (2 ^ Suc k) @ down_ops ?lo (2 ^ Suc k) (2 ^ Suc k)"
    using rlevel_part [OF q, of off k] down_part [of "Suc k" "Suc k" q m off] q
    by (simp_all only: partable_append part_append order_refl)
  moreover have "sorted (seg ?lo (2 ^ k) xs)" "sorted (seg (?lo + 2 ^ k) (2 ^ k) xs)"
    using assms(1) [unfolded sorted_blocks_def, rule_format, of "2 * q"]
      assms(1) [unfolded sorted_blocks_def, rule_format, of "2 * q + 1"] q
    by (simp_all add: algebra_simps)
  ultimately show "sorted (seg ?lo (2 ^ Suc k) (exec ?es xs))"
    using rswap_task_sorts [of ?lo k xs] seg_exec_part [of ?lo "2 ^ Suc k" ?es xs] by simp
qed

lemma init_rounds_sorts:
  assumes "k \<le> e" "sorted_blocks off (2 ^ (e - k)) k xs" "off + 2 ^ e \<le> length xs"
  shows "sorted (seg off (2 ^ e) (exec (init_rounds off (2 ^ e) k) xs))"
  using assms
proof (induction "e - k" arbitrary: k xs)
  case 0
  then have "k = e" by simp
  then show ?case using 0 by (simp add: init_rounds.simps [of off] sorted_blocks_def)
next
  case (Suc d)
  then have k: "k < e" "(2 :: nat) ^ (e - k) = 2 * 2 ^ (e - Suc k)"
      "(2 :: nat) ^ e = 2 ^ (e - Suc k) * 2 ^ Suc k"
    by (simp_all add: Suc_diff_Suc flip: power_Suc power_add)
  have "sorted_blocks off (2 ^ (e - Suc k)) (Suc k)
      (exec (rlevel_ops off (2 ^ e) (2 ^ Suc k) @ down_ops off (2 ^ e) (2 ^ Suc k)) xs)"
    using init_round [of off "2 ^ (e - Suc k)" k xs] Suc.prems(2,3) k by simp
  then have "sorted (seg off (2 ^ e) (exec (init_rounds off (2 ^ e) (Suc k))
      (exec (rlevel_ops off (2 ^ e) (2 ^ Suc k) @ down_ops off (2 ^ e) (2 ^ Suc k)) xs)))"
    using Suc k(1) by (intro Suc.hyps(1)) simp_all
  then show ?case
    using k(1) by (subst init_rounds.simps) (simp add: exec_append)
qed

lemma concat_within:
  assumes "\<And>p. ops_within p (p + l) (F p)"
  shows "ops_within off (off + m * l) (concat (map (\<lambda>k. F (off + k * l)) [0..<m]))"
proof (induction m)
  case (Suc m)
  have "ops_within off (off + Suc m * l) (F (off + m * l))"
    using assms [of "off + m * l"] by (auto simp: ops_within_def)
  then show ?case using ops_within_mono [OF Suc.IH, of "off + Suc m * l"] by simp
qed simp

lemma rlevel_within: "ops_within off (off + m * 2 ^ Suc k) (rlevel_ops off (m * 2 ^ Suc k) (2 ^ Suc k))"
proof -
  have "blocks (m * 2 ^ Suc k) (2 ^ Suc k) = m" by (rule blocks_mult) simp
  moreover have "ops_within p (p + 2 ^ Suc k) (rswap_ops p (2 ^ Suc k))" for p
    using rswap_ops_within [of p "2 ^ k"] by simp
  ultimately show ?thesis
    using concat_within [of "2 ^ Suc k" "\<lambda>p. rswap_ops p (2 ^ Suc k)" off m] by (simp only: rlevel_ops_def)
qed

lemma init_rounds_within: "k \<le> e \<Longrightarrow> ops_within off (off + 2 ^ e) (init_rounds off (2 ^ e) k)"
proof (induction "e - k" arbitrary: k)
  case 0
  then show ?case by (simp add: init_rounds.simps [of off])
next
  case (Suc d)
  then have k: "Suc k \<le> e" "(2 :: nat) ^ e = 2 ^ (e - Suc k) * 2 ^ Suc k"
    by (simp_all only: power_add [symmetric]) simp_all
  have "ops_within off (off + 2 ^ e) (rlevel_ops off (2 ^ e) (2 ^ Suc k))"
    using rlevel_within [of off "2 ^ (e - Suc k)" k] k(2) by simp
  moreover have "ops_within off (off + 2 ^ e) (down_ops off (2 ^ e) (2 ^ Suc k))"
    using k(1) by (rule down_ops_within)
  ultimately show ?case
    using Suc.hyps k(1) by (subst init_rounds.simps) simp
qed

lemma init_ops_within:
  assumes "0 < e" "off + 2 ^ e \<le> len"
  shows "ops_within off (off + 2 ^ e) (init_ops e len off)"
proof -
  have "(2 :: nat) ^ e = 2 ^ (e - 1) * (2 * 1)" using assms(1) by (cases e) simp_all
  then have "ops_within off (off + 2 ^ e) (level_ops off (2 ^ e) 2)"
    using level_ops_within [of 1 off "2 ^ (e - 1)"] by simp
  then show ?thesis
    using init_rounds_within [of 0 e off] assms(2) by (simp add: init_ops_def min_absorb2 Let_def)
qed

lemma init_ops_sorts:
  assumes "0 < e" "off + 2 ^ e \<le> length xs"
  shows "sorted (seg off (2 ^ e) (exec (init_ops e (length xs) off) xs))"
proof -
  have "init_ops e (length xs) off = level_ops off (2 ^ e) 2 @ init_rounds off (2 ^ e) 0"
    using assms(2) by (simp add: init_ops_def min_absorb2 Let_def)
  moreover have "sorted (seg k 1 ys)" for k and ys :: "'a list"
    by (cases "drop k ys") (simp_all add: seg_def)
  then have "sorted_blocks off (2 ^ e) 0 ys" for ys :: "'a list"
    by (simp add: sorted_blocks_def)
  ultimately show ?thesis
    using init_rounds_sorts [of 0 e off "exec (level_ops off (2 ^ e) 2) xs"] assms(2)
    by (simp add: exec_append)
qed

section \<open>The chunks of a swap\<close>

text \<open>Exchanges on pairwise different places commute.\<close>

lemma exec_disjoint:
  assumes "distinct (map fst es @ map snd es)" "\<forall>e \<in> set es. fst e < length xs \<and> snd e < length xs"
  shows "(\<forall>e \<in> set es. exec es xs ! fst e = min (xs ! fst e) (xs ! snd e) \<and>
      exec es xs ! snd e = max (xs ! fst e) (xs ! snd e)) \<and>
    (\<forall>k. k \<notin> fst ` set es \<union> snd ` set es \<longrightarrow> exec es xs ! k = xs ! k)"
  using assms
proof (induction es arbitrary: xs)
  case (Cons e es)
  let ?ys = "exchange (fst e) (snd e) xs"
  have IH: "\<And>k. k \<notin> fst ` set es \<union> snd ` set es \<Longrightarrow> exec es ?ys ! k = ?ys ! k"
      "\<And>p. p \<in> set es \<Longrightarrow> exec es ?ys ! fst p = min (?ys ! fst p) (?ys ! snd p) \<and>
        exec es ?ys ! snd p = max (?ys ! fst p) (?ys ! snd p)"
    using Cons.IH [of ?ys] Cons.prems by auto
  have e: "?ys ! fst e = min (xs ! fst e) (xs ! snd e)" "?ys ! snd e = max (xs ! fst e) (xs ! snd e)"
    using exchange_nth [of "fst e" xs "snd e"] Cons.prems by auto
  have rest: "?ys ! fst p = xs ! fst p \<and> ?ys ! snd p = xs ! snd p" if "p \<in> set es" for p
    using that Cons.prems(1) by (auto intro!: exchange_outside simp: image_iff)
  have new: "fst e \<notin> fst ` set es \<union> snd ` set es" "snd e \<notin> fst ` set es \<union> snd ` set es"
    using Cons.prems(1) by auto
  show ?case
    using IH(1) [OF new(1)] IH(1) [OF new(2)] e IH rest exchange_outside [of _ "fst e" "snd e" xs]
    by auto
qed simp

lemma exec_any_order:
  assumes "mset es = mset es'" "distinct (map fst es' @ map snd es')"
    "\<forall>e \<in> set es'. fst e < length xs \<and> snd e < length xs"
  shows "exec es xs = exec es' xs"
proof (rule nth_equalityI)
  have same: "set es = set es'" using assms(1) by (rule mset_eq_setD)
  have "mset (map fst es @ map snd es) = mset (map fst es' @ map snd es')"
    using assms(1) by simp
  then have "distinct (map fst es @ map snd es)" using assms(2) mset_eq_imp_distinct_iff by blast
  note es = exec_disjoint [OF this, of xs] and es' = exec_disjoint [OF assms(2,3)]
  fix k assume "k < length (exec es xs)"
  show "exec es xs ! k = exec es' xs ! k"
  proof (cases "k \<in> fst ` set es' \<union> snd ` set es'")
    case True
    then obtain e where "e \<in> set es'" "k = fst e \<or> k = snd e" by auto
    then show ?thesis using es es' assms(3) same by auto
  next
    case False
    then show ?thesis using es es' assms(3) same by auto
  qed
qed simp

text \<open>The exchanges of one swap or rswap, as its chunks have them.\<close>

definition merge_ops :: "nat \<Rightarrow> nat \<Rightarrow> bool \<Rightarrow> ops" where
  "merge_ops off n r = (if r then rswap_ops else swap_ops) off n"

lemma merge_ops_within: "ops_within off (off + 2 ^ Suc k) (merge_ops off (2 ^ Suc k) r)"
  using rswap_ops_within [of off "2 ^ k"] swap_ops_within [of off "2 ^ k"] by (simp add: merge_ops_def)

lemma merge_ops_distinct:
  "distinct (map fst (merge_ops off (2 ^ Suc k) r) @ map snd (merge_ops off (2 ^ Suc k) r))"
  by (auto simp: merge_ops_def rswap_ops_def swap_ops_def o_def distinct_map inj_on_def)

lemma concat_upt: "concat (map (\<lambda>i. map f [i * l..<i * l + l]) [0..<r]) = map f [0..<r * (l :: nat)]"
proof (induction r)
  case (Suc r)
  have "[0..<Suc r * l] = [0..<r * l] @ [r * l..<r * l + l]"
    using upt_add_eq_append [of 0 "r * l" l] by (simp add: add.commute)
  then show ?case using Suc by simp
qed simp

lemma chunk_begs_power: "e < x \<Longrightarrow>
  chunk_begs e off (off + 2 ^ (x - 1)) = map (\<lambda>i. off + i * 2 ^ e) [0..<2 ^ (x - 1 - e)]"
proof -
  assume "e < x"
  then have "(2 :: nat) ^ (x - 1) = 2 ^ (x - 1 - e) * 2 ^ e" by (simp flip: power_add)
  then show ?thesis using blocks_mult [of "2 ^ e" "2 ^ (x - 1 - e)"] by (simp add: chunk_begs_def)
qed

lemma chunks_concat:
  assumes "e < x" "2 ^ x dvd off"
  shows "concat (map (\<lambda>b. chunk_ops e len \<lparr>c_beg = b, c_exp = x, c_torswap = r\<rparr>)
    (chunk_begs e off (off + 2 ^ (x - 1)))) = merge_ops off (2 ^ x) r"
proof -
  let ?f = "\<lambda>i. (off + i, off + (if r then 2 ^ x - i - 1 else i + 2 ^ x div 2))"
  have split: "(2 :: nat) ^ x = 2 * 2 ^ (x - 1)" "(2 :: nat) ^ (x - 1) = 2 ^ (x - 1 - e) * 2 ^ e"
    using assms(1) by (simp_all flip: power_add power_Suc)
  have "chunk_ops e len \<lparr>c_beg = off + i * 2 ^ e, c_exp = x, c_torswap = r\<rparr> =
      map ?f [i * 2 ^ e..<i * 2 ^ e + 2 ^ e]" if "i < 2 ^ (x - 1 - e)" for i
  proof -
    have "i * 2 ^ e < 2 ^ x" using that split mult_less_mono1 [of i "2 ^ (x - 1 - e)" "2 ^ e"] by simp
    then have "down_to x (off + i * 2 ^ e) = off" using assms(2) by (intro down_to_unique) simp_all
    then show ?thesis
      using assms(1) by (simp add: chunk_ops_def rswap_seg_ops_def swap_seg_ops_def)
  qed
  then have "concat (map (\<lambda>b. chunk_ops e len \<lparr>c_beg = b, c_exp = x, c_torswap = r\<rparr>)
      (chunk_begs e off (off + 2 ^ (x - 1)))) =
      concat (map (\<lambda>i. map ?f [i * 2 ^ e..<i * 2 ^ e + 2 ^ e]) [0..<2 ^ (x - 1 - e)])"
    unfolding chunk_begs_power [OF assms(1)] map_map o_def
    by (intro arg_cong [where f = concat] map_cong) auto
  also have "\<dots> = map ?f [0..<2 ^ x div 2]" unfolding concat_upt using split by simp
  also have "\<dots> = merge_ops off (2 ^ x) r"
    by (simp add: merge_ops_def rswap_ops_def swap_ops_def)
  finally show ?thesis .
qed

section \<open>Padding\<close>

lemma sorted_prefix_of_padded:
  assumes "sorted ys" "mset ys = mset (xs @ replicate k v)" "\<forall>x \<in> set xs. x \<le> v"
  shows "ys = sort xs @ replicate k v"
proof -
  have "sorted (sort xs @ replicate k v)" using assms(3) by (auto simp: sorted_append)
  moreover have "mset (sort xs @ replicate k v) = mset ys" using assms(2) by simp
  ultimately show ?thesis using assms(1) by (metis properties_for_sort)
qed

section \<open>Arrays shorter than a chunk\<close>

lemma short_step:
  assumes "k_scnts s = []" "k_master s \<noteq> Done_all"
  shows "k_scnts (scheduler_step cf Q s) = [] \<and> k_master (scheduler_step cf Q s) \<noteq> Done_all"
proof -
  have process: "k_scnts (process_msg e m t) = [] \<and> k_master (process_msg e m t) \<noteq> Done_all"
    if "k_scnts t = []" for e m and t :: "('a, 'b) chunk_sort"
    using that
    by (auto simp: process_msg_def finish_swap_def finish_bottom_def finish_init_def overran_def
        maxsorted.simps counter_def Let_def split: option.splits)
  show ?thesis
    using assms process [of "s\<lparr>k_topair := q\<rparr>" for q]
    by (auto simp: scheduler_step_def feed_chunk_def Let_def
        split: scheduler.splits list.splits option.splits)
qed

lemma worker_master [simp]:
  "k_scnts (worker_step cf Q i s) = k_scnts s" "k_master (worker_step cf Q i s) = k_master s"
  by (auto simp: worker_step_def split: worker.splits list.splits option.splits)

lemma short_reach:
  "chunk_reach cf Q k xs s \<Longrightarrow> length xs < 2 ^ mini_exp cf \<Longrightarrow>
    k_scnts s = [] \<and> k_master s \<noteq> Done_all"
  by (induction rule: chunk_reach.induct)
    (simp_all add: short_step, simp add: chunk_start_def Let_def drop_bit_eq_div)

section \<open>Properties\<close>

text \<open>
  C29: The initial task of a slave sorts its chunk: every access stays in the array, the chunk ends
  up sorted, the array keeps its elements, and nothing outside the chunk is touched.
\<close>

theorem init_task_sorts:
  assumes "0 < e" "off + 2 ^ e \<le> length xs" "c_beg m = off" "c_exp m < e"
  shows "\<exists>ys. run_ops (chunk_ops e (length xs) m) xs = Some ys \<and>
    sorted (seg off (2 ^ e) ys) \<and> mset ys = mset xs \<and>
    (\<forall>i. i < off \<or> off + 2 ^ e \<le> i \<longrightarrow> ys ! i = xs ! i)"
proof -
  note within = init_ops_within [OF assms(1,2)]
  have inside: "ops_within off (length xs) (init_ops e (length xs) off)"
    using ops_within_mono [OF within assms(2)] .
  have "chunk_ops e (length xs) m = init_ops e (length xs) off"
    using assms(3,4) by (simp add: chunk_ops_def)
  then show ?thesis
    using run_ops_exec [OF inside] mset_exec [OF inside] exec_outside [OF within]
      init_ops_sorts [OF assms(1,2)] by auto
qed

theorem init_task_sorts_witness:
  "\<exists>ys. run_ops (chunk_ops 2 (length [7 :: nat, 9, 3, 5, 1, 0]) \<lparr>c_beg = 1, c_exp = 0, c_torswap = False\<rparr>)
      [7 :: nat, 9, 3, 5, 1, 0] = Some ys \<and>
     sorted (seg 1 (2 ^ 2) ys) \<and> mset ys = mset [7 :: nat, 9, 3, 5, 1, 0] \<and>
     (\<forall>i. i < 1 \<or> 1 + 2 ^ 2 \<le> i \<longrightarrow> ys ! i = [7 :: nat, 9, 3, 5, 1, 0] ! i)"
  by (rule init_task_sorts) simp_all

text \<open>
  C28: The chunk tasks of a swap or rswap have the effect of the whole swap or rswap, however the
  slaves' exchanges interleave.
\<close>

theorem chunks_make_swap:
  assumes "e < x" "2 ^ x dvd off" "off + 2 ^ x \<le> length xs"
    "mset es = (\<Sum>b \<leftarrow> chunk_begs e off (off + 2 ^ (x - 1)).
       mset (chunk_ops e (length xs) \<lparr>c_beg = b, c_exp = x, c_torswap = r\<rparr>))"
  shows "run_ops es xs = (if r then rswap else swap) off (2 ^ x) xs"
proof -
  obtain k where k: "x = Suc k" using assms(1) by (cases x) auto
  have same: "mset es = mset (merge_ops off (2 ^ x) r)"
    by (simp only: assms(4) chunks_concat [OF assms(1,2), of "length xs" r, symmetric]
        mset_concat map_map o_def)
  have within: "ops_within off (length xs) (merge_ops off (2 ^ x) r)"
    using ops_within_mono [OF merge_ops_within assms(3) [unfolded k]] k by simp
  then have "ops_within off (length xs) es"
    using mset_eq_setD [OF same] by (simp add: ops_within_def)
  moreover have "exec es xs = exec (merge_ops off (2 ^ x) r) xs"
    using same by (rule exec_any_order) (use merge_ops_distinct k within in \<open>auto simp: ops_within_def\<close>)
  ultimately show ?thesis
    using run_ops_exec [OF within] run_ops_exec [of off xs es]
    by (cases r) (simp_all add: merge_ops_def rswap_def swap_def)
qed

text \<open>Two slaves at the two chunks of an rswap, their exchanges interleaved.\<close>

theorem chunks_make_swap_witness:
  "run_ops [(0, 7), (2, 5), (3, 4), (1, 6)] [8 :: nat, 6, 4, 2, 7, 5, 3, 1] =
    rswap 0 (2 ^ 3) [8, 6, 4, 2, 7, 5, 3, 1]"
proof -
  have "run_ops [(0, 7), (2, 5), (3, 4), (1, 6)] [8 :: nat, 6, 4, 2, 7, 5, 3, 1] =
      (if True then rswap else swap) 0 (2 ^ 3) [8, 6, 4, 2, 7, 5, 3, 1]"
    by (rule chunks_make_swap [of 1]) (simp_all add: chunk_begs_def blocks_def chunk_ops_def
        rswap_seg_ops_def down_to_def numeral_2_eq_2 [symmetric] upt_rec)
  then show ?thesis by simp
qed

text \<open>
  C31: Padding does no harm: once the padded array is sorted, its first elements are the input,
  sorted.
\<close>

theorem padded_prefix_sorted:
  assumes "1 \<le> unat n" "unat n \<le> 2 ^ 63" "length arr = unat (roundup64 n)"
    "\<forall>x \<in> set (take (unat n) arr). x \<le> INT_MAX"
    "pad_input n arr = Some xs" "sorted ys" "mset ys = mset xs"
  shows "take (unat n) ys = sort (take (unat n) arr)"
proof -
  have len: "unat n \<le> length arr" using roundup64_least [OF assms(1,2)] assms(3) by auto
  then have "xs = take (unat n) arr @ replicate (length arr - unat n) INT_MAX"
    using assms(5) fill_from_run [of "unat n" "length arr - unat n" arr 0 INT_MAX] assms(3)
    by (simp add: pad_input_def fill_def)
  then have "ys = sort (take (unat n) arr) @ replicate (length arr - unat n) INT_MAX"
    using sorted_prefix_of_padded [OF assms(6) _ assms(4)] assms(7) by simp
  then show ?thesis using len by simp
qed

theorem padded_prefix_sorted_witness:
  "take (unat (3 :: u64)) [1, 5, 9, INT_MAX] = sort (take (unat (3 :: u64)) [9, 1, 5, 77])"
  by (rule padded_prefix_sorted [of 3 "[9, 1, 5, 77]" "[9, 1, 5, INT_MAX]"])
    (simp_all add: roundup64_def pad_input_def fill_def INT_MAX_def)


text \<open>
  C30: An array shorter than one chunk leaves the master without counters: it never gets to report
  the array as sorted, and its first finished task is an access outside the counters.
\<close>

theorem short_array_overruns:
  assumes "chunk_reach cf Q k xs s" "length xs < 2 ^ mini_exp cf"
  shows "k_master s \<noteq> Done_all \<and>
    (\<forall>m q. k_master s = Poll \<longrightarrow> q_pop Q (k_topair s) = Some (m, q) \<longrightarrow> c_exp m < mini_exp cf \<longrightarrow>
      k_master (scheduler_step cf Q s) = Overran)"
  using short_reach [OF assms]
  by (auto simp: scheduler_step_def process_msg_def finish_init_def overran_def)

text \<open>Two numbers, chunks of four: the state in which the one task has come back.\<close>

definition short_config :: sort_config where
  "short_config = \<lparr>mini_exp = 2, max_fly = 1\<rparr>"

definition short_sample :: "(chunk list, nat) chunk_sort" where
  "short_sample =
     (let m = scheduler_step short_config std_queue; w = worker_step short_config std_queue 0 in
      w (w (w (w (w (m (chunk_start short_config std_queue 1 [3, 1])))))))"

lemma short_sample_fed:
  "scheduler_step short_config std_queue (chunk_start short_config std_queue 1 [3 :: nat, 1]) =
    \<lparr>k_arr = [3, 1], k_scnts = [], k_dcnts = [], k_bcnts = [], k_feed = 4, k_fly = 1,
     k_msg = \<lparr>c_beg = 0, c_exp = 0, c_torswap = False\<rparr>,
     k_tosort = [\<lparr>c_beg = 0, c_exp = 0, c_torswap = False\<rparr>], k_topair = [], k_master = Poll,
     k_slaves = [Waiting], k_done = False\<rparr>"
  by (simp add: short_config_def Let_def chunk_start_def scheduler_step_def feed_chunk_def
      std_queue_def queue_emplace_def drop_bit_eq_div)

lemma worker_slaves [simp]: "length (k_slaves (worker_step cf Q i s)) = length (k_slaves s)"
  by (auto simp: worker_step_def split: worker.splits list.splits option.splits)

lemma short_sample_reach: "chunk_reach short_config std_queue 1 [3, 1] short_sample"
proof -
  have "chunk_reach short_config std_queue 1 [3 :: nat, 1]
      (scheduler_step short_config std_queue (chunk_start short_config std_queue 1 [3, 1]))"
    by (intro chunk_master chunk_init)
  then show ?thesis
    unfolding short_sample_def Let_def short_sample_fed
    by (intro chunk_slave) (simp_all only: worker_slaves, simp_all)
qed

lemma short_ops:
  "chunk_ops 2 (Suc (Suc 0)) \<lparr>c_beg = 0, c_exp = 0, c_torswap = False\<rparr> = [(0, Suc 0), (0, Suc 0)]"
  by code_simp

lemma short_sample_state:
  "k_master short_sample = Poll"
  "k_topair short_sample = [\<lparr>c_beg = 0, c_exp = 0, c_torswap = False\<rparr>]"
  unfolding short_sample_def Let_def short_sample_fed
  by (simp_all add: short_config_def worker_step_def std_queue_def queue_emplace_def queue_take_def
      short_ops exchange_def)

theorem short_array_overruns_witness:
  "k_master (scheduler_step short_config std_queue short_sample) = Overran"
proof -
  have "q_pop std_queue (k_topair short_sample) =
      Some (\<lparr>c_beg = 0, c_exp = 0, c_torswap = False\<rparr>, [])"
    by (simp add: short_sample_state std_queue_def queue_take_def)
  then show ?thesis
    using short_array_overruns [OF short_sample_reach] by (simp add: short_sample_state short_config_def)
qed

end
