(* ===== verification/Bitonic_Pieces.thy ===== *)
theory Bitonic_Pieces
  imports Bitonic_Merge
begin

text \<open>
  What a merge that is cut into pieces keeps. A piece that is swapped is bitonic and falls into two
  bitonic halves, the lower not above the upper; a chunk that is bitonic is sorted by the swaps of
  a bottom task. The exchanges of a swap may be done in any order and more than once.
\<close>

section \<open>Pieces\<close>

text \<open>
  A piece of the array is bitonic when it is for every threshold; a piece is split when both halves
  are bitonic and nothing in the lower half exceeds anything in the upper.
\<close>

definition bit_piece :: "nat \<Rightarrow> nat \<Rightarrow> 'a::linorder list \<Rightarrow> bool" where
  "bit_piece p n xs \<longleftrightarrow> (\<forall>c. bitonic n (\<lambda>i. c < xs ! (p + i)))"

definition split_piece :: "nat \<Rightarrow> nat \<Rightarrow> 'a::linorder list \<Rightarrow> bool" where
  "split_piece p h xs \<longleftrightarrow>
     bit_piece p h xs \<and> bit_piece (p + h) h xs \<and>
     (\<forall>a b. p \<le> a \<longrightarrow> a < p + h \<longrightarrow> p + h \<le> b \<longrightarrow> b < p + 2 * h \<longrightarrow> xs ! a \<le> xs ! b)"

lemma split_piece_leveled:
  fixes xs :: "'a::linorder list"
  assumes "\<And>c. leveled p (2 * h) h (map (\<lambda>x. c < x) xs)" "0 < h" "p + 2 * h \<le> length xs"
  shows "split_piece p h xs"
proof -
  have bit: "bitonic h (\<lambda>i. map (\<lambda>x. c < x) xs ! (p + q * h + i))" if "q < 2" for c q
    using assms(1) [of c] assms(2) that by (simp add: leveled_def)
  have "bit_piece p h xs"
    using bit [of 0] assms(3) by (simp add: bit_piece_def cong: bitonic_cong)
  moreover have "bit_piece (p + h) h xs"
    using bit [of 1] assms(3) by (simp add: bit_piece_def cong: bitonic_cong)
  moreover have "xs ! a \<le> xs ! b" if "p \<le> a" "a < p + h" "p + h \<le> b" "b < p + 2 * h" for a b
  proof (rule ccontr)
    assume "\<not> xs ! a \<le> xs ! b"
    moreover have "(a - p) div h < (b - p) div h"
    proof -
      have "1 \<le> (b - p) div h" using that assms(2) by (simp add: less_eq_div_iff_mult_less_eq)
      moreover have "(a - p) div h = 0" using that by simp
      ultimately show ?thesis by simp
    qed
    then have "map (\<lambda>x. xs ! b < x) xs ! (p + (a - p)) \<longrightarrow> map (\<lambda>x. xs ! b < x) xs ! (p + (b - p))"
      using assms(1) [of "xs ! b", unfolded leveled_def, THEN conjunct2, rule_format, of "a - p" "b - p"] that
      by linarith
    ultimately show False using that assms(3) by simp
  qed
  ultimately show ?thesis by (simp add: split_piece_def)
qed

lemma bit_piece_leveled:
  "bit_piece p n xs \<Longrightarrow> 0 < n \<Longrightarrow> p + n \<le> length xs \<Longrightarrow> leveled p n n (map (\<lambda>x. c < x) xs)"
  by (auto simp: leveled_def bit_piece_def cong: bitonic_cong)

lemma exec_map_within:
  "mono f \<Longrightarrow> ops_within lo hi es \<Longrightarrow> hi \<le> length xs \<Longrightarrow> exec es (map f xs) = map f (exec es xs)"
  using exec_map ops_within_mono by blast

lemma swap_splits:
  fixes xs :: "'a::linorder list"
  assumes "bit_piece p (2 * h) xs" "0 < h" "p + 2 * h \<le> length xs"
  shows "split_piece p h (exec (swap_ops p (2 * h)) xs)"
proof (rule split_piece_leveled)
  fix c
  have "level_ops p (1 * (2 * h)) (2 * h) = swap_ops p (2 * h)"
    using assms(2) blocks_mult [of "2 * h" 1] by (simp add: level_ops_def)
  moreover have "leveled p (1 * (2 * h)) (2 * h) (map (\<lambda>x. c < x) xs)"
    using bit_piece_leveled [OF assms(1), of c] assms(2,3) by simp
  ultimately show "leveled p (2 * h) h (map (\<lambda>x. c < x) (exec (swap_ops p (2 * h)) xs))"
    using leveled_step [of p 1 h "map (\<lambda>x. c < x) xs"] assms(2,3)
      exec_map_within [OF mono_above swap_ops_within assms(3), of c] by simp
qed (use assms in simp_all)

lemma rswap_splits:
  fixes xs :: "'a::linorder list"
  assumes "sorted (seg p h xs)" "sorted (seg (p + h) h xs)" "0 < h" "p + 2 * h \<le> length xs"
  shows "split_piece p h (exec (rswap_ops p (2 * h)) xs)"
proof (rule split_piece_leveled)
  fix c
  have "leveled p (2 * h) h (exec (rswap_ops p (2 * h)) (map (\<lambda>x. c < x) xs))"
    using assms by (intro rswap_leveled) (simp_all add: seg_map sorted_map_mono mono_above)
  then show "leveled p (2 * h) h (map (\<lambda>x. c < x) (exec (rswap_ops p (2 * h)) xs))"
    using exec_map_within [OF mono_above rswap_ops_within assms(4), of c] by simp
qed (use assms in simp_all)

lemma bottom_sorts:
  fixes xs :: "'a::linorder list"
  assumes "bit_piece p (2 ^ Suc k) xs" "p + 2 ^ Suc k \<le> length xs"
  shows "sorted (seg p (2 ^ Suc k) (exec (swap_ops p (2 ^ Suc k) @ down_ops p (2 ^ Suc k) (2 ^ Suc k)) xs))"
proof (rule exec_seg_sorted)
  have within: "ops_within p (p + 2 ^ Suc k) (swap_ops p (2 ^ Suc k) @ down_ops p (2 ^ Suc k) (2 ^ Suc k))"
    using swap_ops_within [of p "2 ^ k"] down_ops_within [of "Suc k" "Suc k" p] by simp
  then show "ops_within p (length xs) (swap_ops p (2 ^ Suc k) @ down_ops p (2 ^ Suc k) (2 ^ Suc k))"
    using ops_within_mono assms(2) by blast
  fix c
  let ?xs = "map (\<lambda>x. c < x) xs"
  have "level_ops p (2 ^ Suc k) (2 ^ Suc k) = swap_ops p (2 ^ Suc k)"
    using blocks_mult [of "2 ^ Suc k" 1] by (simp add: level_ops_def)
  moreover have "leveled p (2 ^ Suc k) (2 ^ Suc k) ?xs"
    using bit_piece_leveled [OF assms(1) _ assms(2), of c] by simp
  ultimately have "leveled p (2 ^ Suc k) (2 ^ k) (exec (swap_ops p (2 ^ Suc k)) ?xs)"
    using leveled_step [of p 1 "2 ^ k" ?xs] assms(2) by simp
  from down_levels [OF this] assms(2)
  have "leveled p (2 ^ Suc k) 1 (exec (down_ops p (2 ^ Suc k) (2 ^ Suc k)) (exec (swap_ops p (2 ^ Suc k)) ?xs))"
    by simp
  from leveled_sorted [OF this] assms(2)
  show "sorted (seg p (2 ^ Suc k) (exec (swap_ops p (2 ^ Suc k) @ down_ops p (2 ^ Suc k) (2 ^ Suc k)) ?xs))"
    by (simp add: exec_append)
qed

text \<open>An exchange of a set of disjoint exchanges may be done early, and may be repeated.\<close>

lemma exec_absorb:
  assumes "e \<in> set es" "distinct (map fst es @ map snd es)" "\<forall>e \<in> set es. fst e < length xs \<and> snd e < length xs"
  shows "exec es (exchange (fst e) (snd e) xs) = exec es xs"
proof (rule nth_equalityI)
  let ?ys = "exchange (fst e) (snd e) xs"
  note xs = exec_disjoint [OF assms(2,3)]
  have "\<forall>e \<in> set es. fst e < length ?ys \<and> snd e < length ?ys" using assms(3) by simp
  note ys = exec_disjoint [OF assms(2) this]
  have "fst e \<noteq> snd e" using assms(1,2) by auto
  then have e: "?ys ! fst e = min (xs ! fst e) (xs ! snd e)" "?ys ! snd e = max (xs ! fst e) (xs ! snd e)"
    using exchange_nth [of "fst e" xs "snd e"] assms(1,3) by auto
  have other: "?ys ! fst p = xs ! fst p \<and> ?ys ! snd p = xs ! snd p" if "p \<in> set es" "p \<noteq> e" for p
  proof -
    have "fst p \<noteq> fst e" "snd p \<noteq> snd e" "fst p \<noteq> snd e" "snd p \<noteq> fst e"
    proof -
      have d: "inj_on fst (set es)" "inj_on snd (set es)" "fst ` set es \<inter> snd ` set es = {}"
        using assms(2) by (simp_all add: distinct_map)
      then show "fst p \<noteq> fst e" "snd p \<noteq> snd e" using that assms(1) by (meson inj_onD)+
      show "fst p \<noteq> snd e" "snd p \<noteq> fst e" using d(3) that(1) assms(1) by (metis IntI empty_iff imageI)+
    qed
    then show ?thesis by (simp add: exchange_outside)
  qed
  fix k assume "k < length (exec es ?ys)"
  show "exec es ?ys ! k = exec es xs ! k"
  proof (cases "k \<in> fst ` set es \<union> snd ` set es")
    case True
    then obtain p where p: "p \<in> set es" "k = fst p \<or> k = snd p" by auto
    have "min (?ys ! fst p) (?ys ! snd p) = min (xs ! fst p) (xs ! snd p) \<and>
        max (?ys ! fst p) (?ys ! snd p) = max (xs ! fst p) (xs ! snd p)"
      using e other [OF p(1)] by (cases "p = e") (auto simp: min_def max_def)
    then show ?thesis using xs ys p by auto
  next
    case False
    then have "k \<noteq> fst e" "k \<noteq> snd e" using assms(1) by auto
    then show ?thesis using xs ys False by (simp add: exchange_outside)
  qed
qed simp

lemma exec_ordered: "\<forall>e \<in> set es. xs ! fst e \<le> xs ! snd e \<Longrightarrow> exec es xs = xs"
  by (induction es) (auto simp: exchange_def)

end
