(* ===== verification/Bitonic_Status.thy ===== *)
theory Bitonic_Status
  imports Bitonic_Pieces
begin

section \<open>The status of a chunk\<close>

text \<open>
  \<open>Ordered h\<close>: in a sorted segment of \<open>2 ^ h\<close> chunks. \<open>Merging h g d\<close>: in a segment of \<open>2 ^ h\<close>
  chunks that is being merged and in a piece of \<open>2 ^ g\<close> chunks of it; \<open>d\<close> says whether the task
  of the chunk has come back. A piece of one chunk is the matter of a bottom task.
\<close>

datatype status = Unfed | Initial | Ordered nat | Merging nat nat bool

definition block :: "nat \<Rightarrow> nat \<Rightarrow> nat set" where
  "block h i = {j. down_to h j = down_to h i}"

lemma block_self [simp]: "i \<in> block h i"
  by (simp add: block_def)

lemma block_eq: "j \<in> block h i \<Longrightarrow> block h j = block h i"
  by (auto simp: block_def)

lemma block_sym: "j \<in> block h i \<longleftrightarrow> i \<in> block h j"
  by (auto simp: block_def)

lemma down_to_0 [simp]: "down_to 0 i = i"
  by (simp add: down_to_div)

lemma block_0 [simp]: "block 0 i = {i}"
  by (auto simp: block_def)

lemma in_block: "j \<in> block h i \<longleftrightarrow> down_to h i \<le> j \<and> j < down_to h i + 2 ^ h"
  using down_to_range [of h j] down_to_unique [of h "down_to h i" j] down_to_dvd [of h i]
  by (auto simp: block_def)

lemma block_down: "j \<in> block h i \<Longrightarrow> down_to h j = down_to h i"
  by (simp add: block_def)

lemma down_to_down: "g \<le> h \<Longrightarrow> down_to h (down_to g i) = down_to h i"
proof -
  assume "g \<le> h"
  then have "down_to h i \<le> down_to g i"
    using aligned_nested [OF down_to_dvd [of g i] down_to_dvd [of h i], of i]
      down_to_range [of g i] down_to_range [of h i] by simp
  then show ?thesis
    using down_to_range [of g i] down_to_range [of h i]
    by (intro down_to_unique [OF down_to_dvd]) linarith+
qed

lemma block_mono: "g \<le> h \<Longrightarrow> block g i \<subseteq> block h i"
  by (auto simp: block_def) (metis down_to_down)

fun piece_height :: "status \<Rightarrow> nat" where
  "piece_height (Ordered h) = h"
| "piece_height (Merging h g d) = g"
| "piece_height _ = 0"

definition tidy :: "(nat \<Rightarrow> status) \<Rightarrow> nat \<Rightarrow> bool" where
  "tidy st n \<longleftrightarrow>
     (\<forall>i. n \<le> i \<longrightarrow> st i = Unfed) \<and>
     (\<forall>i h. st i = Ordered h \<longrightarrow> (\<forall>j \<in> block h i. st j = Ordered h)) \<and>
     (\<forall>i h g d. st i = Merging h g d \<longrightarrow>
        0 < h \<and> g \<le> h \<and> (\<forall>j \<in> block h i. \<exists>g' d'. st j = Merging h g' d') \<and>
        (\<forall>j \<in> block g i. \<exists>d'. st j = Merging h g d'))"

lemma tidy_Ordered: "tidy st n \<Longrightarrow> st i = Ordered h \<Longrightarrow> j \<in> block h i \<Longrightarrow> st j = Ordered h"
  unfolding tidy_def by blast

lemma tidy_Merging:
  assumes "tidy st n" "st i = Merging h g d"
  shows "0 < h" "g \<le> h" "j \<in> block h i \<Longrightarrow> \<exists>g' d'. st j = Merging h g' d'"
    "j \<in> block g i \<Longrightarrow> \<exists>d'. st j = Merging h g d'"
  using assms unfolding tidy_def by blast+

definition zone :: "(nat \<Rightarrow> status) \<Rightarrow> nat \<Rightarrow> nat set" where
  "zone st i = block (piece_height (st i)) i"

lemma zone_self [simp]: "i \<in> zone st i"
  by (simp add: zone_def)

lemma zone_same:
  assumes "tidy st n" "j \<in> zone st i"
  shows "piece_height (st j) = piece_height (st i)" "zone st j = zone st i"
proof -
  show h: "piece_height (st j) = piece_height (st i)"
  proof (cases "st i")
    case (Ordered h)
    then show ?thesis using tidy_Ordered [OF assms(1) Ordered] assms(2) by (simp add: zone_def)
  next
    case (Merging h g d)
    then show ?thesis using tidy_Merging(4) [OF assms(1) Merging, of j] assms(2) by (auto simp: zone_def)
  qed (use assms(2) in \<open>simp_all add: zone_def\<close>)
  then show "zone st j = zone st i" using assms(2) block_eq by (simp add: zone_def)
qed

lemma zone_disjoint: "tidy st n \<Longrightarrow> j \<notin> zone st i \<Longrightarrow> zone st i \<inter> zone st j = {}"
  using zone_same(2) by (metis disjoint_iff zone_self)

section \<open>Elements of chunks\<close>

lemma chunk_range: "i * 2 ^ e \<le> a \<and> a < i * 2 ^ e + 2 ^ e \<longleftrightarrow> a div 2 ^ e = (i :: nat)"
proof
  assume "i * 2 ^ e \<le> a \<and> a < i * 2 ^ e + 2 ^ e"
  then show "a div 2 ^ e = i" by (intro div_nat_eqI) (simp_all add: mult.commute)
next
  assume i: "a div 2 ^ e = i"
  have "a div 2 ^ e * 2 ^ e + a mod 2 ^ e = a" "a mod 2 ^ e < 2 ^ e"
    by (simp_all only: div_mult_mod_eq) simp
  then show "i * 2 ^ e \<le> a \<and> a < i * 2 ^ e + 2 ^ e" unfolding i by linarith
qed

lemma block_range:
  "down_to h i * 2 ^ e \<le> a \<and> a < down_to h i * 2 ^ e + 2 ^ (e + h) \<longleftrightarrow> a div 2 ^ e \<in> block h i"
proof -
  have pos: "(0 :: nat) < 2 ^ e" by simp
  have "down_to h i * 2 ^ e \<le> a \<longleftrightarrow> down_to h i \<le> a div 2 ^ e"
    using pos by (simp add: less_eq_div_iff_mult_less_eq)
  moreover have "a < down_to h i * 2 ^ e + 2 ^ (e + h) \<longleftrightarrow> a div 2 ^ e < down_to h i + 2 ^ h"
    using pos by (simp add: div_less_iff_less_mult power_add algebra_simps)
  ultimately show ?thesis by (simp add: in_block)
qed

lemma down_to_scale: "down_to (e + g) (i * 2 ^ e) = down_to g i * 2 ^ e"
  by (simp add: down_to_div power_add mult.commute mult.left_commute)

section \<open>Tasks and pieces\<close>

definition piece_ops :: "nat \<Rightarrow> nat \<Rightarrow> nat \<Rightarrow> nat \<Rightarrow> ops" where
  "piece_ops e i h g = merge_ops (down_to g i * 2 ^ e) (2 ^ (e + g)) (g = h)"

lemma piece_ops_block:
  assumes "p \<in> set (piece_ops e i h (Suc g))"
  shows "fst p div 2 ^ e \<in> block (Suc g) i" "snd p div 2 ^ e \<in> block (Suc g) i"
  using merge_ops_within [of "down_to (Suc g) i * 2 ^ e" "e + g" "Suc g = h"] assms
  by (auto simp: piece_ops_def ops_within_def block_range [symmetric])

lemma piece_ops_same: "j \<in> block g i \<Longrightarrow> piece_ops e j h g = piece_ops e i h g"
  by (simp add: piece_ops_def block_down)

lemma piece_ops_distinct:
  "distinct (map fst (piece_ops e i h (Suc g)) @ map snd (piece_ops e i h (Suc g)))"
  using merge_ops_distinct [of _ "e + g"] by (simp add: piece_ops_def)

text \<open>Whether a task of a chunk is under way, and which message it has.\<close>

fun pending :: "nat \<Rightarrow> status \<Rightarrow> bool" where
  "pending i Initial = True"
| "pending i (Merging h 0 d) = (\<not> d)"
| "pending i (Merging h (Suc g) d) = (\<not> d \<and> i < down_to (Suc g) i + 2 ^ g)"
| "pending i _ = False"

fun fits :: "nat \<Rightarrow> status \<Rightarrow> chunk \<Rightarrow> bool" where
  "fits e Initial m = (c_exp m < e)"
| "fits e (Merging h g d) m = (c_exp m = e + g \<and> c_torswap m = (g = h))"
| "fits e _ m = False"

type_synonym chunk_job = "chunk \<times> ops"

definition jobs_at :: "nat \<Rightarrow> nat \<Rightarrow> chunk_job multiset \<Rightarrow> chunk_job multiset" where
  "jobs_at e i J = filter_mset (\<lambda>j. c_beg (fst j) = i * 2 ^ e) J"

definition tasks_fit :: "nat \<Rightarrow> (nat \<Rightarrow> status) \<Rightarrow> chunk_job multiset \<Rightarrow> bool" where
  "tasks_fit e st J \<longleftrightarrow>
     (\<forall>j \<in># J. 2 ^ e dvd c_beg (fst j)) \<and>
     (\<forall>i. if pending i (st i) then \<exists>m es. jobs_at e i J = {#(m, es)#} \<and> fits e (st i) m
          else jobs_at e i J = {#})"

definition sorts_chunk :: "nat \<Rightarrow> nat \<Rightarrow> 'a::linorder list \<Rightarrow> ops \<Rightarrow> bool" where
  "sorts_chunk e i xs es \<longleftrightarrow>
     ops_within (i * 2 ^ e) (i * 2 ^ e + 2 ^ e) es \<and> sorted (seg (i * 2 ^ e) (2 ^ e) (exec es xs))"

fun task_fine :: "nat \<Rightarrow> nat \<Rightarrow> status \<Rightarrow> 'a::linorder list \<Rightarrow> ops \<Rightarrow> bool" where
  "task_fine e i Initial xs es = sorts_chunk e i xs es"
| "task_fine e i (Merging h 0 d) xs es = sorts_chunk e i xs es"
| "task_fine e i (Merging h (Suc g) d) xs es = (set es \<subseteq> set (piece_ops e i h (Suc g)))"
| "task_fine e i _ xs es = False"

text \<open>An exchange of a swap is still in a task, or its two elements are in order.\<close>

definition splitting :: "nat \<Rightarrow> nat \<Rightarrow> nat \<Rightarrow> nat \<Rightarrow> chunk_job multiset \<Rightarrow> 'a::linorder list \<Rightarrow> bool" where
  "splitting e i h g J xs \<longleftrightarrow>
     split_piece (down_to (Suc g) i * 2 ^ e) (2 ^ (e + g)) (exec (piece_ops e i h (Suc g)) xs) \<and>
     (\<forall>p \<in> set (piece_ops e i h (Suc g)).
        xs ! fst p \<le> xs ! snd p \<or> (\<exists>j \<in># J. p \<in> set (snd j)))"

fun chunk_fine :: "nat \<Rightarrow> nat \<Rightarrow> status \<Rightarrow> chunk_job multiset \<Rightarrow> 'a::linorder list \<Rightarrow> bool" where
  "chunk_fine e i (Ordered h) J xs = sorted (seg (down_to h i * 2 ^ e) (2 ^ (e + h)) xs)"
| "chunk_fine e i (Merging h 0 d) J xs = (d \<longrightarrow> sorted (seg (i * 2 ^ e) (2 ^ e) xs))"
| "chunk_fine e i (Merging h (Suc g) d) J xs = splitting e i h g J xs"
| "chunk_fine e i _ J xs = True"

definition apart :: "nat \<Rightarrow> (nat \<Rightarrow> status) \<Rightarrow> 'a::linorder list \<Rightarrow> bool" where
  "apart e st xs \<longleftrightarrow>
     (\<forall>a b h g d. a < b \<longrightarrow> st (a div 2 ^ e) = Merging h g d \<longrightarrow>
        b div 2 ^ e \<in> block h (a div 2 ^ e) \<longrightarrow> b div 2 ^ e \<notin> block g (a div 2 ^ e) \<longrightarrow>
        xs ! a \<le> xs ! b)"

definition array_fine ::
  "nat \<Rightarrow> nat \<Rightarrow> (nat \<Rightarrow> status) \<Rightarrow> chunk_job multiset \<Rightarrow> 'a::linorder list \<Rightarrow> 'a list \<Rightarrow> bool" where
  "array_fine e n st J xs0 xs \<longleftrightarrow>
     tidy st n \<and> tasks_fit e st J \<and> length xs = n * 2 ^ e \<and> mset xs = mset xs0 \<and>
     (\<forall>j \<in># J. task_fine e (c_beg (fst j) div 2 ^ e) (st (c_beg (fst j) div 2 ^ e)) xs (snd j)) \<and>
     (\<forall>i. chunk_fine e i (st i) J xs) \<and> apart e st xs"

section \<open>A slave works on its task\<close>

lemma zone_interval: "i < j \<Longrightarrow> j \<notin> zone st i \<Longrightarrow> k \<in> zone st i \<Longrightarrow> k < j"
  using in_block [of j "piece_height (st i)" i] in_block [of i "piece_height (st i)" i]
    in_block [of k "piece_height (st i)" i] by (auto simp: zone_def)

lemma zone_interval_below: "j < i \<Longrightarrow> j \<notin> zone st i \<Longrightarrow> k \<in> zone st i \<Longrightarrow> j < k"
  using in_block [of j "piece_height (st i)" i] in_block [of i "piece_height (st i)" i]
    in_block [of k "piece_height (st i)" i] by (auto simp: zone_def)

lemma div_less: "(a :: nat) div u < b div u \<Longrightarrow> a < b"
  by (metis div_le_mono leD leI)

lemma jobs_at_add [simp]:
  "jobs_at e i (add_mset j K) = (if c_beg (fst j) = i * 2 ^ e then add_mset j (jobs_at e i K) else jobs_at e i K)"
  by (simp add: jobs_at_def)

lemma jobs_at_empty [simp]: "jobs_at e i {#} = {#}"
  by (simp add: jobs_at_def)

lemma tasks_fit_first:
  assumes "tasks_fit e st (add_mset (m, es) K)"
  defines "i \<equiv> c_beg m div 2 ^ e"
  shows "c_beg m = i * 2 ^ e" "pending i (st i)" "fits e (st i) m" "jobs_at e i K = {#}"
    "\<forall>j \<in># K. c_beg (fst j) div 2 ^ e \<noteq> i"
proof -
  show m: "c_beg m = i * 2 ^ e" using assms by (simp add: tasks_fit_def)
  have i: "if pending i (st i) then \<exists>m' es'. jobs_at e i (add_mset (m, es) K) = {#(m', es')#} \<and> fits e (st i) m'
      else jobs_at e i (add_mset (m, es) K) = {#}"
    using assms(1) unfolding tasks_fit_def by blast
  then show "pending i (st i)" by (cases "pending i (st i)") (simp_all add: m)
  with i show "fits e (st i) m" "jobs_at e i K = {#}" by (auto simp: m)
  show "\<forall>j \<in># K. c_beg (fst j) div 2 ^ e \<noteq> i"
  proof (intro ballI notI)
    fix j assume j: "j \<in># K" "c_beg (fst j) div 2 ^ e = i"
    then have "2 ^ e dvd c_beg (fst j)" using assms(1) by (simp add: tasks_fit_def)
    then have "j \<in># jobs_at e i K" using j by (auto simp: jobs_at_def)
    then show False using \<open>jobs_at e i K = {#}\<close> by simp
  qed
qed

lemma tasks_fit_ops: "tasks_fit e st (add_mset (m, es) K) \<Longrightarrow> tasks_fit e st (add_mset (m, es') K)"
  unfolding tasks_fit_def
proof (intro conjI allI)
  fix i
  assume a: "(\<forall>j \<in># add_mset (m, es) K. 2 ^ e dvd c_beg (fst j)) \<and>
    (\<forall>i. if pending i (st i) then \<exists>m' es'. jobs_at e i (add_mset (m, es) K) = {#(m', es')#} \<and> fits e (st i) m'
      else jobs_at e i (add_mset (m, es) K) = {#})"
  then have "if pending i (st i) then \<exists>m' es'. jobs_at e i (add_mset (m, es) K) = {#(m', es')#} \<and> fits e (st i) m'
      else jobs_at e i (add_mset (m, es) K) = {#}" by blast
  then show "if pending i (st i) then \<exists>m' es''. jobs_at e i (add_mset (m, es') K) = {#(m', es'')#} \<and> fits e (st i) m'
      else jobs_at e i (add_mset (m, es') K) = {#}"
    by (auto split: if_splits)
qed auto

lemma tidy_fed: "tidy st n \<Longrightarrow> st i \<noteq> Unfed \<Longrightarrow> i < n"
  unfolding tidy_def by (meson not_le)

lemma seg_exec_agree:
  assumes "sorts_chunk e i xs es" "length xs = length ys" "i * 2 ^ e + 2 ^ e \<le> length xs"
    "\<And>a. a div 2 ^ e = i \<Longrightarrow> xs ! a = ys ! a"
  shows "sorts_chunk e i ys es"
proof -
  have "\<forall>k. i * 2 ^ e \<le> k \<longrightarrow> k < i * 2 ^ e + 2 ^ e \<longrightarrow> exec es xs ! k = exec es ys ! k"
    by (rule exec_agree) (use assms chunk_range [of i e] in \<open>auto simp: sorts_chunk_def\<close>)
  then have "seg (i * 2 ^ e) (2 ^ e) (exec es xs) = seg (i * 2 ^ e) (2 ^ e) (exec es ys)"
    by (intro seg_agree) (simp_all add: assms(2))
  then show ?thesis using assms(1) by (simp add: sorts_chunk_def)
qed

lemma split_piece_agree:
  assumes "split_piece p h xs" "\<And>a. p \<le> a \<Longrightarrow> a < p + 2 * h \<Longrightarrow> xs ! a = ys ! a"
  shows "split_piece p h ys"
proof -
  have "bit_piece p h ys = bit_piece p h xs" "bit_piece (p + h) h ys = bit_piece (p + h) h xs"
    unfolding bit_piece_def using assms(2) by (simp_all cong: bitonic_cong add: add.assoc)
  then show ?thesis using assms by (simp add: split_piece_def)
qed


text \<open>The exchange of a task lies in the zone of its chunk.\<close>

lemma task_in_zone:
  assumes "task_fine e i (st i) xs (p # es)"
  shows "fst p div 2 ^ e \<in> zone st i" "snd p div 2 ^ e \<in> zone st i" "task_fine e i (st i) (exchange (fst p) (snd p) xs) es"
proof -
  have chunk: "fst p div 2 ^ e = i \<and> snd p div 2 ^ e = i \<and> sorts_chunk e i (exchange (fst p) (snd p) xs) es"
    if "sorts_chunk e i xs (p # es)"
    using that chunk_range [of i e "fst p"] chunk_range [of i e "snd p"] by (simp add: sorts_chunk_def)
  have "fst p div 2 ^ e \<in> zone st i \<and> snd p div 2 ^ e \<in> zone st i \<and>
      task_fine e i (st i) (exchange (fst p) (snd p) xs) es"
  proof (cases "st i")
    case (Merging h g d)
    then show ?thesis
      using assms chunk piece_ops_block [of p e i h "g - 1"] by (cases g) (auto simp: zone_def)
  qed (use assms chunk in \<open>auto simp: zone_def\<close>)
  then show "fst p div 2 ^ e \<in> zone st i" "snd p div 2 ^ e \<in> zone st i"
    "task_fine e i (st i) (exchange (fst p) (snd p) xs) es" by blast+
qed

lemma exchange_source:
  "\<exists>k. exchange (fst p) (snd p) xs ! a = xs ! k \<and>
    (k = a \<or> a \<in> {fst p, snd p} \<and> k \<in> {fst p, snd p})"
proof (cases "xs ! snd p < xs ! fst p")
  case True
  consider "a = snd p" | "a = fst p" "a \<noteq> snd p" | "a \<noteq> fst p" "a \<noteq> snd p" by blast
  then show ?thesis
    by cases (auto simp: exchange_def nth_update_if split: if_splits)
qed (auto simp: exchange_def)

lemma apart_exchange:
  assumes "apart e st xs" "tidy st n" "fst p div 2 ^ e \<in> zone st i" "snd p div 2 ^ e \<in> zone st i"
  shows "apart e st (exchange (fst p) (snd p) xs)"
  unfolding apart_def
proof (intro allI impI)
  let ?ys = "exchange (fst p) (snd p) xs"
  fix a b h g d
  assume ab: "a < b" "st (a div 2 ^ e) = Merging h g d" "b div 2 ^ e \<in> block h (a div 2 ^ e)"
    "b div 2 ^ e \<notin> block g (a div 2 ^ e)"
  have zone_a: "zone st (a div 2 ^ e) = block g (a div 2 ^ e)" using ab(2) by (simp add: zone_def)
  obtain h' g' d' where b: "st (b div 2 ^ e) = Merging h g' d'"
    using tidy_Merging(3) [OF assms(2) ab(2,3)] by blast
  obtain a' where a': "?ys ! a = xs ! a'" "a' div 2 ^ e \<in> zone st (a div 2 ^ e)"
  proof -
    obtain k where k: "?ys ! a = xs ! k" "k = a \<or> a \<in> {fst p, snd p} \<and> k \<in> {fst p, snd p}"
      using exchange_source by blast
    then have "k div 2 ^ e \<in> zone st (a div 2 ^ e)"
      using assms(3,4) zone_same(2) [OF assms(2)] by (metis empty_iff insert_iff zone_self)
    then show thesis using that k(1) by blast
  qed
  obtain b' where b': "?ys ! b = xs ! b'" "b' div 2 ^ e \<in> zone st (b div 2 ^ e)"
  proof -
    obtain k where k: "?ys ! b = xs ! k" "k = b \<or> b \<in> {fst p, snd p} \<and> k \<in> {fst p, snd p}"
      using exchange_source by blast
    then have "k div 2 ^ e \<in> zone st (b div 2 ^ e)"
      using assms(3,4) zone_same(2) [OF assms(2)] by (metis empty_iff insert_iff zone_self)
    then show thesis using that k(1) by blast
  qed
  have out: "b div 2 ^ e \<notin> zone st (a div 2 ^ e)" using ab(4) zone_a by simp
  then have lt: "a div 2 ^ e < b div 2 ^ e"
    using ab(1) by (metis div_le_mono le_neq_implies_less less_imp_le zone_self)
  have "a' div 2 ^ e < b div 2 ^ e" using zone_interval [OF lt out a'(2)] .
  moreover have out': "a' div 2 ^ e \<notin> zone st (b div 2 ^ e)"
    using zone_disjoint [OF assms(2) out] a'(2) by blast
  ultimately have "a' div 2 ^ e < b' div 2 ^ e" using zone_interval_below b'(2) by blast
  then have "a' < b'" by (rule div_less)
  moreover obtain d'' where "st (a' div 2 ^ e) = Merging h g d''"
    using tidy_Merging(4) [OF assms(2) ab(2)] a'(2) zone_a by blast
  moreover have "b' div 2 ^ e \<in> block h (a' div 2 ^ e)"
  proof -
    have "g \<le> h" "g' \<le> h" using tidy_Merging(2) [OF assms(2)] ab(2) b by blast+
    then have "a' div 2 ^ e \<in> block h (a div 2 ^ e)" "b' div 2 ^ e \<in> block h (b div 2 ^ e)"
      using subsetD [OF block_mono, of g h] subsetD [OF block_mono, of g' h] a'(2) b'(2) zone_a b
      by (simp_all add: zone_def)
    then show ?thesis using ab(3) by (simp add: block_def)
  qed
  moreover have "b' div 2 ^ e \<notin> block g (a' div 2 ^ e)"
  proof -
    have "block g (a' div 2 ^ e) = zone st (a div 2 ^ e)" using a'(2) zone_a block_eq by simp
    then show ?thesis using b'(2) zone_disjoint [OF assms(2) out] by blast
  qed
  ultimately have "xs ! a' \<le> xs ! b'" using assms(1) unfolding apart_def by blast
  then show "?ys ! a \<le> ?ys ! b" using a'(1) b'(1) by simp
qed


text \<open>A chunk of another zone sees nothing of the exchange, one of the same zone a step of the swap.\<close>

lemma chunk_length:
  assumes "tidy st n" "length xs = n * 2 ^ e" "st (a div 2 ^ e) \<noteq> Unfed"
  shows "a < length xs"
  using tidy_fed [OF assms(1,3)] assms(2) by (simp add: div_less_iff_less_mult)

lemma splitting_agree:
  assumes "splitting e i h g J xs" "length xs = length ys" "\<And>a. a div 2 ^ e \<in> block (Suc g) i \<Longrightarrow> xs ! a = ys ! a"
    "down_to (Suc g) i * 2 ^ e + 2 ^ (e + Suc g) \<le> length xs"
    "\<And>p. p \<in> set (piece_ops e i h (Suc g)) \<Longrightarrow> \<exists>j \<in># J. p \<in> set (snd j) \<Longrightarrow> \<exists>j \<in># J'. p \<in> set (snd j)"
  shows "splitting e i h g J' ys"
proof -
  let ?M = "piece_ops e i h (Suc g)" and ?p = "down_to (Suc g) i * 2 ^ e"
  have within: "ops_within ?p (?p + 2 ^ (e + Suc g)) ?M"
    using merge_ops_within [of ?p "e + g"] by (simp add: piece_ops_def)
  have "\<forall>k. ?p \<le> k \<longrightarrow> k < ?p + 2 ^ (e + Suc g) \<longrightarrow> xs ! k = ys ! k"
    using assms(3) block_range [of "Suc g" i e] by blast
  note agree = exec_agree [OF within assms(2,4) this]
  have "exec ?M xs ! a = exec ?M ys ! a" if "?p \<le> a" "a < ?p + 2 * 2 ^ (e + g)" for a
    using agree that by simp
  then have "split_piece ?p (2 ^ (e + g)) (exec ?M ys)"
    using assms(1) split_piece_agree unfolding splitting_def by blast
  moreover have "ys ! fst p = xs ! fst p \<and> ys ! snd p = xs ! snd p" if "p \<in> set ?M" for p
    using piece_ops_block [OF that] assms(3) by simp
  ultimately show ?thesis using assms(1,5) unfolding splitting_def by metis
qed

lemma splitting_step:
  assumes "splitting e i h g (add_mset (m, p # es) K) xs" "p \<in> set (piece_ops e i h (Suc g))"
    "\<forall>p \<in> set (piece_ops e i h (Suc g)). fst p < length xs \<and> snd p < length xs"
  shows "splitting e i h g (add_mset (m, es) K) (exchange (fst p) (snd p) xs)"
proof -
  let ?M = "piece_ops e i h (Suc g)" and ?ys = "exchange (fst p) (snd p) xs"
  have same: "exec ?M ?ys = exec ?M xs"
    using exec_absorb [OF assms(2) piece_ops_distinct assms(3)] .
  have ne: "fst p \<noteq> snd p" using piece_ops_distinct [of e i h g] assms(2) by auto
  have "?ys ! fst q \<le> ?ys ! snd q \<or> (\<exists>j \<in># add_mset (m, es) K. q \<in> set (snd j))" if q: "q \<in> set ?M" for q
  proof (cases "q = p")
    case True
    have "?ys ! fst p = min (xs ! fst p) (xs ! snd p)" "?ys ! snd p = max (xs ! fst p) (xs ! snd p)"
      using exchange_nth [of "fst p" xs "snd p"] ne assms(2,3) by auto
    then have "?ys ! fst p \<le> ?ys ! snd p" by (simp only: min.cobounded1 le_max_iff_disj min_le_iff_disj order_refl simp_thms)
    then show ?thesis using True by simp
  next
    case False
    have "fst q \<noteq> fst p" "snd q \<noteq> snd p" "fst q \<noteq> snd p" "snd q \<noteq> fst p"
    proof -
      have d: "inj_on fst (set ?M)" "inj_on snd (set ?M)" "fst ` set ?M \<inter> snd ` set ?M = {}"
        using piece_ops_distinct [of e i h g] by (simp_all add: distinct_map)
      then show "fst q \<noteq> fst p" "snd q \<noteq> snd p" using False q assms(2) by (meson inj_onD)+
      show "fst q \<noteq> snd p" "snd q \<noteq> fst p" using d(3) q assms(2) by (metis IntI empty_iff imageI)+
    qed
    then have "?ys ! fst q = xs ! fst q" "?ys ! snd q = xs ! snd q" by (simp_all add: exchange_outside)
    then show ?thesis using assms(1) q False by (auto simp: splitting_def)
  qed
  then show ?thesis using assms(1) same by (simp add: splitting_def)
qed

lemma zone_in_array:
  assumes "tidy st n" "length xs = n * 2 ^ e" "st i = Merging h (Suc g) d"
  shows "down_to (Suc g) i * 2 ^ e + 2 ^ (e + Suc g) \<le> length xs"
    "\<forall>p \<in> set (piece_ops e i h (Suc g)). fst p < length xs \<and> snd p < length xs"
proof -
  have fed: "st j \<noteq> Unfed" if "j \<in> block (Suc g) i" for j
    using tidy_Merging(4) [OF assms(1,3) that] by auto
  let ?b = "down_to (Suc g) i * 2 ^ e + 2 ^ (e + Suc g) - 1"
  have pos: "(0 :: nat) < 2 ^ (e + Suc g)" by simp
  then have "?b div 2 ^ e \<in> block (Suc g) i"
    using block_range [of "Suc g" i e ?b] by linarith
  then have "?b < length xs" using chunk_length [OF assms(1,2)] fed by blast
  then show "down_to (Suc g) i * 2 ^ e + 2 ^ (e + Suc g) \<le> length xs" using pos by linarith
  show "\<forall>p \<in> set (piece_ops e i h (Suc g)). fst p < length xs \<and> snd p < length xs"
    using piece_ops_block fed chunk_length [OF assms(1,2)] by blast
qed

lemma chunk_fine_other:
  assumes "chunk_fine e i (st i) (add_mset (m, p # es) K) xs" "tidy st n" "length xs = n * 2 ^ e"
    "fst p div 2 ^ e \<notin> zone st i" "snd p div 2 ^ e \<notin> zone st i"
  shows "chunk_fine e i (st i) (add_mset (m, es) K) (exchange (fst p) (snd p) xs)"
proof -
  let ?ys = "exchange (fst p) (snd p) xs"
  have same: "?ys ! a = xs ! a" if "a div 2 ^ e \<in> zone st i" for a
    using that assms(4,5) by (metis exchange_outside)
  show ?thesis
  proof (cases "st i")
    case (Ordered h)
    have "seg (down_to h i * 2 ^ e) (2 ^ (e + h)) ?ys = seg (down_to h i * 2 ^ e) (2 ^ (e + h)) xs"
      by (rule seg_agree) (use same block_range [of h i e] in \<open>auto simp: zone_def Ordered\<close>)
    then show ?thesis using assms(1) by (simp add: Ordered)
  next
    case (Merging h g d)
    show ?thesis
    proof (cases g)
      case 0
      have "seg (i * 2 ^ e) (2 ^ e) ?ys = seg (i * 2 ^ e) (2 ^ e) xs"
        by (rule seg_agree) (use same chunk_range [of i e] in \<open>auto simp: zone_def Merging 0\<close>)
      then show ?thesis using assms(1) by (simp add: Merging 0)
    next
      case (Suc g')
      have "splitting e i h g' (add_mset (m, es) K) ?ys"
      proof (rule splitting_agree)
        show "splitting e i h g' (add_mset (m, p # es) K) xs" using assms(1) by (simp add: Merging Suc)
        show "down_to (Suc g') i * 2 ^ e + 2 ^ (e + Suc g') \<le> length xs"
          using zone_in_array(1) [OF assms(2,3)] Merging Suc by blast
        show "xs ! a = ?ys ! a" if "a div 2 ^ e \<in> block (Suc g') i" for a
          using same [of a] that by (simp add: zone_def Merging Suc)
        fix q assume q: "q \<in> set (piece_ops e i h (Suc g'))" "\<exists>j \<in># add_mset (m, p # es) K. q \<in> set (snd j)"
        have "q \<noteq> p"
          using piece_ops_block(1) [OF q(1)] assms(4) by (auto simp: zone_def Merging Suc)
        then show "\<exists>j \<in># add_mset (m, es) K. q \<in> set (snd j)" using q(2) by auto
      qed simp
      then show ?thesis by (simp add: Merging Suc)
    qed
  qed simp_all
qed


lemma zone_fed:
  assumes "tidy st n" "k \<in> zone st i" "st i \<noteq> Unfed"
  shows "st k \<noteq> Unfed"
proof (cases "st i")
  case (Ordered h)
  then show ?thesis using tidy_Ordered [OF assms(1) Ordered, of k] assms(2) by (simp add: zone_def)
next
  case (Merging h g d)
  then show ?thesis using tidy_Merging(4) [OF assms(1) Merging, of k] assms(2) by (auto simp: zone_def)
qed (use assms in \<open>simp_all add: zone_def\<close>)

lemma task_fine_other:
  assumes "task_fine e i (st i) xs es" "tidy st n" "length xs = n * 2 ^ e" "st i \<noteq> Unfed"
    "zone st i = {i} \<Longrightarrow> fst p div 2 ^ e \<noteq> i \<and> snd p div 2 ^ e \<noteq> i"
  shows "task_fine e i (st i) (exchange (fst p) (snd p) xs) es"
proof -
  have "sorts_chunk e i (exchange (fst p) (snd p) xs) es" if "sorts_chunk e i xs es" "zone st i = {i}"
  proof (rule seg_exec_agree [OF that(1)])
    have "i * 2 ^ e + 2 ^ e - 1 < length xs"
    proof -
      have pos: "(0 :: nat) < 2 ^ e" by simp
      then have "i * 2 ^ e \<le> i * 2 ^ e + 2 ^ e - 1 \<and> i * 2 ^ e + 2 ^ e - 1 < i * 2 ^ e + 2 ^ e" by linarith
      then have "(i * 2 ^ e + 2 ^ e - 1) div 2 ^ e = i" by (simp only: chunk_range)
      then show ?thesis using chunk_length [OF assms(2,3), of "i * 2 ^ e + 2 ^ e - 1"] assms(4) by metis
    qed
    then show "i * 2 ^ e + 2 ^ e \<le> length xs" by linarith
    show "xs ! a = exchange (fst p) (snd p) xs ! a" if "a div 2 ^ e = i" for a
      using that assms(5) [OF \<open>zone st i = {i}\<close>] by (metis exchange_outside)
  qed simp
  then show ?thesis
    using assms(1) by (cases "(e, i, st i, xs, es)" rule: task_fine.cases) (auto simp: zone_def)
qed

lemma array_fineD:
  assumes "array_fine e n st J xs0 xs"
  shows "tidy st n" "tasks_fit e st J" "length xs = n * 2 ^ e" "mset xs = mset xs0"
    "j \<in># J \<Longrightarrow> task_fine e (c_beg (fst j) div 2 ^ e) (st (c_beg (fst j) div 2 ^ e)) xs (snd j)"
    "chunk_fine e i (st i) J xs" "apart e st xs"
  using assms by (simp_all add: array_fine_def)

lemma chunk_fine_step:
  assumes a: "array_fine e n st (add_mset (m, p # es) K) xs0 xs"
  shows "chunk_fine e j (st j) (add_mset (m, es) K) (exchange (fst p) (snd p) xs)"
proof -
  define i where "i = c_beg m div 2 ^ e"
  note f = array_fineD [OF a]
  note first = tasks_fit_first [OF f(2), folded i_def]
  have task: "task_fine e i (st i) xs (p # es)" using f(5) [of "(m, p # es)"] by (simp add: i_def)
  note z = task_in_zone [where st = st, OF task]
  show ?thesis
  proof (cases "j \<in> zone st i")
    case False
    then have "fst p div 2 ^ e \<notin> zone st j" "snd p div 2 ^ e \<notin> zone st j"
      using zone_disjoint [OF f(1)] z(1,2) by blast+
    then show ?thesis using chunk_fine_other [OF f(6) f(1,3)] by blast
  next
    case True
    show ?thesis
    proof (cases "st i")
      case (Merging h g d)
      show ?thesis
      proof (cases g)
        case 0
        then show ?thesis using True first(2) by (simp add: zone_def Merging)
      next
        case (Suc g')
        then obtain d' where j: "st j = Merging h (Suc g') d'"
          using tidy_Merging(4) [OF f(1) Merging] True by (auto simp: zone_def Merging)
        have "p \<in> set (piece_ops e j h (Suc g'))"
          using task True piece_ops_same [of j "Suc g'" i] by (simp add: Merging Suc zone_def)
        then show ?thesis
          using f(6) [of j] zone_in_array(2) [OF f(1,3) j] splitting_step by (simp add: j)
      qed
    qed (use True first(2) in \<open>auto simp: zone_def\<close>)
  qed
qed

lemma work_step:
  assumes a: "array_fine e n st (add_mset (m, p # es) K) xs0 xs"
  shows "fst p < length xs \<and> snd p < length xs"
    "array_fine e n st (add_mset (m, es) K) xs0 (exchange (fst p) (snd p) xs)"
proof -
  define i where "i = c_beg m div 2 ^ e"
  let ?ys = "exchange (fst p) (snd p) xs"
  note f = array_fineD [OF a]
  note first = tasks_fit_first [OF f(2), folded i_def]
  have task: "task_fine e i (st i) xs (p # es)" using f(5) [of "(m, p # es)"] by (simp add: i_def)
  note z = task_in_zone [where st = st, OF task]
  have fed: "st k \<noteq> Unfed" if "k \<in> zone st i" for k
    using that first(2) zone_fed [OF f(1)] by (metis pending.simps(4))
  show len: "fst p < length xs \<and> snd p < length xs"
    using chunk_length [OF f(1,3)] fed z(1,2) by blast
  have other: "task_fine e k (st k) ?ys (snd j)" if "j \<in># K" "k = c_beg (fst j) div 2 ^ e" for j k
  proof (rule task_fine_other [OF _ f(1,3)])
    show task_k: "task_fine e k (st k) xs (snd j)" using f(5) [of j] that by simp
    then show "st k \<noteq> Unfed" by auto
    have "k \<noteq> i" using first(5) that by simp
    moreover have "i = k" if "zone st k = {k}" "k \<in> zone st i"
      using zone_same(2) [OF f(1) that(2)] that(1) by (metis singletonD zone_self)
    ultimately show "fst p div 2 ^ e \<noteq> k \<and> snd p div 2 ^ e \<noteq> k" if "zone st k = {k}"
      using that z(1,2) by blast
  qed
  show "array_fine e n st (add_mset (m, es) K) xs0 ?ys"
    unfolding array_fine_def
  proof (intro conjI allI)
    show "tasks_fit e st (add_mset (m, es) K)" using f(2) by (rule tasks_fit_ops)
    show "mset ?ys = mset xs0" using f(4) len by (simp add: mset_exchange)
    show "\<forall>j \<in># add_mset (m, es) K.
        task_fine e (c_beg (fst j) div 2 ^ e) (st (c_beg (fst j) div 2 ^ e)) ?ys (snd j)"
      using other z(3) by (simp add: i_def)
    show "apart e st ?ys" using apart_exchange [OF f(7,1) z(1,2)] .
    show "chunk_fine e j (st j) (add_mset (m, es) K) ?ys" for j by (rule chunk_fine_step [OF a])
  qed (use f in simp_all)
qed

end
