(* ===== verification/Bitonic_Moves.thy ===== *)
theory Bitonic_Moves
  imports Bitonic_Status
begin

text \<open>
  What the master does to the status of chunks when it feeds a chunk in, takes a finished task or
  starts the tasks of the next pieces, and why the array stays fine.
\<close>

section \<open>Changing the status of some chunks\<close>

lemma apart_cong:
  assumes "apart e st xs" "\<And>i h g d. st' i = Merging h g d \<Longrightarrow> \<exists>d'. st i = Merging h g d'"
  shows "apart e st' xs"
  using assms unfolding apart_def by metis

lemma chunk_fine_jobs:
  assumes "chunk_fine e i s J xs" "\<And>j p. j \<in># J \<Longrightarrow> p \<in> set (snd j) \<Longrightarrow> \<exists>j \<in># J'. p \<in> set (snd j)"
  shows "chunk_fine e i s J' xs"
  using assms
  by (cases "(e, i, s, J, xs)" rule: chunk_fine.cases) (simp_all add: splitting_def, metis)

lemma jobs_at_plus [simp]: "jobs_at e i (J + K) = jobs_at e i J + jobs_at e i K"
  by (simp add: jobs_at_def)

lemma jobs_at_none:
  assumes "\<forall>j \<in># K. 2 ^ e dvd c_beg (fst j)" "\<forall>i \<in> B. jobs_at e i K = {#}" "j \<in># K"
  shows "c_beg (fst j) div 2 ^ e \<notin> B"
proof
  assume "c_beg (fst j) div 2 ^ e \<in> B"
  then have "j \<notin># jobs_at e (c_beg (fst j) div 2 ^ e) K" using assms(2) by simp
  moreover have "c_beg (fst j) = c_beg (fst j) div 2 ^ e * 2 ^ e" using assms(1,3) by simp
  ultimately show False using assms(3) unfolding jobs_at_def by (simp only: set_mset_filter mem_Collect_eq) blast
qed

text \<open>\<open>R\<close>: finished jobs that go, all of chunks in \<open>B\<close>; \<open>N\<close>: new jobs for chunks in \<open>B\<close>.\<close>

lemma array_change:
  assumes a: "array_fine e n st (R + K) xs0 xs"
    and off: "\<And>i. i \<notin> B \<Longrightarrow> st' i = st i"
    and R: "\<forall>j \<in># R. snd j = [] \<and> c_beg (fst j) div 2 ^ e \<in> B" "\<forall>i \<in> B. jobs_at e i K = {#}"
    and N: "\<forall>j \<in># N. 2 ^ e dvd c_beg (fst j) \<and> c_beg (fst j) div 2 ^ e \<in> B"
      "\<And>i. i \<in> B \<Longrightarrow> if pending i (st' i) then \<exists>m es. jobs_at e i N = {#(m, es)#} \<and> fits e (st' i) m
        else jobs_at e i N = {#}"
      "\<And>j. j \<in># N \<Longrightarrow> task_fine e (c_beg (fst j) div 2 ^ e) (st' (c_beg (fst j) div 2 ^ e)) xs (snd j)"
    and tidy: "tidy st' n" and apart: "apart e st' xs"
    and fine: "\<And>i. i \<in> B \<Longrightarrow> chunk_fine e i (st' i) (K + N) xs"
  shows "array_fine e n st' (K + N) xs0 xs"
proof -
  note f = array_fineD [OF a]
  have dvd: "\<forall>j \<in># R + K. 2 ^ e dvd c_beg (fst j)" using f(2) by (simp add: tasks_fit_def)
  then have notB: "c_beg (fst j) div 2 ^ e \<notin> B" if "j \<in># K" for j
    using jobs_at_none [OF _ R(2) that] by simp
  have RN: "jobs_at e i R = {#}" "jobs_at e i N = {#}" if "i \<notin> B" for i
    using that R(1) N(1) by (auto simp: jobs_at_def filter_mset_eq_mempty_iff)
  have "tasks_fit e st' (K + N)"
    unfolding tasks_fit_def
  proof (intro conjI allI)
    show "\<forall>j \<in># K + N. 2 ^ e dvd c_beg (fst j)" using dvd N(1) by auto
    fix i
    show "if pending i (st' i) then \<exists>m es. jobs_at e i (K + N) = {#(m, es)#} \<and> fits e (st' i) m
        else jobs_at e i (K + N) = {#}"
    proof (cases "i \<in> B")
      case True
      then have "jobs_at e i (K + N) = jobs_at e i N" using R(2) by simp
      then show ?thesis using N(2) [OF True] by (simp only:)
    next
      case False
      have "if pending i (st i) then \<exists>m es. jobs_at e i (R + K) = {#(m, es)#} \<and> fits e (st i) m
          else jobs_at e i (R + K) = {#}"
        using f(2) unfolding tasks_fit_def by blast
      moreover have "jobs_at e i (R + K) = jobs_at e i (K + N)" using RN [OF False] by simp
      ultimately show ?thesis using off [OF False] by (simp only:)
    qed
  qed
  moreover have "task_fine e (c_beg (fst j) div 2 ^ e) (st' (c_beg (fst j) div 2 ^ e)) xs (snd j)"
    if "j \<in># K + N" for j
  proof (cases "j \<in># N")
    case False
    then have j: "j \<in># K" using that by simp
    then show ?thesis using f(5) [of j] off [OF notB [OF j]] by simp
  qed (rule N(3))
  moreover have "chunk_fine e i (st' i) (K + N) xs" for i
  proof (cases "i \<in> B")
    case False
    then show ?thesis
      using off [OF False] chunk_fine_jobs [OF f(6) [of i], of "K + N"] R(1) by fastforce
  qed (rule fine)
  ultimately show ?thesis using f(3,4) tidy apart by (simp add: array_fine_def)
qed

text \<open>Chunks outside \<open>B\<close> see the change only where they share a segment with \<open>B\<close>.\<close>

lemma tidy_change:
  assumes t: "tidy st n" and off: "\<And>i. i \<notin> B \<Longrightarrow> st' i = st i" and B: "\<And>i. i \<in> B \<Longrightarrow> i < n"
    and ord: "\<And>i j h. st i = Ordered h \<Longrightarrow> st j = Ordered h \<Longrightarrow> j \<in> block h i \<Longrightarrow> j \<in> B \<Longrightarrow> i \<notin> B \<Longrightarrow>
      st' j = Ordered h"
    and mer: "\<And>i j h g d g' d'. st i = Merging h g d \<Longrightarrow> st j = Merging h g' d' \<Longrightarrow> j \<in> block h i \<Longrightarrow>
      j \<in> B \<Longrightarrow> i \<notin> B \<Longrightarrow> \<exists>g' d'. st' j = Merging h g' d'"
    and piece: "\<And>i j h g d d'. st i = Merging h g d \<Longrightarrow> st j = Merging h g d' \<Longrightarrow> j \<in> block g i \<Longrightarrow>
      j \<in> B \<Longrightarrow> i \<notin> B \<Longrightarrow> \<exists>d'. st' j = Merging h g d'"
    and own: "\<And>i j h. i \<in> B \<Longrightarrow> st' i = Ordered h \<Longrightarrow> j \<in> block h i \<Longrightarrow> st' j = Ordered h"
      "\<And>i j h g d. i \<in> B \<Longrightarrow> st' i = Merging h g d \<Longrightarrow> 0 < h \<and> g \<le> h"
      "\<And>i j h g d. i \<in> B \<Longrightarrow> st' i = Merging h g d \<Longrightarrow> j \<in> block h i \<Longrightarrow> \<exists>g' d'. st' j = Merging h g' d'"
      "\<And>i j h g d. i \<in> B \<Longrightarrow> st' i = Merging h g d \<Longrightarrow> j \<in> block g i \<Longrightarrow> \<exists>d'. st' j = Merging h g d'"
  shows "tidy st' n"
  unfolding tidy_def
proof (intro conjI allI impI ballI)
  fix i assume "n \<le> i"
  then have "i \<notin> B" "st i = Unfed" using B [of i] tidy_fed [OF t, of i] by auto
  then show "st' i = Unfed" using off by simp
next
  fix i h j assume i: "st' i = Ordered h" "j \<in> block h i"
  show "st' j = Ordered h"
  proof (cases "i \<in> B")
    case False
    then have "st i = Ordered h" using off i(1) by simp
    moreover from this have "st j = Ordered h" using tidy_Ordered [OF t _ i(2)] by blast
    ultimately show ?thesis using ord [of i h j] False off [of j] i(2) by (cases "j \<in> B") auto
  qed (rule own(1) [OF _ i])
next
  fix i h g d assume i: "st' i = Merging h g d"
  have "0 < h \<and> g \<le> h"
  proof (cases "i \<in> B")
    case False
    then show ?thesis using tidy_Merging(1,2) [OF t] off i by metis
  qed (rule own(2) [OF _ i])
  then show "0 < h" "g \<le> h" by simp_all
  show "\<exists>g' d'. st' j = Merging h g' d'" if j: "j \<in> block h i" for j
  proof (cases "i \<in> B")
    case False
    then obtain g' d' where "st j = Merging h g' d'"
      using tidy_Merging(3) [OF t _ j] off [OF False] i by metis
    then show ?thesis using mer [of i h g d j g' d'] False off i j by (cases "j \<in> B") auto
  qed (rule own(3) [OF _ i j])
  show "\<exists>d'. st' j = Merging h g d'" if j: "j \<in> block g i" for j
  proof (cases "i \<in> B")
    case False
    then obtain d' where "st j = Merging h g d'"
      using tidy_Merging(4) [OF t _ j] off [OF False] i by metis
    then show ?thesis using piece [of i h g d j d'] False off i j by (cases "j \<in> B") auto
  qed (rule own(4) [OF _ i j])
qed

section \<open>A chunk comes in, and comes back sorted\<close>

lemma chunk_in_array:
  assumes "i < (n :: nat)"
  shows "i * 2 ^ e + 2 ^ e \<le> n * 2 ^ e"
  using mult_le_mono1 [of "Suc i" n "2 ^ e"] assms by simp

lemma jobs_at_one [simp]: "jobs_at e i {#(m, es)#} = (if c_beg m = i * 2 ^ e then {#(m, es)#} else {#})"
  by (simp add: jobs_at_def)

lemma array_feed:
  assumes a: "array_fine e n st K xs0 xs" and i: "st i = Unfed" "i < n" and e: "0 < e"
    and m: "c_beg m = i * 2 ^ e" "c_exp m < e"
  shows "array_fine e n (st(i := Initial)) (add_mset (m, chunk_ops e (length xs) m) K) xs0 xs"
proof -
  note f = array_fineD [OF a]
  have "i * 2 ^ e + 2 ^ e \<le> length xs" using chunk_in_array i(2) f(3) by simp
  then have "sorts_chunk e i xs (chunk_ops e (length xs) m)"
    using m init_ops_within [OF e] init_ops_sorts [OF e]
    by (simp add: sorts_chunk_def chunk_ops_def)
  moreover have "jobs_at e i K = {#}"
  proof -
    have "if pending i (st i) then \<exists>m es. jobs_at e i K = {#(m, es)#} \<and> fits e (st i) m else jobs_at e i K = {#}"
      using f(2) unfolding tasks_fit_def by blast
    then show ?thesis by (simp add: i)
  qed
  moreover have "tidy (st(i := Initial)) n"
    by (rule tidy_change [OF f(1), where B = "{i}"]) (use i in auto)
  moreover have "apart e (st(i := Initial)) xs"
    by (rule apart_cong [OF f(7)]) (simp split: if_splits)
  ultimately have "array_fine e n (st(i := Initial)) (K + {#(m, chunk_ops e (length xs) m)#}) xs0 xs"
    by - (rule array_change [where R = "{#}" and B = "{i}" and st = st], simp_all add: a m)
  then show ?thesis by simp
qed

lemma array_returned:
  assumes a: "array_fine e n st (add_mset (m, []) K) xs0 xs"
  defines "i \<equiv> c_beg m div 2 ^ e"
  assumes s: "tidy (st(i := s)) n" "\<not> pending i s" "chunk_fine e i s K xs"
    "\<And>h g d. s = Merging h g d \<Longrightarrow> \<exists>d'. st i = Merging h g d'"
  shows "array_fine e n (st(i := s)) K xs0 xs"
proof -
  note f = array_fineD [OF a]
  note first = tasks_fit_first [OF f(2), folded i_def]
  have "apart e (st(i := s)) xs"
    by (rule apart_cong [OF f(7)]) (use s(4) in \<open>simp split: if_splits\<close>)
  then have "array_fine e n (st(i := s)) (K + {#}) xs0 xs"
    using s(1-3) first(4)
    by - (rule array_change [where R = "{#(m, [])#}" and B = "{i}" and st = st], simp_all add: a i_def)
  then show ?thesis by simp
qed

lemma array_initial:
  assumes a: "array_fine e n st (add_mset (m, []) K) xs0 xs"
  defines "i \<equiv> c_beg m div 2 ^ e"
  assumes i: "st i = Initial"
  shows "array_fine e n (st(i := Ordered 0)) K xs0 xs"
proof (rule array_returned [OF a, folded i_def])
  note f = array_fineD [OF a]
  have "i < n" using tidy_fed [OF f(1)] i by simp
  then show "tidy (st(i := Ordered 0)) n"
    by (intro tidy_change [OF f(1), where B = "{i}"]) (use i in auto)
  have "task_fine e i (st i) xs []" using f(5) [of "(m, [])"] by (simp add: i_def)
  then show "chunk_fine e i (Ordered 0) K xs" by (simp add: i sorts_chunk_def)
qed simp_all

lemma array_mark:
  assumes a: "array_fine e n st (add_mset (m, []) K) xs0 xs"
  defines "i \<equiv> c_beg m div 2 ^ e"
  assumes i: "st i = Merging h g d"
  shows "array_fine e n (st(i := Merging h g True)) K xs0 xs"
proof (rule array_returned [OF a, folded i_def])
  note f = array_fineD [OF a]
  note t = tidy_Merging [OF f(1) i]
  have "i < n" using tidy_fed [OF f(1)] i by simp
  then show "tidy (st(i := Merging h g True)) n"
    by (intro tidy_change [OF f(1), where B = "{i}"]) (use i t in auto)
  have "task_fine e i (st i) xs []" using f(5) [of "(m, [])"] by (simp add: i_def)
  moreover have "chunk_fine e i (st i) K xs"
    using chunk_fine_jobs [OF f(6) [of i], of K] by fastforce
  ultimately show "chunk_fine e i (Merging h g True) K xs"
    by (cases g) (simp_all add: i sorts_chunk_def)
  show "\<not> pending i (Merging h g True)" by (cases g) simp_all
qed (use i in simp_all)


section \<open>The tasks of the next pieces\<close>

definition chunk_task :: "nat \<Rightarrow> nat \<Rightarrow> nat \<Rightarrow> nat \<Rightarrow> chunk" where
  "chunk_task e h g i = \<lparr>c_beg = i * 2 ^ e, c_exp = e + g, c_torswap = (g = h)\<rparr>"

definition new_tasks :: "nat \<Rightarrow> nat \<Rightarrow> nat \<Rightarrow> nat \<Rightarrow> nat list \<Rightarrow> chunk_job multiset" where
  "new_tasks e len h g is = mset (map (\<lambda>i. (chunk_task e h g i, chunk_ops e len (chunk_task e h g i))) is)"

lemma jobs_at_new_tasks:
  "distinct is \<Longrightarrow> jobs_at e i (new_tasks e len h g is) =
    (if i \<in> set is then {#(chunk_task e h g i, chunk_ops e len (chunk_task e h g i))#} else {#})"
  by (induction "is") (auto simp: new_tasks_def chunk_task_def)

lemma new_tasks_iff: "j \<in># new_tasks e len h g is \<longleftrightarrow>
    (\<exists>i \<in> set is. j = (chunk_task e h g i, chunk_ops e len (chunk_task e h g i)))"
  by (auto simp: new_tasks_def)

lemma pending_Merging: "pending i (Merging h g d) \<longleftrightarrow> \<not> d \<and> i < down_to g i + 2 ^ (g - 1)"
  by (cases g) simp_all

lemma piece_tasks:
  "set (piece_ops e i h (Suc g)) =
    (\<Union>j \<in> {down_to (Suc g) i..<down_to (Suc g) i + 2 ^ g}. set (chunk_ops e len (chunk_task e h (Suc g) j)))"
proof -
  let ?d = "down_to (Suc g) i" and ?x = "e + Suc g"
  have dvd: "2 ^ ?x dvd ?d * 2 ^ e"
    using down_to_dvd [of "Suc g" i] by (simp add: power_add mult.commute mult_dvd_mono)
  have begs: "chunk_begs e (?d * 2 ^ e) (?d * 2 ^ e + 2 ^ (?x - 1)) = map (\<lambda>j. (?d + j) * 2 ^ e) [0..<2 ^ g]"
    using chunk_begs_power [of e ?x "?d * 2 ^ e"] by (simp add: algebra_simps)
  have "set (piece_ops e i h (Suc g)) = set (concat (map (\<lambda>b. chunk_ops e len
      \<lparr>c_beg = b, c_exp = ?x, c_torswap = (Suc g = h)\<rparr>) (chunk_begs e (?d * 2 ^ e) (?d * 2 ^ e + 2 ^ (?x - 1)))))"
    using chunks_concat [OF _ dvd, of e len "Suc g = h"] by (simp add: piece_ops_def)
  also have "\<dots> = (\<Union>j \<in> {0..<2 ^ g}. set (chunk_ops e len (chunk_task e h (Suc g) (?d + j))))"
    unfolding begs by (simp add: chunk_task_def)
  also have "\<dots> = (\<Union>j \<in> (+) ?d ` {0..<2 ^ g}. set (chunk_ops e len (chunk_task e h (Suc g) j)))"
    by (simp only: image_image)
  also have "(+) ?d ` {0..<2 ^ g} = {?d..<?d + 2 ^ g}" by (simp add: add.commute)
  finally show ?thesis .
qed

lemma bottom_task:
  fixes xs :: "'a::linorder list"
  assumes "0 < e" "0 < h" "bit_piece (i * 2 ^ e) (2 ^ e) xs" "i * 2 ^ e + 2 ^ e \<le> length xs"
  shows "sorts_chunk e i xs (chunk_ops e (length xs) (chunk_task e h 0 i))"
proof -
  obtain k where k: "e = Suc k" using assms(1) by (cases e) auto
  have "chunk_ops e (length xs) (chunk_task e h 0 i) = swap_ops (i * 2 ^ e) (2 ^ e) @ down_ops (i * 2 ^ e) (2 ^ e) (2 ^ e)"
    using assms(2) by (simp add: chunk_ops_def chunk_task_def Let_def)
  then show ?thesis
    using bottom_sorts [of "i * 2 ^ e" k xs] swap_ops_within [of "i * 2 ^ e" "2 ^ k"]
      down_ops_within [of e e "i * 2 ^ e"] assms(3,4)
    unfolding sorts_chunk_def by (simp add: k)
qed

lemma array_merge:
  assumes a: "array_fine e n st K xs0 xs" and e: "0 < e"
    and st': "\<And>i. st' i = (if i \<in> B then Merging h g False else st i)"
    and B: "\<And>i. i \<in> B \<Longrightarrow> \<not> pending i (st i)" "\<And>i. i \<in> B \<Longrightarrow> block g i \<subseteq> B" "\<And>i. i \<in> B \<Longrightarrow> i < n"
    and todo: "distinct is" "set is = {i \<in> B. i < down_to g i + 2 ^ (g - 1)}"
    and tidy: "tidy st' n" and apart: "apart e st' xs"
    and bottom: "\<And>i. i \<in> B \<Longrightarrow> g = 0 \<Longrightarrow> bit_piece (i * 2 ^ e) (2 ^ e) xs"
    and split: "\<And>i g'. i \<in> B \<Longrightarrow> g = Suc g' \<Longrightarrow>
      split_piece (down_to g i * 2 ^ e) (2 ^ (e + g')) (exec (piece_ops e i h g) xs)"
  shows "array_fine e n st' (K + new_tasks e (length xs) h g is) xs0 xs"
proof -
  note f = array_fineD [OF a]
  let ?N = "new_tasks e (length xs) h g is"
  have h: "0 < h" if "i \<in> B" for i using tidy_Merging(1) [OF tidy] st' [of i] that by simp
  have empty: "jobs_at e i K = {#}" if "i \<in> B" for i
  proof -
    have "if pending i (st i) then \<exists>m es. jobs_at e i K = {#(m, es)#} \<and> fits e (st i) m else jobs_at e i K = {#}"
      using f(2) unfolding tasks_fit_def by blast
    then show ?thesis by (simp add: B(1) [OF that])
  qed
  show ?thesis
  proof (rule array_change [where R = "{#}" and B = B and st = st])
    fix i assume i: "i \<in> B"
    show "if pending i (st' i) then \<exists>m es. jobs_at e i ?N = {#(m, es)#} \<and> fits e (st' i) m else jobs_at e i ?N = {#}"
      using i by (simp add: st' pending_Merging jobs_at_new_tasks [OF todo(1)] todo(2)) (simp add: chunk_task_def)
    show "chunk_fine e i (st' i) (K + ?N) xs"
    proof (cases g)
      case (Suc g')
      have "\<exists>j \<in># K + ?N. p \<in> set (snd j)" if p: "p \<in> set (piece_ops e i h g)" for p
      proof -
        obtain j where j: "j \<in> {down_to g i..<down_to g i + 2 ^ g'}" "p \<in> set (chunk_ops e (length xs) (chunk_task e h g j))"
          using p piece_tasks [of e i h g' "length xs"] unfolding Suc by blast
        have "j \<in> block g i" using j(1) by (simp add: in_block Suc)
        then have "j \<in> set is" using j(1) B(2) [OF i] by (auto simp: todo(2) Suc block_def)
        then show ?thesis using j(2) new_tasks_iff [of "(chunk_task e h g j, chunk_ops e (length xs) (chunk_task e h g j))"]
          by (metis snd_conv union_iff)
      qed
      then show ?thesis using split [OF i Suc] i by (simp add: st' Suc splitting_def)
    qed (simp add: st' i)
  next
    fix j assume "j \<in># ?N"
    then obtain i where i: "i \<in> set is" "j = (chunk_task e h g i, chunk_ops e (length xs) (chunk_task e h g i))"
      unfolding new_tasks_iff by blast
    then have B': "i \<in> B" "i < down_to g i + 2 ^ (g - 1)" by (simp_all add: todo(2))
    have c: "c_beg (fst j) = i * 2 ^ e" by (simp add: i(2) chunk_task_def)
    have "task_fine e i (Merging h g False) xs (snd j)"
    proof (cases g)
      case 0
      then show ?thesis
        using bottom_task [OF e h [OF B'(1)] bottom [OF B'(1) 0]] chunk_in_array [OF B(3) [OF B'(1)], of e] f(3)
        by (simp add: i(2))
    next
      case (Suc g')
      have "i \<in> {down_to g i..<down_to g i + 2 ^ g'}" using B'(2) down_to_le by (simp add: Suc)
      then show ?thesis using piece_tasks [of e i h g' "length xs"] by (auto simp: Suc i(2))
    qed
    then show "task_fine e (c_beg (fst j) div 2 ^ e) (st' (c_beg (fst j) div 2 ^ e)) xs (snd j)"
      by (simp add: c st' B')
  qed (use a empty tidy apart todo(2) in \<open>auto simp: st' new_tasks_iff chunk_task_def\<close>)
qed


text \<open>Two sorted neighbours of \<open>2 ^ h\<close> chunks are merged.\<close>

lemma down_to_half:
  "down_to h (down_to (Suc h) i) = down_to (Suc h) i"
  "down_to h (down_to (Suc h) i + 2 ^ h) = down_to (Suc h) i + 2 ^ h"
proof -
  have "2 ^ h dvd down_to (Suc h) i"
    using down_to_dvd [of "Suc h" i] dvd_trans [of "2 ^ h" "2 ^ Suc h"] by simp
  then show "down_to h (down_to (Suc h) i) = down_to (Suc h) i"
    "down_to h (down_to (Suc h) i + 2 ^ h) = down_to (Suc h) i + 2 ^ h"
    by (auto intro: down_to_unique)
qed

lemma half_blocks: "block (Suc h) i = block h (down_to (Suc h) i) \<union> block h (down_to (Suc h) i + 2 ^ h)"
  by (auto simp: in_block down_to_half)

lemma first_of_block:
  assumes "k \<le> 2 ^ g"
  shows "{j \<in> block g i. j < down_to g j + k} = {down_to g i..<down_to g i + k}"
proof (intro set_eqI)
  fix j
  have "j \<in> block g i \<and> j < down_to g j + k \<longleftrightarrow> j \<in> block g i \<and> j < down_to g i + k"
    using block_down by metis
  then show "j \<in> {j \<in> block g i. j < down_to g j + k} \<longleftrightarrow> j \<in> {down_to g i..<down_to g i + k}"
    using in_block [of j g i] assms by auto
qed

lemma array_pair:
  assumes a: "array_fine e n st K xs0 xs" and e: "0 < e"
    and sorted: "\<And>j. j \<in> block (Suc h) i \<Longrightarrow> st j = Ordered h"
  defines "p \<equiv> down_to (Suc h) i"
  defines "st' \<equiv> \<lambda>j. if j \<in> block (Suc h) i then Merging (Suc h) (Suc h) False else st j"
  shows "array_fine e n st' (K + new_tasks e (length xs) (Suc h) (Suc h) [p..<p + 2 ^ h]) xs0 xs"
proof (rule array_merge [OF a e])
  note f = array_fineD [OF a]
  show "st' j = (if j \<in> block (Suc h) i then Merging (Suc h) (Suc h) False else st j)" for j
    by (simp add: st'_def)
  have eq: "block (Suc h) j = block (Suc h) i" if "j \<in> block (Suc h) i" for j
    using block_eq [OF that] .
  show "block (Suc h) j \<subseteq> block (Suc h) i" if "j \<in> block (Suc h) i" for j
    using eq [OF that] by simp
  show "\<not> pending j (st j)" if "j \<in> block (Suc h) i" for j by (simp add: sorted [OF that])
  show fed: "j < n" if "j \<in> block (Suc h) i" for j
    using tidy_fed [OF f(1), of j] by (simp add: sorted [OF that])
  show "set [p..<p + 2 ^ h] = {j \<in> block (Suc h) i. j < down_to (Suc h) j + 2 ^ (Suc h - 1)}"
    using first_of_block [of "2 ^ h" "Suc h" i] by (simp add: p_def)
  show "tidy st' n"
  proof (rule tidy_change [OF f(1), where B = "block (Suc h) i"])
    fix k j h' assume *: "st k = Ordered h'" "st j = Ordered h'" "j \<in> block h' k" "j \<in> block (Suc h) i" "k \<notin> block (Suc h) i"
    have "h' = h" using sorted [OF *(4)] *(2) by simp
    then have "j \<in> block (Suc h) k" using *(3) subsetD [OF block_mono [of h "Suc h" k]] by simp
    then have "k \<in> block (Suc h) i" using block_eq block_self eq [OF *(4)] by metis
    then show "st' j = Ordered h'" using *(5) by simp
  next
    fix k h' g d assume k: "k \<in> block (Suc h) i" "st' k = Merging h' g d"
    then have s: "h' = Suc h" "g = Suc h" by (simp_all add: st'_def)
    then show "0 < h' \<and> g \<le> h'" by simp
    show "\<exists>g' d'. st' j = Merging h' g' d'" if "j \<in> block h' k" for j
      using that unfolding s eq [OF k(1)] by (intro exI [of _ "Suc h"] exI [of _ False]) (simp add: st'_def)
    show "\<exists>d'. st' j = Merging h' g d'" if "j \<in> block g k" for j
      using that unfolding s eq [OF k(1)] by (intro exI [of _ False]) (simp add: st'_def)
  next
    fix k j h' g d g' d' assume "st j = Merging h' g' d'" "j \<in> block (Suc h) i"
    then show "\<exists>g' d'. st' j = Merging h' g' d'" by (simp add: sorted)
  next
    fix k j h' g d d' assume "st j = Merging h' g d'" "j \<in> block (Suc h) i"
    then show "\<exists>d'. st' j = Merging h' g d'" by (simp add: sorted)
  qed (use fed in \<open>simp_all add: st'_def\<close>)
  show "apart e st' xs"
    unfolding apart_def
  proof (intro allI impI)
    fix x y k g d assume *: "x < y" "st' (x div 2 ^ e) = Merging k g d" "y div 2 ^ e \<in> block k (x div 2 ^ e)"
      "y div 2 ^ e \<notin> block g (x div 2 ^ e)"
    then have "x div 2 ^ e \<notin> block (Suc h) i" by (auto simp: st'_def)
    then show "xs ! x \<le> xs ! y" using f(7) * unfolding apart_def st'_def by simp
  qed
  fix j g' assume j: "j \<in> block (Suc h) i" and "Suc h = Suc g'"
  then have g': "g' = h" by simp
  have down: "down_to (Suc h) j = p" using block_down [OF j] by (simp add: p_def)
  have "p \<in> block (Suc h) i" "p + 2 ^ h \<in> block (Suc h) i" by (simp_all add: in_block p_def)
  then have "st p = Ordered h" "st (p + 2 ^ h) = Ordered h" using sorted by blast+
  moreover have "down_to h p = p" "down_to h (p + 2 ^ h) = p + 2 ^ h"
    by (simp_all add: p_def down_to_half)
  ultimately have "sorted (seg (p * 2 ^ e) (2 ^ (e + h)) xs)" "sorted (seg (p * 2 ^ e + 2 ^ (e + h)) (2 ^ (e + h)) xs)"
    using f(6) [of p] f(6) [of "p + 2 ^ h"] by (simp_all add: power_add algebra_simps)
  moreover have "p * 2 ^ e + 2 * 2 ^ (e + h) \<le> length xs"
  proof -
    have "(0 :: nat) < 2 ^ Suc h" by simp
    then have "p + 2 ^ Suc h - 1 \<in> block (Suc h) i" unfolding in_block p_def by linarith
    then have "p + 2 ^ Suc h \<le> n" using fed by fastforce
    from mult_le_mono1 [OF this, of "2 ^ e"] show ?thesis using f(3) by (simp add: power_add algebra_simps)
  qed
  ultimately show "split_piece (down_to (Suc h) j * 2 ^ e) (2 ^ (e + g')) (exec (piece_ops e j (Suc h) (Suc h)) xs)"
    using rswap_splits [of "p * 2 ^ e" "2 ^ (e + h)" xs] by (simp add: piece_ops_def merge_ops_def g' down)
qed (simp_all)


section \<open>A swap is complete\<close>

lemma task_member_zone:
  assumes "task_fine e i (st i) xs es" "p \<in> set es"
  shows "fst p div 2 ^ e \<in> zone st i"
proof -
  have "fst p div 2 ^ e = i" if "sorts_chunk e i xs es"
    using that assms(2) chunk_range [of i e "fst p"] by (auto simp: sorts_chunk_def ops_within_def)
  then show ?thesis
    using assms piece_ops_block [of p e i]
    by (cases "(e, i, st i, xs, es)" rule: task_fine.cases) (auto simp: zone_def)
qed

lemma piece_idle:
  assumes "tidy st n" "st i = Merging h (Suc g) d" "j \<in> block (Suc g) i"
    "\<forall>j \<in> {down_to (Suc g) i..<down_to (Suc g) i + 2 ^ g}. st j = Merging h (Suc g) True"
  shows "\<not> pending j (st j)"
proof -
  obtain d' where "st j = Merging h (Suc g) d'" using tidy_Merging(4) [OF assms(1-3)] by blast
  then show ?thesis using assms(3,4) block_down [OF assms(3)] by (auto simp: in_block)
qed

lemma piece_done:
  assumes a: "array_fine e n st K xs0 xs" and i: "st i = Merging h (Suc g) d"
    and marked: "\<forall>j \<in> {down_to (Suc g) i..<down_to (Suc g) i + 2 ^ g}. st j = Merging h (Suc g) True"
  shows "split_piece (down_to (Suc g) i * 2 ^ e) (2 ^ (e + g)) xs"
proof -
  note f = array_fineD [OF a]
  have s: "splitting e i h g K xs" using f(6) [of i] by (simp add: i)
  have "xs ! fst p \<le> xs ! snd p" if p: "p \<in> set (piece_ops e i h (Suc g))" for p
  proof (rule ccontr)
    assume "\<not> xs ! fst p \<le> xs ! snd p"
    then obtain j where j: "j \<in># K" "p \<in> set (snd j)" using s p by (auto simp: splitting_def)
    define k where "k = c_beg (fst j) div 2 ^ e"
    obtain K' where "K = add_mset (fst j, snd j) K'" using j(1) by (metis mset_add prod.collapse)
    then have pend: "pending k (st k)" using tasks_fit_first(2) [of e st "fst j" "snd j" K'] f(2) by (simp add: k_def)
    have "zone st i = block (Suc g) i" by (simp add: zone_def i)
    moreover have "fst p div 2 ^ e \<in> zone st k" "fst p div 2 ^ e \<in> block (Suc g) i"
      using task_member_zone [where st = st, OF _ j(2), of e k xs] f(5) [OF j(1)] piece_ops_block(1) [OF p]
      by (simp_all add: k_def)
    ultimately have "k \<in> block (Suc g) i" using zone_disjoint [OF f(1), of k i] by blast
    then show False using piece_idle [OF f(1) i _ marked] pend by blast
  qed
  then have "exec (piece_ops e i h (Suc g)) xs = xs" by (intro exec_ordered) blast
  then show ?thesis using s by (simp add: splitting_def)
qed

definition todo :: "nat \<Rightarrow> nat \<Rightarrow> nat list" where
  "todo g p = [p..<p + 2 ^ (g - 1)] @ [p + 2 ^ g..<p + 2 ^ g + 2 ^ (g - 1)]"

lemma set_todo:
  "set (todo g (down_to (Suc g) i)) = {j \<in> block (Suc g) i. j < down_to g j + 2 ^ (g - 1)}"
proof -
  have "(2 :: nat) ^ (g - 1) \<le> 2 ^ g" by (intro power_increasing) simp_all
  from first_of_block [OF this, of "down_to (Suc g) i"] first_of_block [OF this, of "down_to (Suc g) i + 2 ^ g"]
  show ?thesis unfolding half_blocks todo_def set_append set_upt by (auto simp: down_to_half)
qed

lemma distinct_todo: "distinct (todo g p)"
proof -
  have "(2 :: nat) ^ (g - 1) \<le> 2 ^ g" by (intro power_increasing) simp_all
  then show ?thesis by (auto simp: todo_def)
qed

lemma tidy_split:
  assumes t: "tidy st n" and i: "st i = Merging h (Suc g) d"
  defines "st' \<equiv> \<lambda>j. if j \<in> block (Suc g) i then Merging h g False else st j"
  shows "tidy st' n"
proof (rule tidy_change [OF t, where B = "block (Suc g) i"])
  have old: "\<exists>d'. st j = Merging h (Suc g) d'" if "j \<in> block (Suc g) i" for j
    using tidy_Merging(4) [OF t i that] .
  show "st' j = st j" if "j \<notin> block (Suc g) i" for j using that by (simp add: st'_def)
  show "j < n" if "j \<in> block (Suc g) i" for j
    using old [OF that] tidy_fed [OF t, of j] by auto
  show "st' j = Ordered h'" if "st j = Ordered h'" "j \<in> block (Suc g) i" for j h'
    using old [OF that(2)] that(1) by auto
  show "\<exists>g' d'. st' j = Merging h' g' d'" if "st j = Merging h' g1 d1" "j \<in> block (Suc g) i" for j h' g1 d1
    using old [OF that(2)] that by (auto simp: st'_def)
  show "\<exists>d'. st' j = Merging h' g' d'"
    if "st j = Merging h' g' d1" "j \<in> block g' k" "j \<in> block (Suc g) i" "k \<notin> block (Suc g) i" for k j h' g' d1
  proof -
    have "g' = Suc g" using old [OF that(3)] that(1) by auto
    then have "k \<in> block (Suc g) i" using that(2,3) block_eq block_self by metis
    then show ?thesis using that(4) by simp
  qed
  fix k h' g' d' assume k: "k \<in> block (Suc g) i" "st' k = Merging h' g' d'"
  then have s: "h' = h" "g' = g" by (simp_all add: st'_def)
  show "0 < h' \<and> g' \<le> h'" using tidy_Merging(1,2) [OF t i] s by simp
  have blk: "block h k = block h i"
    using k(1) subsetD [OF block_mono [OF tidy_Merging(2) [OF t i]]] block_eq by blast
  show "\<exists>g' d'. st' j = Merging h' g' d'" if "j \<in> block h' k" for j
    using tidy_Merging(3) [OF t i, of j] that by (auto simp: st'_def s blk)
  show "\<exists>d'. st' j = Merging h' g' d'" if "j \<in> block g' k" for j
  proof -
    have "j \<in> block (Suc g) k" using that subsetD [OF block_mono [of g "Suc g" k]] s by simp
    then show ?thesis using block_eq [OF k(1)] by (auto simp: st'_def s)
  qed
qed (simp add: st'_def)


lemma apart_split:
  assumes ap: "apart e st xs" and t: "tidy st n" and i: "st i = Merging h (Suc g) d"
    and sp: "split_piece (down_to (Suc g) i * 2 ^ e) (2 ^ (e + g)) xs"
  shows "apart e (\<lambda>j. if j \<in> block (Suc g) i then Merging h g False else st j) xs"
  unfolding apart_def
proof (intro allI impI)
  let ?st = "\<lambda>j. if j \<in> block (Suc g) i then Merging h g False else st j" and ?p = "down_to (Suc g) i"
  fix x y h' g' d'
  assume *: "x < y" "?st (x div 2 ^ e) = Merging h' g' d'" "y div 2 ^ e \<in> block h' (x div 2 ^ e)"
    "y div 2 ^ e \<notin> block g' (x div 2 ^ e)"
  show "xs ! x \<le> xs ! y"
  proof (cases "x div 2 ^ e \<in> block (Suc g) i")
    case False
    then show ?thesis using ap * unfolding apart_def by simp
  next
    case True
    then have s: "h' = h" "g' = g" using *(2) by simp_all
    obtain d'' where x: "st (x div 2 ^ e) = Merging h (Suc g) d''" using tidy_Merging(4) [OF t i True] by blast
    show ?thesis
    proof (cases "y div 2 ^ e \<in> block (Suc g) (x div 2 ^ e)")
      case False
      then show ?thesis using ap x *(1,3) unfolding apart_def s by blast
    next
      case y: True
      have "x div 2 ^ e \<le> y div 2 ^ e" using *(1) by (intro div_le_mono) simp
      moreover have "y div 2 ^ e \<in> block (Suc g) i" using y block_eq [OF True] by simp
      moreover have "block g (x div 2 ^ e) \<noteq> block g (y div 2 ^ e)" using *(4) s by auto
      moreover have "\<not> (x div 2 ^ e \<in> block g (?p + 2 ^ g) \<and> y div 2 ^ e \<in> block g ?p)"
        using calculation(1) by (auto simp: in_block down_to_half)
      ultimately have "x div 2 ^ e \<in> block g ?p" "y div 2 ^ e \<in> block g (?p + 2 ^ g)"
        using True block_eq unfolding half_blocks Un_iff by blast+
      then have "?p * 2 ^ e \<le> x" "x < ?p * 2 ^ e + 2 ^ (e + g)" "(?p + 2 ^ g) * 2 ^ e \<le> y"
          "y < (?p + 2 ^ g) * 2 ^ e + 2 ^ (e + g)"
        unfolding block_range [symmetric] down_to_half by simp_all
      then show ?thesis using sp by (simp add: split_piece_def power_add algebra_simps)
    qed
  qed
qed

lemma array_split:
  assumes a: "array_fine e n st K xs0 xs" and e: "0 < e" and i: "st i = Merging h (Suc g) d"
    and marked: "\<forall>j \<in> {down_to (Suc g) i..<down_to (Suc g) i + 2 ^ g}. st j = Merging h (Suc g) True"
  defines "p \<equiv> down_to (Suc g) i"
  defines "st' \<equiv> \<lambda>j. if j \<in> block (Suc g) i then Merging h g False else st j"
  shows "array_fine e n st' (K + new_tasks e (length xs) h g (todo g p)) xs0 xs"
proof (rule array_merge [OF a e])
  note f = array_fineD [OF a]
  note sp = piece_done [OF a i marked]
  have g: "g < h" using tidy_Merging(2) [OF f(1) i] by simp
  show "j < n" if "j \<in> block (Suc g) i" for j
    using tidy_Merging(4) [OF f(1) i that] tidy_fed [OF f(1), of j] by auto
  show "st' j = (if j \<in> block (Suc g) i then Merging h g False else st j)" for j by (simp add: st'_def)
  show "\<not> pending j (st j)" if "j \<in> block (Suc g) i" for j using piece_idle [OF f(1) i that marked] .
  show "block g j \<subseteq> block (Suc g) i" if "j \<in> block (Suc g) i" for j
    using block_mono [of g "Suc g" j] block_eq [OF that] by simp
  show "set (todo g p) = {j \<in> block (Suc g) i. j < down_to g j + 2 ^ (g - 1)}"
    unfolding p_def by (rule set_todo)
  show "tidy st' n" unfolding st'_def by (rule tidy_split [OF f(1) i])
  show "apart e st' xs" unfolding st'_def by (rule apart_split [OF f(7,1) i sp])
  have len: "p * 2 ^ e + 2 * 2 ^ (e + g) \<le> length xs"
    using zone_in_array(1) [OF f(1,3) i] by (simp add: p_def)
  have half: "down_to g j = p \<or> down_to g j = p + 2 ^ g" if "j \<in> block (Suc g) i" for j
    using that unfolding half_blocks p_def by (auto simp: block_def down_to_half)
  have bit: "bit_piece (down_to g j * 2 ^ e) (2 ^ (e + g)) xs" if "j \<in> block (Suc g) i" for j
    using sp half [OF that] by (auto simp: split_piece_def p_def power_add algebra_simps)
  show "bit_piece (j * 2 ^ e) (2 ^ e) xs" if "j \<in> block (Suc g) i" "g = 0" for j
    using bit [OF that(1)] that(2) by simp
  show "split_piece (down_to g j * 2 ^ e) (2 ^ (e + g')) (exec (piece_ops e j h g) xs)"
    if j: "j \<in> block (Suc g) i" and g': "g = Suc g'" for j g'
  proof -
    have "down_to g j * 2 ^ e + 2 * 2 ^ (e + g') \<le> length xs"
      using half [OF j] len by (auto simp: g' power_add algebra_simps)
    moreover have "bit_piece (down_to g j * 2 ^ e) (2 * 2 ^ (e + g')) xs" using bit [OF j] by (simp add: g')
    ultimately have "split_piece (down_to g j * 2 ^ e) (2 ^ (e + g'))
        (exec (swap_ops (down_to g j * 2 ^ e) (2 * 2 ^ (e + g'))) xs)" by (intro swap_splits) simp_all
    then show ?thesis using g by (simp add: piece_ops_def merge_ops_def g')
  qed
qed (rule distinct_todo)

section \<open>A merge is complete\<close>

lemma sorted_seg_iff:
  assumes "lo + n \<le> length xs"
  shows "sorted (seg lo n xs) \<longleftrightarrow> (\<forall>x y. lo \<le> x \<longrightarrow> x < y \<longrightarrow> y < lo + n \<longrightarrow> xs ! x \<le> xs ! y)"
proof -
  have "sorted (seg lo n xs) \<longleftrightarrow> (\<forall>i j. i < j \<longrightarrow> j < n \<longrightarrow> xs ! (lo + i) \<le> xs ! (lo + j))"
    using assms by (auto simp: sorted_iff_nth_mono_less seg_def)
  also have "\<dots> \<longleftrightarrow> (\<forall>x y. lo \<le> x \<longrightarrow> x < y \<longrightarrow> y < lo + n \<longrightarrow> xs ! x \<le> xs ! y)"
  proof (intro iffI allI impI)
    fix x y assume *: "\<forall>i j. i < j \<longrightarrow> j < n \<longrightarrow> xs ! (lo + i) \<le> xs ! (lo + j)" "lo \<le> x" "x < y" "y < lo + n"
    then show "xs ! x \<le> xs ! y" using *(1) [rule_format, of "x - lo" "y - lo"] by simp
  qed simp
  finally show ?thesis .
qed

lemma array_settle:
  assumes a: "array_fine e n st K xs0 xs"
    and all: "\<And>j. j \<in> block h i \<Longrightarrow> st j = Merging h 0 True"
  defines "st' \<equiv> \<lambda>j. if j \<in> block h i then Ordered h else st j"
  shows "array_fine e n st' K xs0 xs"
proof -
  note f = array_fineD [OF a]
  have eq: "block h j = block h i" if "j \<in> block h i" for j using block_eq [OF that] .
  have fed: "j < n" if "j \<in> block h i" for j using tidy_fed [OF f(1), of j] by (simp add: all [OF that])
  have len: "down_to h i * 2 ^ e + 2 ^ (e + h) \<le> length xs"
  proof -
    have "(0 :: nat) < 2 ^ h" by simp
    then have "down_to h i + 2 ^ h - 1 \<in> block h i" unfolding in_block by linarith
    then have "down_to h i + 2 ^ h \<le> n" using fed by fastforce
    from mult_le_mono1 [OF this, of "2 ^ e"] show ?thesis using f(3) by (simp add: power_add algebra_simps)
  qed
  have ordered: "xs ! x \<le> xs ! y" if "x < y" "x div 2 ^ e \<in> block h i" "y div 2 ^ e \<in> block h i" for x y
  proof (cases "x div 2 ^ e = y div 2 ^ e")
    case True
    define k where "k = x div 2 ^ e"
    have "sorted (seg (k * 2 ^ e) (2 ^ e) xs)" using f(6) [of k] all that(2) by (simp add: k_def)
    moreover have "k * 2 ^ e + 2 ^ e \<le> length xs" using chunk_in_array [OF fed [OF that(2)], of e] f(3) by (simp add: k_def)
    moreover have "k * 2 ^ e \<le> x \<and> x < k * 2 ^ e + 2 ^ e" "k * 2 ^ e \<le> y \<and> y < k * 2 ^ e + 2 ^ e"
      unfolding chunk_range using True by (simp_all add: k_def)
    ultimately show ?thesis using that(1) by (simp add: sorted_seg_iff)
  next
    case False
    have "st (x div 2 ^ e) = Merging h 0 True" using all [OF that(2)] .
    moreover have "y div 2 ^ e \<in> block h (x div 2 ^ e)" using that(3) eq [OF that(2)] by simp
    ultimately show ?thesis using f(7) that(1) False unfolding apart_def by (metis block_0 singletonD)
  qed
  have "sorted (seg (down_to h i * 2 ^ e) (2 ^ (e + h)) xs)"
    unfolding sorted_seg_iff [OF len]
  proof (intro allI impI)
    fix x y assume *: "down_to h i * 2 ^ e \<le> x" "x < y" "y < down_to h i * 2 ^ e + 2 ^ (e + h)"
    then have "x div 2 ^ e \<in> block h i" "y div 2 ^ e \<in> block h i"
      unfolding block_range [symmetric] by simp_all
    then show "xs ! x \<le> xs ! y" using ordered *(2) by blast
  qed
  moreover have "tidy st' n"
  proof (rule tidy_change [OF f(1), where B = "block h i"])
    show "\<exists>g' d'. st' j = Merging h' g' d'"
      if "st j = Merging h' g d" "j \<in> block h' k" "j \<in> block h i" "k \<notin> block h i" for k j h' g d
    proof -
      have "h' = h" using all [OF that(3)] that(1) by simp
      then have "k \<in> block h i" using that(2,3) block_eq block_self by metis
      then show ?thesis using that(4) by simp
    qed
    show "\<exists>d'. st' j = Merging h' g d'"
      if "st j = Merging h' g d" "j \<in> block g k" "j \<in> block h i" "k \<notin> block h i" for k j h' g d
      using all [OF that(3)] that by simp
    show "st' j = Ordered h'" if "k \<in> block h i" "st' k = Ordered h'" "j \<in> block h' k" for k j h'
      using that eq [OF that(1)] by (auto simp: st'_def)
  qed (use fed all in \<open>simp_all add: st'_def\<close>)
  moreover have "apart e st' xs"
    by (rule apart_cong [OF f(7)]) (simp add: st'_def split: if_splits)
  moreover have "jobs_at e j K = {#}" if "j \<in> block h i" for j
  proof -
    have "if pending j (st j) then \<exists>m es. jobs_at e j K = {#(m, es)#} \<and> fits e (st j) m else jobs_at e j K = {#}"
      using f(2) unfolding tasks_fit_def by blast
    then show ?thesis by (simp add: all [OF that])
  qed
  ultimately have "array_fine e n st' (K + {#}) xs0 xs"
    by - (rule array_change [where R = "{#}" and B = "block h i" and st = st], simp_all add: a st'_def block_down)
  then show ?thesis by simp
qed

end
