(* ===== verification/Bitonic_Tally.thy ===== *)
theory Bitonic_Tally
  imports Bitonic_Moves
begin

text \<open>
  What the master's three counters say of the status of the chunks: \<open>k_scnts\<close> the length of the
  sorted segment that starts at a chunk, \<open>k_dcnts\<close> which tasks of a swap came back, and
  \<open>k_bcnts\<close> which chunks of a merge are sorted.
\<close>

section \<open>Sorted segments\<close>

primrec tall :: "nat \<Rightarrow> nat \<Rightarrow> nat" where
  "tall 0 i = 0"
| "tall (Suc h) i = (if 2 ^ Suc h dvd i then Suc h else tall h i)"

lemma tall_le: "tall h i \<le> h"
  by (induction h) (simp_all add: le_Suc_eq)

lemma tall_full: "2 ^ h dvd i \<Longrightarrow> tall h i = h"
  by (cases h) simp_all

lemma tall_dvd: "2 ^ tall h i dvd i"
  by (induction h) simp_all

lemma tall_ge: "2 ^ t dvd i \<Longrightarrow> t \<le> h \<Longrightarrow> t \<le> tall h i"
  by (induction h) (auto simp: le_Suc_eq)

lemma tall_maximal: "tall h i < h \<Longrightarrow> \<not> 2 ^ Suc (tall h i) dvd i"
  using tall_ge [of "Suc (tall h i)" i h] by (auto dest: leI)

fun sorted_count :: "nat \<Rightarrow> nat \<Rightarrow> status \<Rightarrow> nat" where
  "sorted_count e i (Ordered h) = e + tall h i"
| "sorted_count e i (Merging h g d) = e + tall (h - 1) i"
| "sorted_count e i _ = 0"

definition swapped :: "(nat \<Rightarrow> status) \<Rightarrow> nat \<Rightarrow> nat \<Rightarrow> nat \<Rightarrow> nat set" where
  "swapped st h g i =
     {j \<in> {down_to (Suc g) i..<down_to (Suc g) i + 2 ^ g}. st j = Merging h (Suc g) True}"

definition bottomed :: "(nat \<Rightarrow> status) \<Rightarrow> nat \<Rightarrow> nat \<Rightarrow> nat set" where
  "bottomed st h i = {j \<in> {down_to h i..<down_to h i + 2 ^ h}. st j = Merging h 0 True}"

definition counts_fit ::
  "nat \<Rightarrow> nat \<Rightarrow> (nat \<Rightarrow> status) \<Rightarrow> byte list \<Rightarrow> byte list \<Rightarrow> byte list \<Rightarrow> bool" where
  "counts_fit e n st sc dc bc \<longleftrightarrow>
     length sc = n \<and> length dc = n \<and> length bc = n \<and>
     (\<forall>i < n. unat (sc ! i) = sorted_count e i (st i)) \<and>
     (\<forall>i h g d. st i = Merging h (Suc g) d \<longrightarrow> counted (down_to (Suc g) i) g (swapped st h g i) dc) \<and>
     (\<forall>i h g d. st i = Merging h g d \<longrightarrow> counted (down_to h i) h (bottomed st h i) bc)"

lemma counts_fitD:
  assumes "counts_fit e n st sc dc bc"
  shows "length sc = n" "length dc = n" "length bc = n"
    "i < n \<Longrightarrow> unat (sc ! i) = sorted_count e i (st i)"
    "st i = Merging h (Suc g) d \<Longrightarrow> counted (down_to (Suc g) i) g (swapped st h g i) dc"
    "st i = Merging h g' d \<Longrightarrow> counted (down_to h i) h (bottomed st h i) bc"
  using assms unfolding counts_fit_def by blast+

lemma counted_cong:
  assumes "counted s n D d" "length d' = length d" "\<And>k. k \<in> {s..<s + 2 ^ n} \<Longrightarrow> d' ! k = d ! k"
  shows "counted s n D d'"
  using assms by (simp add: counted_def)

lemma counted_zero:
  "s + 2 ^ n \<le> length d \<Longrightarrow> (\<And>k. k \<in> {s..<s + 2 ^ n} \<Longrightarrow> d ! k = 0) \<Longrightarrow> counted s n {} d"
  by (simp add: counted_def best_def finished_def)

lemma block_ivl: "{down_to h i..<down_to h i + 2 ^ h} = block h i"
  by (auto simp: in_block)

lemma half_in_block: "{down_to (Suc g) i..<down_to (Suc g) i + 2 ^ g} \<subseteq> block (Suc g) i"
  by (auto simp: in_block)

lemma segment_same:
  assumes "tidy st n" "st i = Merging h g d" "st j = Merging h' g' d'" "block h i \<inter> block h' j \<noteq> {}"
  shows "h' = h" "block h j = block h i"
proof -
  obtain k where k: "k \<in> block h i" "k \<in> block h' j" using assms(4) by blast
  then show h: "h' = h" using tidy_Merging(3) [OF assms(1,2), of k] tidy_Merging(3) [OF assms(1,3), of k] by auto
  show "block h j = block h i" using block_eq [OF k(1)] block_eq [OF k(2)] h by simp
qed

lemma piece_same:
  assumes "tidy st n" "st i = Merging h g d" "st j = Merging h' g' d'" "block g i \<inter> block g' j \<noteq> {}"
  shows "h' = h" "g' = g" "block g j = block g i"
proof -
  obtain k where k: "k \<in> block g i" "k \<in> block g' j" using assms(4) by blast
  then show h: "h' = h" "g' = g" using tidy_Merging(4) [OF assms(1,2), of k] tidy_Merging(4) [OF assms(1,3), of k] by auto
  show "block g j = block g i" using block_eq [OF k(1)] block_eq [OF k(2)] h by simp
qed

section \<open>What the counters answer\<close>

text \<open>A segment that is being merged is found from any of its chunks.\<close>

lemma maxsorted_merging:
  assumes "counts_fit e n st sc dc bc" "tidy st n" "st i = Merging h g d"
  shows "\<exists>k. maxsorted e sc i = Some (e + h - 1, k)"
  using assms(3)
proof (induction i arbitrary: g d rule: less_induct)
  case (less i)
  note h = tidy_Merging [OF assms(2) less.prems]
  have i: "i < n" using tidy_fed [OF assms(2)] less.prems by simp
  define t where "t = tall (h - 1) i"
  have c: "counter sc i = Some (e + t)"
    using counts_fitD(1,4) [OF assms(1)] i by (simp add: counter_def less.prems t_def)
  let ?up = "down_to (Suc t) i"
  have t: "t \<le> h - 1" using tall_le by (simp add: t_def)
  then have "Suc t \<le> h" using h(1) by simp
  moreover have "?up \<in> block (Suc t) i" by (simp add: in_block)
  ultimately have "?up \<in> block h i" using block_mono by blast
  then obtain g' d' where up: "st ?up = Merging h g' d'" using h(3) by blast
  then have "?up < n" using tidy_fed [OF assms(2)] by simp
  then have u: "counter sc ?up = Some (e + tall (h - 1) ?up)"
    using counts_fitD(1,4) [OF assms(1)] up by (simp add: counter_def)
  show ?case
  proof (cases "t = h - 1")
    case True
    then have "\<not> Suc t \<le> tall (h - 1) ?up" using tall_le [of "h - 1"] by (simp add: not_le le_imp_less_Suc)
    then show ?thesis
      using c u True h(1) by (subst maxsorted.simps) (simp add: Let_def)
  next
    case False
    then have "t < h - 1" using t by simp
    then have "\<not> 2 ^ Suc t dvd i" unfolding t_def by (rule tall_maximal)
    then have ne: "?up \<noteq> i" using down_to_dvd [of "Suc t" i] by metis
    then have "?up < i" using down_to_le [of "Suc t" i] by simp
    then have "\<exists>k. maxsorted e sc ?up = Some (e + h - 1, k)" using less.IH up by blast
    moreover have "Suc t \<le> tall (h - 1) ?up"
      using \<open>t < h - 1\<close> by (intro tall_ge down_to_dvd) simp
    ultimately show ?thesis
      using c u ne by (subst maxsorted.simps) (simp add: Let_def)
  qed
qed

lemma height_bound:
  assumes "tidy st (2 ^ N)" "\<And>j. j \<in> block h i \<Longrightarrow> st j \<noteq> Unfed"
  shows "h \<le> N"
proof -
  have "(0 :: nat) < 2 ^ h" by simp
  then have "down_to h i + 2 ^ h - 1 \<in> block h i" unfolding in_block by linarith
  then have "down_to h i + 2 ^ h - 1 < 2 ^ N" using assms(2) tidy_fed [OF assms(1)] by blast
  then have "(2 :: nat) ^ h \<le> 2 ^ N" using \<open>0 < 2 ^ h\<close> by linarith
  then show ?thesis by simp
qed

lemma Ordered_bound: "tidy st (2 ^ N) \<Longrightarrow> st i = Ordered h \<Longrightarrow> h \<le> N"
  by (rule height_bound [of _ _ _ i]) (auto dest: tidy_Ordered)

lemma Merging_bound: "tidy st (2 ^ N) \<Longrightarrow> st i = Merging h g d \<Longrightarrow> h \<le> N"
  by (rule height_bound [of _ _ _ i]) (auto dest: tidy_Merging(3))

lemma first_count:
  assumes "tidy st (2 ^ N)" "0 < e"
  shows "sorted_count e 0 (st 0) \<le> e + N" "sorted_count e 0 (st 0) = e + N \<longleftrightarrow> st 0 = Ordered N"
proof -
  have "sorted_count e 0 (st 0) \<le> e + N \<and> (sorted_count e 0 (st 0) = e + N \<longleftrightarrow> st 0 = Ordered N)"
  proof (cases "st 0")
    case (Ordered h)
    then show ?thesis using Ordered_bound [OF assms(1) Ordered] by (simp add: tall_full)
  next
    case (Merging h g d)
    then show ?thesis
      using Merging_bound [OF assms(1) Merging] tidy_Merging(1) [OF assms(1) Merging] by (simp add: tall_full) linarith
  qed (use assms(2) in simp_all)
  then show "sorted_count e 0 (st 0) \<le> e + N" "sorted_count e 0 (st 0) = e + N \<longleftrightarrow> st 0 = Ordered N" by blast+
qed

text \<open>The neighbour of a sorted segment has its count when it is sorted to the same length.\<close>

lemma sibling_count:
  assumes "tidy st n" "st i = Ordered h" "2 ^ h dvd k" "i \<in> block (Suc h) k" "0 < e"
  shows "sorted_count e k (st k) = e + h \<longleftrightarrow> st k = Ordered h"
proof (cases "st k")
  case (Ordered h')
  have "\<not> h < h'"
  proof
    assume "h < h'"
    then have "i \<in> block h' k" using assms(4) block_mono [of "Suc h" h' k] by auto
    then show False using tidy_Ordered [OF assms(1) Ordered] assms(2) \<open>h < h'\<close> by simp
  qed
  then show ?thesis using Ordered tall_le [of h' k] assms(3) by (auto simp: tall_full)
next
  case (Merging h' g d)
  have "\<not> h < h'"
  proof
    assume "h < h'"
    then have "i \<in> block h' k" using assms(4) block_mono [of "Suc h" h' k] by auto
    then show False using tidy_Merging(3) [OF assms(1) Merging] assms(2) by fastforce
  qed
  then show ?thesis
    using Merging tall_le [of "h' - 1" k] tidy_Merging(1) [OF assms(1) Merging] by auto
qed (use assms(5) in simp_all)

lemma block_below: "i < 2 ^ N \<Longrightarrow> h \<le> N \<Longrightarrow> j \<in> block h i \<Longrightarrow> j < 2 ^ N"
  using aligned_nested [of h "down_to h i" N 0 i] down_to_dvd [of h i] down_to_range [of h i]
  by (auto simp: in_block)

lemma ispaired_ordered:
  assumes c: "counts_fit e (2 ^ N) st sc dc bc" and t: "tidy st (2 ^ N)" and e: "0 < e"
    and i: "st i = Ordered h" "2 ^ h dvd i" and h: "h < N"
  defines "p \<equiv> down_to (Suc h) i"
  shows "\<exists>b. ispaired e sc i = Some (b, p) \<and> (b \<longleftrightarrow> (\<forall>j \<in> block (Suc h) i. st j = Ordered h))"
proof -
  have n: "i < 2 ^ N" using tidy_fed [OF t] i(1) by simp
  have read: "counter sc k = Some (sorted_count e k (st k))" if "k \<in> block (Suc h) i" for k
    using block_below [OF n _ that] h counts_fitD(1,4) [OF c] by (simp add: counter_def)
  have p: "p \<in> block (Suc h) i" "p + 2 ^ h \<in> block (Suc h) i" by (simp_all add: in_block p_def)
  have own: "sorted_count e i (st i) = e + h" using i by (simp add: tall_full)
  let ?a = "sorted_count e p (st p)" and ?b = "sorted_count e (p + 2 ^ h) (st (p + 2 ^ h))"
  have dvd: "2 ^ h dvd p" "2 ^ h dvd p + 2 ^ h"
    using down_to_half [of h i] down_to_dvd [of h p] by (simp_all add: p_def)
  have "i \<in> block (Suc h) p" "i \<in> block (Suc h) (p + 2 ^ h)"
    using block_eq [OF p(1)] block_eq [OF p(2)] by simp_all
  then have ab: "?a = e + h \<longleftrightarrow> st p = Ordered h" "?b = e + h \<longleftrightarrow> st (p + 2 ^ h) = Ordered h"
    using sibling_count [OF t i(1)] dvd e by blast+
  have ipos: "i = p \<or> i = p + 2 ^ h"
    using down_to_step(2) [of h i i] i(2) by (simp add: p_def down_to_unique)
  have "?a = ?b \<longleftrightarrow> (\<forall>j \<in> block (Suc h) i. st j = Ordered h)"
  proof
    assume "?a = ?b"
    then have "st p = Ordered h" "st (p + 2 ^ h) = Ordered h" using ab ipos own by auto
    then show "\<forall>j \<in> block (Suc h) i. st j = Ordered h"
      using tidy_Ordered [OF t] unfolding half_blocks p_def by blast
  next
    assume "\<forall>j \<in> block (Suc h) i. st j = Ordered h"
    then show "?a = ?b" using ab p by simp
  qed
  moreover have "ispaired e sc i = Some (?a = ?b, p)"
    using read [of i] read [OF p(1)] read [OF p(2)] own by (simp add: ispaired_def p_def Let_def)
  ultimately show ?thesis by blast
qed


section \<open>Keeping the counters in step\<close>

text \<open>
  A change in the segments of the chunks in \<open>B\<close> (for \<open>k_dcnts\<close>) and \<open>C\<close> (for \<open>k_bcnts\<close>); all
  other regions that are counted stay as they were.
\<close>

lemma counts_change:
  assumes c: "counts_fit e n st sc dc bc"
    and len: "length sc' = n" "length dc' = n" "length bc' = n"
    and sc: "\<And>k. k < n \<Longrightarrow> unat (sc' ! k) = sorted_count e k (st' k)"
    and B: "\<And>k h g d. k \<in> B \<Longrightarrow> st' k = Merging h (Suc g) d \<Longrightarrow>
      counted (down_to (Suc g) k) g (swapped st' h g k) dc'"
      "\<And>k h g d. k \<notin> B \<Longrightarrow> st' k = Merging h (Suc g) d \<Longrightarrow> \<exists>d. st k = Merging h (Suc g) d"
      "\<And>k h g d j. k \<notin> B \<Longrightarrow> st k = Merging h (Suc g) d \<Longrightarrow>
        j \<in> {down_to (Suc g) k..<down_to (Suc g) k + 2 ^ g} \<Longrightarrow>
        dc' ! j = dc ! j \<and> (st' j = Merging h (Suc g) True \<longleftrightarrow> st j = Merging h (Suc g) True)"
    and C: "\<And>k h g d. k \<in> C \<Longrightarrow> st' k = Merging h g d \<Longrightarrow>
      counted (down_to h k) h (bottomed st' h k) bc'"
      "\<And>k h g d. k \<notin> C \<Longrightarrow> st' k = Merging h g d \<Longrightarrow> \<exists>g d. st k = Merging h g d"
      "\<And>k h g d j. k \<notin> C \<Longrightarrow> st k = Merging h g d \<Longrightarrow> j \<in> block h k \<Longrightarrow>
        bc' ! j = bc ! j \<and> (st' j = Merging h 0 True \<longleftrightarrow> st j = Merging h 0 True)"
  shows "counts_fit e n st' sc' dc' bc'"
  unfolding counts_fit_def
proof (intro conjI allI impI)
  fix k h g d assume k: "st' k = Merging h (Suc g) d"
  show "counted (down_to (Suc g) k) g (swapped st' h g k) dc'"
  proof (cases "k \<in> B")
    case False
    then obtain d' where d': "st k = Merging h (Suc g) d'" using B(2) k by blast
    have same: "dc' ! j = dc ! j" "st' j = Merging h (Suc g) True \<longleftrightarrow> st j = Merging h (Suc g) True"
      if "j \<in> {down_to (Suc g) k..<down_to (Suc g) k + 2 ^ g}" for j
      using B(3) [OF False d' that] by blast+
    have "length dc' = length dc" using len(2) counts_fitD(2) [OF c] by simp
    from counted_cong [OF counts_fitD(5) [OF c d'] this same(1)]
    have "counted (down_to (Suc g) k) g (swapped st h g k) dc'" .
    moreover have "swapped st' h g k = swapped st h g k"
      unfolding swapped_def using same(2) by blast
    ultimately show ?thesis by simp
  qed (rule B(1) [OF _ k])
next
  fix k h g d assume k: "st' k = Merging h g d"
  show "counted (down_to h k) h (bottomed st' h k) bc'"
  proof (cases "k \<in> C")
    case False
    then obtain g' d' where d': "st k = Merging h g' d'" using C(2) k by blast
    have same: "bc' ! j = bc ! j" "st' j = Merging h 0 True \<longleftrightarrow> st j = Merging h 0 True"
      if "j \<in> {down_to h k..<down_to h k + 2 ^ h}" for j
      using C(3) [OF False d', of j] that unfolding block_ivl by blast+
    have "length bc' = length bc" using len(3) counts_fitD(3) [OF c] by simp
    from counted_cong [OF counts_fitD(6) [OF c d'] this same(1)]
    have "counted (down_to h k) h (bottomed st h k) bc'" .
    moreover have "bottomed st' h k = bottomed st h k"
      unfolding bottomed_def using same(2) by blast
    ultimately show ?thesis by simp
  qed (rule C(1) [OF _ k])
qed (simp_all add: len sc)

lemma counts_quiet:
  assumes c: "counts_fit e n st sc dc bc" and i: "\<And>h g d. st i \<noteq> Merging h g d" "\<And>h g d. s \<noteq> Merging h g d"
    and sc: "length sc' = n" "\<And>k. k < n \<Longrightarrow> unat (sc' ! k) = sorted_count e k ((st(i := s)) k)"
  shows "counts_fit e n (st(i := s)) sc' dc bc"
proof (rule counts_change [OF c, where B = "{}" and C = "{}"])
  show "\<exists>d. st k = Merging h (Suc g) d" if "(st(i := s)) k = Merging h (Suc g) d" for k h g d
    using that i(2) by (cases "k = i") auto
  show "\<exists>g d. st k = Merging h g d" if "(st(i := s)) k = Merging h g d" for k h g d
    using that i(2) by (cases "k = i") auto
qed (use i sc counts_fitD(2,3) [OF c] in simp_all)

lemma counts_swapped:
  assumes c: "counts_fit e n st sc dc bc" and t: "tidy st n" and i: "st i = Merging h (Suc g) False"
    "i < down_to (Suc g) i + 2 ^ g" and g: "g < 255"
  defines "st' \<equiv> st(i := Merging h (Suc g) True)"
  shows "\<exists>cnt dc'. maxdone dc i (Suc g) = Some (cnt, dc') \<and> counts_fit e n st' sc dc' bc \<and>
    (cnt = Suc g \<longleftrightarrow> (\<forall>j \<in> {down_to (Suc g) i..<down_to (Suc g) i + 2 ^ g}. st' j = Merging h (Suc g) True))"
proof -
  let ?R = "{down_to (Suc g) i..<down_to (Suc g) i + 2 ^ g}"
  note cnt = counts_fitD(5) [OF c i(1)]
  have iR: "i \<in> ?R" using i(2) down_to_le by simp
  have ins: "swapped st' h g i = insert i (swapped st h g i)" using iR by (auto simp: swapped_def st'_def)
  have "insert i (swapped st h g i) \<subseteq> ?R" using iR by (auto simp: swapped_def)
  moreover have "i \<notin> swapped st h g i" by (simp add: swapped_def i)
  moreover have "2 ^ g dvd down_to (Suc g) i" using down_to_half(1) [of g i] down_to_dvd [of g "down_to (Suc g) i"] by simp
  ultimately obtain k dc' where m: "maxdone dc i (Suc g) = Some (k, dc')" "length dc' = length dc"
      "counted (down_to (Suc g) i) g (swapped st' h g i) dc'" "\<forall>j. j \<notin> ?R \<longrightarrow> dc' ! j = dc ! j"
      "k = Suc g \<longleftrightarrow> swapped st' h g i = ?R"
    using maxdone_counts [OF cnt _ _ _ g] unfolding ins by blast
  have same: "j \<notin> ?R \<and> (st' j = Merging h' (Suc g') True \<longleftrightarrow> st j = Merging h' (Suc g') True)"
    if "k \<notin> block (Suc g) i" "st k = Merging h' (Suc g') d'" "j \<in> {down_to (Suc g') k..<down_to (Suc g') k + 2 ^ g'}"
    for k h' g' d' j
  proof -
    have "block (Suc g) i \<inter> block (Suc g') k = {}"
      using piece_same(3) [OF t i(1) that(2)] that(1) by (metis block_self)
    then have "j \<notin> block (Suc g) i" using that(3) half_in_block by blast
    then show ?thesis using half_in_block [of g i] by (auto simp: st'_def)
  qed
  have "counts_fit e n st' sc dc' bc"
  proof (rule counts_change [OF c, where B = "block (Suc g) i" and C = "{}"])
    show "unat (sc ! k) = sorted_count e k (st' k)" if "k < n" for k
      using counts_fitD(4) [OF c that] i(1) by (simp add: st'_def)
    show "counted (down_to (Suc g') k) g' (swapped st' h' g' k) dc'"
      if k: "k \<in> block (Suc g) i" "st' k = Merging h' (Suc g') d" for k h' g' d
    proof -
      obtain d' where "st k = Merging h (Suc g) d'" using tidy_Merging(4) [OF t i(1) k(1)] by blast
      then have "h' = h" "g' = g" using k(2) by (auto simp: st'_def split: if_splits)
      then show ?thesis using m(3) block_down [OF k(1)] by (simp add: swapped_def)
    qed
  qed (use m counts_fitD [OF c] same i(1) in \<open>auto simp: st'_def split: if_splits\<close>)
  moreover have "swapped st' h g i = ?R \<longleftrightarrow> (\<forall>j \<in> ?R. st' j = Merging h (Suc g) True)"
    by (auto simp: swapped_def)
  ultimately show ?thesis using m(1,5) by blast
qed


lemma counts_bottomed:
  assumes c: "counts_fit e n st sc dc bc" and t: "tidy st n" and i: "st i = Merging h 0 False"
    and h: "h < 255"
  defines "st' \<equiv> st(i := Merging h 0 True)"
  shows "\<exists>cnt bc'. maxdone bc i (Suc h) = Some (cnt, bc') \<and> counts_fit e n st' sc dc bc' \<and>
    (cnt = Suc h \<longleftrightarrow> (\<forall>j \<in> block h i. st' j = Merging h 0 True))"
proof -
  let ?R = "{down_to h i..<down_to h i + 2 ^ h}"
  note cnt = counts_fitD(6) [OF c i]
  have iR: "i \<in> ?R" unfolding block_ivl by simp
  have ins: "bottomed st' h i = insert i (bottomed st h i)" using iR by (auto simp: bottomed_def st'_def)
  have "insert i (bottomed st h i) \<subseteq> ?R" using iR by (auto simp: bottomed_def)
  moreover have "i \<notin> bottomed st h i" by (simp add: bottomed_def i)
  ultimately obtain k bc' where m: "maxdone bc i (Suc h) = Some (k, bc')" "length bc' = length bc"
      "counted (down_to h i) h (bottomed st' h i) bc'" "\<forall>j. j \<notin> ?R \<longrightarrow> bc' ! j = bc ! j"
      "k = Suc h \<longleftrightarrow> bottomed st' h i = ?R"
    using maxdone_counts [OF cnt _ _ down_to_dvd h] unfolding ins by blast
  have same: "j \<notin> ?R \<and> (st' j = Merging h' 0 True \<longleftrightarrow> st j = Merging h' 0 True)"
    if "k \<notin> block h i" "st k = Merging h' g' d'" "j \<in> block h' k" for k h' g' d' j
  proof -
    have "block h i \<inter> block h' k = {}"
      using segment_same(2) [OF t i that(2)] that(1) by (metis block_self)
    then have "j \<notin> block h i" using that(3) by blast
    then show ?thesis unfolding block_ivl by (auto simp: st'_def)
  qed
  have "counts_fit e n st' sc dc bc'"
  proof (rule counts_change [OF c, where B = "{}" and C = "block h i"])
    show "unat (sc ! k) = sorted_count e k (st' k)" if "k < n" for k
      using counts_fitD(4) [OF c that] i by (simp add: st'_def)
    show "counted (down_to h' k) h' (bottomed st' h' k) bc'"
      if k: "k \<in> block h i" "st' k = Merging h' g' d" for k h' g' d
    proof -
      obtain g d' where "st k = Merging h g d'" using tidy_Merging(3) [OF t i k(1)] by blast
      then have "h' = h" using k(2) by (auto simp: st'_def split: if_splits)
      then show ?thesis using m(3) block_down [OF k(1)] by (simp add: bottomed_def)
    qed
  qed (use m counts_fitD [OF c] same i in \<open>auto simp: st'_def split: if_splits\<close>)
  moreover have "bottomed st' h i = ?R \<longleftrightarrow> (\<forall>j \<in> ?R. st' j = Merging h 0 True)"
    by (auto simp: bottomed_def)
  ultimately show ?thesis using m(1,5) unfolding block_ivl by blast
qed

lemma set_zero_Some:
  assumes "\<forall>i \<in> set is. i < length xs"
  shows "\<exists>ys. set_zero is xs = Some ys \<and> length ys = length xs \<and>
    (\<forall>j. ys ! j = (if j \<in> set is then 0 else xs ! j))"
proof -
  have "length (fold (\<lambda>i xs. xs[i := 0]) is xs) = length xs \<and>
      (\<forall>j. fold (\<lambda>i xs. xs[i := 0]) is xs ! j = (if j \<in> set is then 0 else xs ! j))"
    using assms by (induction "is" arbitrary: xs) (auto simp: nth_update_if)
  then show ?thesis using assms by (simp add: set_zero_def)
qed

lemma counts_split:
  assumes c: "counts_fit e n st sc dc bc" and t: "tidy st n" and i: "st i = Merging h (Suc g) d"
    and dc': "length dc' = n"
      "\<And>j. dc' ! j = (if j \<in> set (todo g (down_to (Suc g) i)) then 0 else dc ! j)"
  defines "st' \<equiv> \<lambda>j. if j \<in> block (Suc g) i then Merging h g False else st j"
  shows "counts_fit e n st' sc dc' bc"
proof (rule counts_change [OF c, where B = "block (Suc g) i" and C = "{}"])
  have old: "\<exists>d. st j = Merging h (Suc g) d" if "j \<in> block (Suc g) i" for j
    using tidy_Merging(4) [OF t i that] .
  show "unat (sc ! k) = sorted_count e k (st' k)" if "k < n" for k
    using counts_fitD(4) [OF c that] old [of k] by (auto simp: st'_def)
  show "counted (down_to (Suc g') k) g' (swapped st' h' g' k) dc'"
    if k: "k \<in> block (Suc g) i" "st' k = Merging h' (Suc g') d'" for k h' g' d'
  proof -
    have g: "g = Suc g'" "h' = h" using k by (simp_all add: st'_def)
    have R: "{down_to g k..<down_to g k + 2 ^ g'} \<subseteq> {j \<in> block (Suc g) i. j < down_to g j + 2 ^ g'}"
    proof
      fix j assume j: "j \<in> {down_to g k..<down_to g k + 2 ^ g'}"
      then have "j \<in> block g k" by (simp add: in_block g)
      moreover from this have "j \<in> block (Suc g) i"
        using block_mono [of g "Suc g" k] block_eq [OF k(1)] by auto
      ultimately show "j \<in> {j \<in> block (Suc g) i. j < down_to g j + 2 ^ g'}"
        using j block_down by fastforce
    qed
    then have "dc' ! j = 0" if "j \<in> {down_to g k..<down_to g k + 2 ^ g'}" for j
      using dc'(2) [of j] that unfolding set_todo g by auto
    moreover have "swapped st' h' g' k = {}"
      using R unfolding g [symmetric] by (auto simp: swapped_def st'_def g)
    moreover have "down_to g k + 2 ^ g' \<le> length dc'"
    proof -
      have "(0 :: nat) < 2 ^ g'" by simp
      then have "down_to g k + 2 ^ g' - 1 \<in> {down_to g k..<down_to g k + 2 ^ g'}"
        unfolding atLeastLessThan_iff by linarith
      then have "down_to g k + 2 ^ g' - 1 \<in> block (Suc g) i" using R by blast
      then have "down_to g k + 2 ^ g' - 1 < n" using old tidy_fed [OF t] by fastforce
      then show ?thesis using dc'(1) by linarith
    qed
    ultimately show ?thesis using counted_zero [of "down_to g k" g' dc'] by (simp add: g)
  qed
  show "dc' ! j = dc ! j \<and> (st' j = Merging h' (Suc g') True \<longleftrightarrow> st j = Merging h' (Suc g') True)"
    if k: "k \<notin> block (Suc g) i" "st k = Merging h' (Suc g') d'"
      "j \<in> {down_to (Suc g') k..<down_to (Suc g') k + 2 ^ g'}" for k h' g' d' j
  proof -
    have "block (Suc g) i \<inter> block (Suc g') k = {}"
      using piece_same(3) [OF t i k(2)] k(1) by (metis block_self)
    then have "j \<notin> block (Suc g) i" using k(3) half_in_block by blast
    then show ?thesis using dc'(2) by (simp add: st'_def set_todo)
  qed
  show "\<exists>g d. st k = Merging h' g d" if "st' k = Merging h' g1 d1" for k h' g1 d1
    using that old [of k] by (cases "k \<in> block (Suc g) i") (auto simp: st'_def)
  show "bc ! j = bc ! j \<and> (st' j = Merging h' 0 True \<longleftrightarrow> st j = Merging h' 0 True)" for j h'
    using old [of j] by (cases "j \<in> block (Suc g) i") (auto simp: st'_def)
qed (use dc' counts_fitD [OF c] in \<open>simp_all add: st'_def\<close>)


lemma counts_pair:
  assumes c: "counts_fit e n st sc dc bc" and t: "tidy st n"
    and sorted: "\<And>j. j \<in> block (Suc h) i \<Longrightarrow> st j = Ordered h"
  defines "p \<equiv> down_to (Suc h) i"
  assumes dc': "length dc' = n" "\<And>j. dc' ! j = (if j \<in> {p..<p + 2 ^ h} then 0 else dc ! j)"
    and bc': "length bc' = n" "\<And>j. bc' ! j = (if j \<in> {p..<p + 2 ^ h + 2 ^ h} then 0 else bc ! j)"
  defines "st' \<equiv> \<lambda>j. if j \<in> block (Suc h) i then Merging (Suc h) (Suc h) False else st j"
  shows "counts_fit e n st' sc dc' bc'"
proof (rule counts_change [OF c, where B = "block (Suc h) i" and C = "block (Suc h) i"])
  have blk: "{p..<p + 2 ^ h + 2 ^ h} = block (Suc h) i"
  proof -
    have "p + 2 ^ h + 2 ^ h = down_to (Suc h) i + 2 ^ Suc h" by (simp add: p_def)
    then show ?thesis unfolding block_ivl [symmetric] by (simp only: p_def)
  qed
  have out: "j \<notin> block (Suc h) i" if "st k = Merging h' g d" "j \<in> block h' k" for k h' g d j
    using tidy_Merging(3) [OF t that] sorted [of j] by auto
  have len: "p + 2 ^ h + 2 ^ h \<le> n"
  proof -
    have "(0 :: nat) < 2 ^ h" by simp
    then have "p + 2 ^ h + 2 ^ h - 1 \<in> {p..<p + 2 ^ h + 2 ^ h}"
      unfolding atLeastLessThan_iff by linarith
    then have "p + 2 ^ h + 2 ^ h - 1 \<in> block (Suc h) i" unfolding blk .
    then have "p + 2 ^ h + 2 ^ h - 1 < n" using sorted tidy_fed [OF t] by fastforce
    then show ?thesis by linarith
  qed
  show "unat (sc ! k) = sorted_count e k (st' k)" if "k < n" for k
    using counts_fitD(4) [OF c that] sorted [of k] by (auto simp: st'_def)
  show "counted (down_to (Suc g) k) g (swapped st' h' g k) dc'"
    if k: "k \<in> block (Suc h) i" "st' k = Merging h' (Suc g) d" for k h' g d
  proof -
    have "g = h" "h' = Suc h" "down_to (Suc h) k = p"
      using k block_down [OF k(1)] by (simp_all add: st'_def p_def)
    moreover have "swapped st' (Suc h) h k = {}"
      using half_in_block [of h k] block_eq [OF k(1)] by (auto simp: swapped_def st'_def)
    ultimately show ?thesis using counted_zero [of p h dc'] dc' len by simp
  qed
  show "counted (down_to h' k) h' (bottomed st' h' k) bc'"
    if k: "k \<in> block (Suc h) i" "st' k = Merging h' g d" for k h' g d
  proof -
    have "h' = Suc h" "down_to (Suc h) k = p"
      using k block_down [OF k(1)] by (simp_all add: st'_def p_def)
    moreover have "bottomed st' (Suc h) k = {}"
      unfolding bottomed_def block_ivl block_eq [OF k(1)] by (auto simp: st'_def)
    ultimately show ?thesis using counted_zero [of p "Suc h" bc'] bc' len by simp
  qed
  show "dc' ! j = dc ! j \<and> (st' j = Merging h' (Suc g) True \<longleftrightarrow> st j = Merging h' (Suc g) True)"
    if "st k = Merging h' (Suc g) d" "j \<in> {down_to (Suc g) k..<down_to (Suc g) k + 2 ^ g}" for k h' g d j
  proof -
    have "j \<in> block h' k"
      using subsetD [OF half_in_block that(2)] block_mono [OF tidy_Merging(2) [OF t that(1)]] by blast
    then have "j \<notin> block (Suc h) i" by (rule out [OF that(1)])
    moreover from this have "j \<notin> {p..<p + 2 ^ h}" unfolding blk [symmetric] by auto
    ultimately show ?thesis using dc'(2) [of j] by (auto simp: st'_def)
  qed
  show "bc' ! j = bc ! j \<and> (st' j = Merging h' 0 True \<longleftrightarrow> st j = Merging h' 0 True)"
    if "st k = Merging h' g d" "j \<in> block h' k" for k h' g d j
    using out [OF that] bc'(2) [of j] unfolding blk by (simp add: st'_def)
qed (use dc' bc' counts_fitD [OF c] in \<open>simp_all add: st'_def\<close>)

lemma counts_settle:
  assumes c: "counts_fit e n st sc dc bc" and t: "tidy st n"
    and all: "\<And>j. j \<in> block h i \<Longrightarrow> st j = Merging h 0 True" and room: "e + h < 256"
  defines "st' \<equiv> \<lambda>j. if j \<in> block h i then Ordered h else st j"
  shows "counts_fit e n st' (sc[down_to h i := sc ! down_to h i + 1]) dc bc"
proof (rule counts_change [OF c, where B = "{}" and C = "block h i"])
  let ?p = "down_to h i"
  have p: "?p \<in> block h i" by (simp add: in_block)
  have h: "0 < h" using tidy_Merging(1) [OF t all [OF p]] .
  then obtain k where k: "h = Suc k" by (cases h) auto
  have pn: "?p < n" using tidy_fed [OF t, of ?p] by (simp add: all [OF p])
  have at_p: "unat (sc ! ?p) = e + (h - 1)"
    using counts_fitD(4) [OF c pn] all [OF p] down_to_half(1) [of k i] down_to_dvd [of k ?p]
    by (simp add: k tall_full)
  show "unat (sc[?p := sc ! ?p + 1] ! j) = sorted_count e j (st' j)" if j: "j < n" for j
  proof (cases "j = ?p")
    case True
    have "unat (sc ! ?p + 1) = e + h" using at_p room k unat_Suc_byte [of "sc ! ?p"] by simp
    then show ?thesis
      using True j counts_fitD(1) [OF c] p by (simp add: st'_def tall_full down_to_dvd)
  next
    case False
    have "tall h j = tall (h - 1) j" if "j \<in> block h i"
    proof -
      have "\<not> 2 ^ h dvd j" using False down_to_unique [of h j j] block_down [OF that] by auto
      then show ?thesis by (simp add: k)
    qed
    then show ?thesis using False counts_fitD(4) [OF c j] all [of j] by (auto simp: st'_def)
  qed
  show "bc ! j = bc ! j \<and> (st' j = Merging h' 0 True \<longleftrightarrow> st j = Merging h' 0 True)"
    if "k \<notin> block h i" "st k = Merging h' g d" "j \<in> block h' k" for k h' g d j
  proof -
    have "block h i \<inter> block h' k = {}"
      using segment_same(2) [OF t all [OF block_self] that(2)] that(1) by (metis block_self)
    then show ?thesis using that(3) by (auto simp: st'_def)
  qed
  show "dc ! j = dc ! j \<and> (st' j = Merging h' (Suc g) True \<longleftrightarrow> st j = Merging h' (Suc g) True)" for j h' g
    using all [of j] by (auto simp: st'_def)
  show "\<exists>d. st k = Merging h' (Suc g) d" if "st' k = Merging h' (Suc g) d" for k h' g d
    using that by (auto simp: st'_def split: if_splits)
  show "\<exists>g d. st k = Merging h' g d" if "st' k = Merging h' g d" for k h' g d
    using that by (auto simp: st'_def split: if_splits)
  show "counted (down_to h' k) h' (bottomed st' h' k) bc" if "k \<in> block h i" "st' k = Merging h' g d" for k h' g d
    using that by (simp add: st'_def)
qed (use counts_fitD [OF c] in simp_all)

end
