(* ===== verification/Bitonic_Correct.thy ===== *)
theory Bitonic_Correct
  imports Bitonic_Tally
begin

text \<open>
  The fine-grained sort is correct: whatever the master and the slaves do next, the status of the
  chunks, the tasks under way and the counters agree, no thread leaves its arrays, and when the
  master ends its loop the array is sorted.
\<close>

section \<open>Tasks under way\<close>

definition fresh_job :: "nat \<Rightarrow> nat \<Rightarrow> chunk \<Rightarrow> chunk_job" where
  "fresh_job e len m = (m, chunk_ops e len m)"

fun worker_jobs :: "worker \<Rightarrow> chunk_job multiset" where
  "worker_jobs (Sorting m es) = {#(m, es)#}"
| "worker_jobs (Pushing m) = {#(m, [])#}"
| "worker_jobs _ = {#}"

fun scheduler_jobs :: "nat \<Rightarrow> nat \<Rightarrow> scheduler \<Rightarrow> chunk_job multiset" where
  "scheduler_jobs e len (Push ms) = mset (map (fresh_job e len) ms)"
| "scheduler_jobs e len _ = {#}"

definition other_jobs :: "('q \<Rightarrow> chunk multiset) \<Rightarrow> nat \<Rightarrow> ('q, 'a) chunk_sort \<Rightarrow> chunk_job multiset" where
  "other_jobs contents e s =
     image_mset (fresh_job e (length (k_arr s))) (contents (k_tosort s)) +
     sum_list (map worker_jobs (k_slaves s)) + image_mset (\<lambda>m. (m, [])) (contents (k_topair s))"

definition all_jobs :: "('q \<Rightarrow> chunk multiset) \<Rightarrow> nat \<Rightarrow> ('q, 'a) chunk_sort \<Rightarrow> chunk_job multiset" where
  "all_jobs contents e s =
     other_jobs contents e s + scheduler_jobs e (length (k_arr s)) (k_master s)"

definition fed_to :: "nat \<Rightarrow> nat \<Rightarrow> (nat \<Rightarrow> status) \<Rightarrow> nat \<Rightarrow> bool" where
  "fed_to e n st f \<longleftrightarrow> (\<exists>a \<le> n. f = a * 2 ^ e \<and> (\<forall>i. st i = Unfed \<longleftrightarrow> a \<le> i))"

definition run_fits ::
  "nat \<Rightarrow> nat \<Rightarrow> 'a::linorder list \<Rightarrow> (nat \<Rightarrow> status) \<Rightarrow> chunk_job multiset \<Rightarrow> ('q, 'a) chunk_sort \<Rightarrow> bool" where
  "run_fits e n xs0 st J s \<longleftrightarrow>
     array_fine e n st J xs0 (k_arr s) \<and> counts_fit e n st (k_scnts s) (k_dcnts s) (k_bcnts s) \<and>
     fed_to e n st (k_feed s)"

definition chunk_inv ::
  "('q \<Rightarrow> chunk multiset) \<Rightarrow> nat \<Rightarrow> nat \<Rightarrow> 'a::linorder list \<Rightarrow> ('q, 'a) chunk_sort \<Rightarrow> bool" where
  "chunk_inv contents e N xs0 s \<longleftrightarrow>
     Faulted \<notin> set (k_slaves s) \<and> k_master s \<noteq> Overran \<and>
     (\<exists>st. run_fits e (2 ^ N) xs0 st (all_jobs contents e s) s \<and>
        (k_master s = Done_all \<longrightarrow> st 0 = Ordered N))"

section \<open>The master takes a finished task\<close>

definition same_run :: "('q, 'a) chunk_sort \<Rightarrow> ('q, 'a) chunk_sort \<Rightarrow> bool" where
  "same_run s s' \<longleftrightarrow>
     k_arr s' = k_arr s \<and> k_feed s' = k_feed s \<and> k_tosort s' = k_tosort s \<and>
     k_topair s' = k_topair s \<and> k_slaves s' = k_slaves s"

text \<open>What a step of the master that takes no more from the queues leads to.\<close>

definition handled ::
  "nat \<Rightarrow> nat \<Rightarrow> 'a::linorder list \<Rightarrow> chunk_job multiset \<Rightarrow> ('q, 'a) chunk_sort \<Rightarrow> ('q, 'a) chunk_sort \<Rightarrow> bool" where
  "handled e N xs0 K s s' \<longleftrightarrow>
     same_run s s' \<and> k_master s' \<noteq> Overran \<and>
     (\<exists>st. run_fits e (2 ^ N) xs0 st (K + scheduler_jobs e (length (k_arr s')) (k_master s')) s' \<and>
        (k_master s' = Done_all \<longrightarrow> st 0 = Ordered N))"

lemma run_fitsD:
  assumes "run_fits e n xs0 st J s"
  shows "array_fine e n st J xs0 (k_arr s)" "counts_fit e n st (k_scnts s) (k_dcnts s) (k_bcnts s)"
    "fed_to e n st (k_feed s)" "tidy st n" "tasks_fit e st J" "length (k_arr s) = n * 2 ^ e"
  using assms by (simp_all add: run_fits_def array_fine_def)

lemma fed_to_cong: "fed_to e n st f \<Longrightarrow> (\<And>i. st' i = Unfed \<longleftrightarrow> st i = Unfed) \<Longrightarrow> fed_to e n st' f"
  by (simp add: fed_to_def)

lemma handled_poll:
  "run_fits e (2 ^ N) xs0 st K s' \<Longrightarrow> same_run s s' \<Longrightarrow> k_master s' = Poll \<Longrightarrow> handled e N xs0 K s s'"
  by (auto simp: handled_def)

lemma push_tasks:
  "mset (map (fresh_job e len) (map (chunk_task e h g) is)) = new_tasks e len h g is"
  by (simp add: new_tasks_def fresh_job_def o_def)

lemma handled_from: "same_run s t \<Longrightarrow> handled e N xs0 K t s' \<Longrightarrow> handled e N xs0 K s s'"
  by (auto simp: handled_def same_run_def)

lemma handled_push:
  assumes "run_fits e (2 ^ N) xs0 st (K + new_tasks e (length (k_arr s)) h g cs) s'" "same_run s s'"
    "k_master s' = Push (map (chunk_task e h g) cs)"
  shows "handled e N xs0 K s s'"
proof -
  have "length (k_arr s') = length (k_arr s)" using assms(2) by (simp add: same_run_def)
  then have "scheduler_jobs e (length (k_arr s')) (k_master s') = new_tasks e (length (k_arr s)) h g cs"
    by (simp only: assms(3) scheduler_jobs.simps push_tasks)
  then show ?thesis using assms by (auto simp: handled_def)
qed

lemma seek_pair_handled:
  assumes r: "run_fits e (2 ^ N) xs0 st K s" and e: "0 < e" and i: "st i = Ordered h" "2 ^ h dvd i"
    and h: "h < N"
  shows "handled e N xs0 K s (seek_pair e (e + Suc h) (2 ^ h) i s)"
proof -
  note f = run_fitsD [OF r]
  let ?p = "down_to (Suc h) i" and ?x = "e + Suc h"
  obtain b where b: "ispaired e (k_scnts s) i = Some (b, ?p)"
      "b \<longleftrightarrow> (\<forall>j \<in> block (Suc h) i. st j = Ordered h)"
    using ispaired_ordered [OF f(2,4) e i h] by blast
  show ?thesis
  proof (cases b)
    case False
    then have "seek_pair e ?x (2 ^ h) i s = s\<lparr>k_master := Poll\<rparr>" using b(1) by (simp add: seek_pair_def)
    then show ?thesis
      using r by (intro handled_poll [where st = st]) (simp_all add: run_fits_def same_run_def)
  next
    case True
    then have all: "st j = Ordered h" if "j \<in> block (Suc h) i" for j using b(2) that by blast
    let ?st = "\<lambda>j. if j \<in> block (Suc h) i then Merging (Suc h) (Suc h) False else st j"
    have inside: "\<forall>j \<in> {?p..<?p + 2 ^ h + 2 ^ h}. j < 2 ^ N"
    proof
      fix j assume "j \<in> {?p..<?p + 2 ^ h + 2 ^ h}"
      then have "j \<in> block (Suc h) i" by (simp add: in_block)
      then show "j < 2 ^ N" using tidy_fed [OF f(4), of j] by (simp add: all)
    qed
    obtain dc' where dc': "set_zero [?p..<?p + 2 ^ h] (k_dcnts s) = Some dc'" "length dc' = length (k_dcnts s)"
        "\<forall>j. dc' ! j = (if j \<in> set [?p..<?p + 2 ^ h] then 0 else k_dcnts s ! j)"
      using set_zero_Some [of "[?p..<?p + 2 ^ h]" "k_dcnts s"] inside counts_fitD(2) [OF f(2)] by auto
    obtain bc' where bc': "set_zero [?p..<?p + 2 ^ h + 2 ^ h] (k_bcnts s) = Some bc'" "length bc' = length (k_bcnts s)"
        "\<forall>j. bc' ! j = (if j \<in> set [?p..<?p + 2 ^ h + 2 ^ h] then 0 else k_bcnts s ! j)"
      using set_zero_Some [of "[?p..<?p + 2 ^ h + 2 ^ h]" "k_bcnts s"] inside counts_fitD(3) [OF f(2)] by auto
    have counts: "counts_fit e (2 ^ N) ?st (k_scnts s) dc' bc'"
      using dc'(2,3) bc'(2,3) counts_fitD(2,3) [OF f(2)] by (intro counts_pair [OF f(2,4) all]) simp_all
    have tasks: "map (\<lambda>i. \<lparr>c_beg = push_bit e i, c_exp = ?x, c_torswap = True\<rparr>) [?p..<?p + 2 ^ h] =
        map (chunk_task e (Suc h) (Suc h)) [?p..<?p + 2 ^ h]"
      by (simp add: chunk_task_def push_bit_eq_mult)
    let ?s = "seek_pair e ?x (2 ^ h) i s"
    have s': "?s = s\<lparr>k_dcnts := dc', k_bcnts := bc', k_msg := (k_msg s)\<lparr>c_exp := ?x, c_torswap := True\<rparr>,
        k_master := Push (map (chunk_task e (Suc h) (Suc h)) [?p..<?p + 2 ^ h])\<rparr>"
      by (simp only: seek_pair_def pair_up_def b(1) True dc'(1) bc'(1) tasks option.case prod.case bool.case)
    have "run_fits e (2 ^ N) xs0 ?st (K + new_tasks e (length (k_arr s)) (Suc h) (Suc h) [?p..<?p + 2 ^ h]) ?s"
      unfolding s' run_fits_def
      using array_pair [OF f(1) e all] counts fed_to_cong [OF f(3), of ?st] by (simp add: all)
    then show ?thesis unfolding s' by (rule handled_push) (simp_all add: same_run_def)
  qed
qed


lemma all_sorted_test:
  assumes r: "run_fits e (2 ^ N) xs0 st K s" and e: "0 < e" and N: "e + N < 31"
  shows "all_sorted (=) s = Some (st 0 = Ordered N)" "all_sorted (\<ge>) s = Some (st 0 = Ordered N)"
proof -
  note f = run_fitsD [OF r]
  note count = first_count [OF f(4) e]
  let ?c = "sorted_count e 0 (st 0)"
  have c: "counter (k_scnts s) 0 = Some ?c"
    using counts_fitD(1,4) [OF f(2)] by (simp add: counter_def)
  have len: "length (k_arr s) = 2 ^ (e + N)" using f(6) by (simp add: power_add mult.commute)
  have "?c < 31" using count(1) N by simp
  moreover have "(2 :: nat) ^ ?c = 2 ^ (e + N) \<longleftrightarrow> st 0 = Ordered N" using count(2) by simp
  moreover have "(2 :: nat) ^ (e + N) \<le> 2 ^ ?c \<longleftrightarrow> st 0 = Ordered N" using count by auto
  ultimately show "all_sorted (=) s = Some (st 0 = Ordered N)" "all_sorted (\<ge>) s = Some (st 0 = Ordered N)"
    using c len by (simp_all add: all_sorted_def)
qed

text \<open>A segment just sorted: the end of the sort, a new merge, or nothing yet.\<close>

lemma sorted_handled:
  assumes r: "run_fits e (2 ^ N) xs0 st K s" and e: "0 < e" and i: "st i = Ordered h" "2 ^ h dvd i"
  shows "handled e N xs0 K s
    (if st 0 = Ordered N then all_done s else seek_pair e (e + Suc h) (2 ^ h) i s)"
proof (cases "st 0 = Ordered N")
  case True
  then show ?thesis
    using r unfolding handled_def all_done_def
    by (intro conjI exI [of _ st]) (simp_all add: same_run_def run_fits_def)
next
  case False
  note f = run_fitsD [OF r]
  have "h \<le> N" using Ordered_bound [OF f(4) i(1)] .
  moreover have "h \<noteq> N"
  proof
    assume "h = N"
    moreover have "i < 2 ^ N" using tidy_fed [OF f(4)] i(1) by simp
    ultimately have "i = 0" using i(2) by (meson dvd_imp_le not_le zero_less_iff_neq_zero)
    then show False using False i(1) \<open>h = N\<close> by simp
  qed
  ultimately show ?thesis using seek_pair_handled [OF r e i] False by simp
qed

lemma first_task:
  assumes "run_fits e n xs0 st (add_mset (m, []) K) s"
  shows "drop_bit e (c_beg m) = c_beg m div 2 ^ e"
    "c_beg m = c_beg m div 2 ^ e * 2 ^ e" "c_beg m div 2 ^ e < n"
proof -
  note f = run_fitsD [OF assms]
  note first = tasks_fit_first [OF f(5)]
  have "st (c_beg m div 2 ^ e) \<noteq> Unfed" using first(2) by auto
  then show "c_beg m div 2 ^ e < n" using tidy_fed [OF f(4)] by blast
  show "c_beg m = c_beg m div 2 ^ e * 2 ^ e" by (rule first(1))
qed (simp add: drop_bit_eq_div)

lemma finish_init_handled:
  assumes r: "run_fits e (2 ^ N) xs0 st (add_mset (m, []) K) s" and e: "0 < e" and N: "e + N < 31"
    and i: "st (c_beg m div 2 ^ e) = Initial"
  shows "handled e N xs0 K s (finish_init e m s)"
proof -
  note f = run_fitsD [OF r]
  note first = first_task [OF r]
  define i where "i = c_beg m div 2 ^ e"
  let ?s = "s\<lparr>k_scnts := (k_scnts s)[i := of_nat e]\<rparr>" and ?st = "st(i := Ordered 0)"
  have "unat (of_nat e :: byte) = e" using N by (simp add: unat_of_nat)
  then have counts: "counts_fit e (2 ^ N) ?st ((k_scnts s)[i := of_nat e]) (k_dcnts s) (k_bcnts s)"
    using counts_fitD(1,4) [OF f(2)] i
    by (intro counts_quiet [OF f(2)]) (auto simp: i_def nth_list_update)
  have r': "run_fits e (2 ^ N) xs0 ?st K ?s"
    using array_initial [OF f(1) i] counts fed_to_cong [OF f(3), of ?st] i
    by (simp add: run_fits_def i_def)
  have "i < length (k_scnts s)" using first(3) counts_fitD(1) [OF f(2)] by (simp add: i_def)
  then have "finish_init e m s = (case all_sorted (\<ge>) ?s of None \<Rightarrow> overran ?s | Some True \<Rightarrow> all_done ?s
      | Some False \<Rightarrow> seek_pair e (e + 1) 1 i ?s)"
    unfolding finish_init_def Let_def first(1) i_def [symmetric] by simp
  also have "\<dots> = (if ?st 0 = Ordered N then all_done ?s else seek_pair e (e + Suc 0) (2 ^ 0) i ?s)"
    using all_sorted_test(2) [OF r' e N] by simp
  finally have fin: "finish_init e m s =
      (if ?st 0 = Ordered N then all_done ?s else seek_pair e (e + Suc 0) (2 ^ 0) i ?s)" .
  have "handled e N xs0 K ?s (finish_init e m s)"
    unfolding fin by (rule sorted_handled [OF r' e]) simp_all
  then show ?thesis by (rule handled_from [rotated]) (simp add: same_run_def)
qed

lemma finish_bottom_handled:
  assumes r: "run_fits e (2 ^ N) xs0 st (add_mset (m, []) K) s" and e: "0 < e" and N: "e + N < 31"
    and i: "st (c_beg m div 2 ^ e) = Merging h 0 False"
  shows "handled e N xs0 K s (finish_bottom e m s)"
proof -
  note f = run_fitsD [OF r]
  note first = first_task [OF r]
  define i where "i = c_beg m div 2 ^ e"
  note si = i [folded i_def]
  let ?st = "st(i := Merging h 0 True)"
  have h: "0 < h" "h \<le> N" using tidy_Merging(1) [OF f(4) si] Merging_bound [OF f(4) si] .
  obtain k where k: "maxsorted e (k_scnts s) i = Some (e + h - 1, k)"
    using maxsorted_merging [OF f(2,4) si] by blast
  obtain cnt bc' where bc': "maxdone (k_bcnts s) i (Suc h) = Some (cnt, bc')"
      "counts_fit e (2 ^ N) ?st (k_scnts s) (k_dcnts s) bc'"
      "cnt = Suc h \<longleftrightarrow> (\<forall>j \<in> block h i. ?st j = Merging h 0 True)"
    using counts_bottomed [OF f(2,4) si] h(2) N by auto
  have x: "e + h - 1 + 1 = e + h" "h + 1 = Suc h" "e + h - e = h" using h by simp_all
  have start: "drop_bit e (down_to (e + h) (c_beg m)) = down_to h i"
    using down_to_scale [of e h i] first(2) by (simp add: i_def [symmetric] drop_bit_eq_div)
  let ?t = "s\<lparr>k_bcnts := bc'\<rparr>"
  let ?u = "?t\<lparr>k_scnts := (k_scnts ?t)[down_to h i := k_scnts ?t ! down_to h i + 1]\<rparr>"
  have fin: "finish_bottom e m s =
      (if cnt = Suc h then
         if length (k_scnts ?t) \<le> down_to h i then overran ?t
         else (case all_sorted (=) ?u of None \<Rightarrow> overran ?u | Some True \<Rightarrow> all_done ?u
           | Some False \<Rightarrow> seek_pair e (e + h + 1) (2 ^ h) (down_to h i) ?u)
       else s\<lparr>k_bcnts := bc', k_master := Poll\<rparr>)"
  proof -
    have "cnt + e - 1 = e + h \<longleftrightarrow> cnt = Suc h" using e by auto
    then show ?thesis
      unfolding finish_bottom_def Let_def first(1) i_def [symmetric] k option.case prod.case
      unfolding x unfolding bc'(1) start option.case prod.case by simp
  qed
  have a: "array_fine e (2 ^ N) ?st K xs0 (k_arr s)"
    using array_mark [OF f(1) i] by (simp add: i_def)
  have fed: "fed_to e (2 ^ N) ?st (k_feed s)" using fed_to_cong [OF f(3), of ?st] si by simp
  show ?thesis
  proof (cases "cnt = Suc h")
    case False
    then show ?thesis
      unfolding fin using a bc'(2) fed
      by (intro handled_poll [where st = ?st]) (simp_all add: run_fits_def same_run_def)
  next
    case True
    then have all: "?st j = Merging h 0 True" if "j \<in> block h i" for j using bc'(3) that by blast
    let ?st' = "\<lambda>j. if j \<in> block h i then Ordered h else ?st j"
    note t = array_fineD(1) [OF a]
    have "?st' j = Unfed \<longleftrightarrow> ?st j = Unfed" for j
      using all [of j] by (cases "j \<in> block h i") (simp_all only: if_True if_False status.distinct)
    then have "fed_to e (2 ^ N) ?st' (k_feed s)" by (rule fed_to_cong [OF fed])
    moreover have "e + h < 256" using h(2) N by simp
    ultimately have r': "run_fits e (2 ^ N) xs0 ?st' K ?u"
      using array_settle [OF a all] counts_settle [OF bc'(2) t all] by (simp add: run_fits_def)
    have "down_to h i < 2 ^ N" using first(3) down_to_le [of h i] by (simp add: i_def)
    then have last: "finish_bottom e m s =
        (if ?st' 0 = Ordered N then all_done ?u else seek_pair e (e + Suc h) (2 ^ h) (down_to h i) ?u)"
      unfolding fin using True all_sorted_test(1) [OF r' e N] counts_fitD(1) [OF f(2)] by simp
    have "handled e N xs0 K ?u (finish_bottom e m s)"
      unfolding last by (rule sorted_handled [OF r' e _ down_to_dvd]) (simp add: in_block)
    then show ?thesis by (rule handled_from [rotated]) (simp add: same_run_def)
  qed
qed


lemma chunk_begs_todo:
  assumes "0 < e"
  shows "chunk_begs e (p * 2 ^ e) (p * 2 ^ e + 2 ^ (e + Suc g - 2)) @
    chunk_begs e (p * 2 ^ e + 2 ^ (e + Suc g - 2) + 2 ^ (e + Suc g - 2))
      (p * 2 ^ e + 2 ^ (e + Suc g - 2) + 2 ^ (e + Suc g - 2) + 2 ^ (e + Suc g - 2)) =
    map (\<lambda>i. i * 2 ^ e) (todo g p)"
proof -
  define w :: nat where "w = 2 ^ (e + Suc g - 2)"
  have b: "blocks w (2 ^ e) = 2 ^ (g - 1)"
  proof (cases g)
    case 0
    have "(2 :: nat) ^ (e - 1) \<le> 2 ^ e" by (intro power_increasing) simp_all
    moreover have "(0 :: nat) < 2 ^ (e - 1)" "(2 :: nat) ^ e * Suc 1 = 2 ^ e + 2 ^ e" by simp_all
    ultimately have "(2 ^ (e - 1) + 2 ^ e - 1) div 2 ^ e = (1 :: nat)" by (intro div_nat_eqI) linarith+
    then show ?thesis by (simp add: blocks_def 0 w_def)
  next
    case (Suc g')
    then have "w = 2 ^ (g - 1) * 2 ^ e" by (simp add: w_def power_add)
    then show ?thesis by simp
  qed
  have "Suc (e + Suc g - 2) = g + e" using assms by simp
  then have "2 * w = 2 ^ g * 2 ^ e" by (simp only: w_def power_Suc [symmetric] power_add [symmetric])
  then have two: "p * 2 ^ e + w + w = (p + 2 ^ g) * 2 ^ e" by (simp add: algebra_simps)
  have shift: "map (\<lambda>i. q * 2 ^ e + i * 2 ^ e) [0..<k] = map (\<lambda>i. i * 2 ^ e) [q..<q + k]" for q k
  proof -
    have "[q..<q + k] = map (\<lambda>i. q + i) [0..<k]" by (simp add: map_add_upt add.commute)
    then show ?thesis by (simp add: algebra_simps)
  qed
  show ?thesis
    unfolding w_def [symmetric] two chunk_begs_def by (simp add: b shift todo_def)
qed

lemma finish_swap_handled:
  assumes r: "run_fits e (2 ^ N) xs0 st (add_mset (m, []) K) s" and e: "0 < e" and N: "e + N < 31"
    and i: "st (c_beg m div 2 ^ e) = Merging h (Suc g) False" and x: "c_exp m = e + Suc g"
  shows "handled e N xs0 K s (finish_swap e m s)"
proof -
  note f = run_fitsD [OF r]
  note first = first_task [OF r]
  define i where "i = c_beg m div 2 ^ e"
  note si = i [folded i_def]
  let ?st = "st(i := Merging h (Suc g) True)" and ?p = "down_to (Suc g) i"
  have h: "Suc g \<le> h" "h \<le> N" using tidy_Merging(2) [OF f(4) si] Merging_bound [OF f(4) si] .
  have "i < ?p + 2 ^ g" using tasks_fit_first(2) [OF f(5)] by (simp add: i_def [symmetric] si)
  then obtain cnt dc' where dc': "maxdone (k_dcnts s) i (Suc g) = Some (cnt, dc')"
      "counts_fit e (2 ^ N) ?st (k_scnts s) dc' (k_bcnts s)"
      "cnt = Suc g \<longleftrightarrow> (\<forall>j \<in> {?p..<?p + 2 ^ g}. ?st j = Merging h (Suc g) True)"
    using counts_swapped [OF f(2,4) si] h N by auto
  have a: "array_fine e (2 ^ N) ?st K xs0 (k_arr s)"
    using array_mark [OF f(1) i] by (simp add: i_def)
  have fed: "fed_to e (2 ^ N) ?st (k_feed s)" using fed_to_cong [OF f(3), of ?st] si by simp
  have sti: "?st i = Merging h (Suc g) True" by simp
  let ?begs = "map (\<lambda>i. i * 2 ^ e) (todo g ?p)"
  have start: "down_to (e + Suc g) (c_beg m) = ?p * 2 ^ e"
    using down_to_scale [of e "Suc g" i] first(2) by (simp add: i_def [symmetric])
  have num: "e + Suc g - e = Suc g" "e + Suc g - 1 = e + g" by simp_all
  have tasks: "map (\<lambda>b. \<lparr>c_beg = b, c_exp = e + g, c_torswap = False\<rparr>) ?begs = map (chunk_task e h g) (todo g ?p)"
    using h by (simp add: chunk_task_def)
  have drop: "map (drop_bit e) ?begs = todo g ?p" by (simp add: drop_bit_eq_div o_def)
  have fin: "finish_swap e m s =
      (if cnt + e = e + Suc g then
         (case set_zero (todo g ?p) dc' of
            None \<Rightarrow> overran s
          | Some dcnts \<Rightarrow>
              s\<lparr>k_dcnts := dcnts, k_msg := m\<lparr>c_exp := e + g, c_torswap := False\<rparr>,
                k_master := Push (map (chunk_task e h g) (todo g ?p))\<rparr>)
       else s\<lparr>k_dcnts := dc', k_master := Poll\<rparr>)"
    unfolding finish_swap_def Let_def x first(1) i_def [symmetric] num dc'(1) option.case prod.case start
      chunk_begs_todo [OF e] tasks drop by (rule refl)
  show ?thesis
  proof (cases "cnt = Suc g")
    case False
    then show ?thesis
      unfolding fin using a dc'(2) fed
      by (intro handled_poll [where st = ?st]) (simp_all add: run_fits_def same_run_def)
  next
    case True
    then have all: "\<forall>j \<in> {?p..<?p + 2 ^ g}. ?st j = Merging h (Suc g) True" using dc'(3) by blast
    note t = array_fineD(1) [OF a]
    have old: "\<exists>d. ?st j = Merging h (Suc g) d" if "j \<in> block (Suc g) i" for j
      using tidy_Merging(4) [OF t sti that] .
    have "j < length dc'" if "j \<in> set (todo g ?p)" for j
    proof -
      have "j \<in> block (Suc g) i" using that unfolding set_todo by simp
      then have "j < 2 ^ N" using old tidy_fed [OF t, of j] by fastforce
      then show ?thesis using counts_fitD(2) [OF dc'(2)] by simp
    qed
    then obtain dc'' where dc'': "set_zero (todo g ?p) dc' = Some dc''" "length dc'' = length dc'"
        "\<forall>j. dc'' ! j = (if j \<in> set (todo g ?p) then 0 else dc' ! j)"
      using set_zero_Some [of "todo g ?p" dc'] by blast
    let ?st' = "\<lambda>j. if j \<in> block (Suc g) i then Merging h g False else ?st j"
    have "?st' j = Unfed \<longleftrightarrow> ?st j = Unfed" for j
    proof (cases "j \<in> block (Suc g) i")
      case True
      then obtain d where "?st j = Merging h (Suc g) d" using old by blast
      then show ?thesis using True by (simp only: if_True status.distinct)
    qed (simp only: if_False)
    then have "fed_to e (2 ^ N) ?st' (k_feed s)" by (rule fed_to_cong [OF fed])
    moreover have "counts_fit e (2 ^ N) ?st' (k_scnts s) dc'' (k_bcnts s)"
      using dc''(2,3) counts_fitD(2) [OF dc'(2)] by (intro counts_split [OF dc'(2) t sti]) simp_all
    moreover have "array_fine e (2 ^ N) ?st' (K + new_tasks e (length (k_arr s)) h g (todo g ?p)) xs0 (k_arr s)"
      by (rule array_split [OF a e sti all])
    moreover have "finish_swap e m s =
        s\<lparr>k_dcnts := dc'', k_msg := m\<lparr>c_exp := e + g, c_torswap := False\<rparr>,
          k_master := Push (map (chunk_task e h g) (todo g ?p))\<rparr>"
      unfolding fin dc''(1) True by simp
    ultimately show ?thesis
      by (intro handled_push [where st = ?st' and g = g and h = h and cs = "todo g ?p"])
        (simp_all add: run_fits_def same_run_def)
  qed
qed


lemma process_msg_handled:
  assumes r: "run_fits e (2 ^ N) xs0 st (add_mset (m, []) K) s" and e: "0 < e" and N: "e + N < 31"
  shows "handled e N xs0 K s (process_msg e m s)"
proof -
  let ?s = "s\<lparr>k_msg := m, k_fly := k_fly s - 1\<rparr>" and ?i = "c_beg m div 2 ^ e"
  have r': "run_fits e (2 ^ N) xs0 st (add_mset (m, []) K) ?s" using r by (simp add: run_fits_def)
  note first = tasks_fit_first [OF run_fitsD(5) [OF r]]
  have "handled e N xs0 K ?s (process_msg e m s)"
  proof (cases "st ?i")
    case Initial
    then have "c_exp m < e" using first(3) by simp
    then show ?thesis using finish_init_handled [OF r' e N Initial] by (simp add: process_msg_def Let_def)
  next
    case (Merging h g d)
    then have d: "\<not> d" and x: "c_exp m = e + g" using first(2,3) by (auto simp: pending_Merging)
    show ?thesis
    proof (cases g)
      case 0
      then show ?thesis
        using finish_bottom_handled [OF r' e N, of h] Merging d x by (simp add: process_msg_def Let_def)
    next
      case (Suc g')
      then show ?thesis
        using finish_swap_handled [OF r' e N, of h g'] Merging d x by (simp add: process_msg_def Let_def)
    qed
  qed (use first(2) in simp_all)
  then show ?thesis by (rule handled_from [rotated]) (simp add: same_run_def)
qed

section \<open>Every step keeps the invariant\<close>

lemma other_jobs_same: "same_run s s' \<Longrightarrow> other_jobs contents e s' = other_jobs contents e s"
  by (simp add: same_run_def other_jobs_def)

lemma handled_inv:
  assumes "handled e N xs0 (other_jobs contents e s) s s'" "Faulted \<notin> set (k_slaves s)"
  shows "chunk_inv contents e N xs0 s'"
proof -
  have "other_jobs contents e s' = other_jobs contents e s" "k_slaves s' = k_slaves s"
    using assms(1) other_jobs_same by (auto simp: handled_def same_run_def)
  then show ?thesis using assms by (auto simp: handled_def chunk_inv_def all_jobs_def)
qed

locale chunk_queue = message_queue Q contents
  for Q :: "('q, chunk) queue_ops" and contents :: "'q \<Rightarrow> chunk multiset"
begin

lemma inv_feed_chunk:
  assumes s: "chunk_inv contents (mini_exp cf) N xs0 s" and e: "0 < mini_exp cf"
    and room: "k_feed s < length (k_arr s)" and master: "k_master s \<in> {Feed, Refill}"
    and pcs: "refused \<in> {Feed, Poll}" "taken \<in> {Feed, Poll}"
  shows "chunk_inv contents (mini_exp cf) N xs0 (feed_chunk cf Q refused taken s)"
proof -
  let ?e = "mini_exp cf" and ?m = "(k_msg s)\<lparr>c_beg := k_feed s, c_exp := 0\<rparr>"
  obtain st where r: "run_fits ?e (2 ^ N) xs0 st (all_jobs contents ?e s) s"
    using s by (auto simp: chunk_inv_def)
  note f = run_fitsD [OF r]
  have J: "all_jobs contents ?e s = other_jobs contents ?e s" using master by (auto simp: all_jobs_def)
  obtain a where a: "k_feed s = a * 2 ^ ?e" "\<forall>i. st i = Unfed \<longleftrightarrow> a \<le> i" using f(3) by (auto simp: fed_to_def)
  have an: "a < 2 ^ N" using room f(6) by (simp add: a(1))
  show ?thesis
  proof (cases "q_push Q ?m (k_tosort s)")
    case None
    have "other_jobs contents ?e (s\<lparr>k_msg := ?m, k_master := refused\<rparr>) = other_jobs contents ?e s"
      by (simp add: other_jobs_def)
    then show ?thesis
      using s r J pcs(1) None unfolding feed_chunk_def chunk_inv_def all_jobs_def
      by (auto simp: Let_def run_fits_def)
  next
    case (Some q)
    let ?s = "s\<lparr>k_msg := ?m, k_tosort := q, k_feed := k_feed s + 2 ^ ?e, k_fly := k_fly s + 1, k_master := taken\<rparr>"
    let ?st = "st(a := Initial)"
    have sa: "st a = Unfed" using a(2) by simp
    have "all_jobs contents ?e ?s =
        add_mset (?m, chunk_ops ?e (length (k_arr s)) ?m) (all_jobs contents ?e s)"
      using pcs(2) unfolding J by (auto simp: all_jobs_def other_jobs_def push_contents [OF Some] fresh_job_def)
    moreover have "array_fine ?e (2 ^ N) ?st
        (add_mset (?m, chunk_ops ?e (length (k_arr s)) ?m) (all_jobs contents ?e s)) xs0 (k_arr s)"
      using a an e by (intro array_feed [OF f(1)]) simp_all
    moreover have "counts_fit ?e (2 ^ N) ?st (k_scnts s) (k_dcnts s) (k_bcnts s)"
    proof (rule counts_quiet [OF f(2)])
      show "unat (k_scnts s ! k) = sorted_count ?e k (?st k)" if "k < 2 ^ N" for k
        using counts_fitD(4) [OF f(2) that] sa by (cases "k = a") simp_all
    qed (simp_all add: sa counts_fitD(1) [OF f(2)])
    moreover have "fed_to ?e (2 ^ N) ?st (k_feed s + 2 ^ ?e)"
    proof -
      have "?st i = Unfed \<longleftrightarrow> Suc a \<le> i" for i
        using a(2) [rule_format, of i] by (cases "i = a") (simp_all add: Suc_le_eq order_less_le)
      then show ?thesis unfolding fed_to_def using a(1) an by (intro exI [of _ "Suc a"]) simp
    qed
    ultimately have "run_fits ?e (2 ^ N) xs0 ?st (all_jobs contents ?e ?s) ?s"
      by (simp add: run_fits_def)
    then show ?thesis
      using s pcs(2) Some unfolding feed_chunk_def chunk_inv_def by (auto simp: Let_def)
  qed
qed

lemma inv_scheduler:
  assumes s: "chunk_inv contents (mini_exp cf) N xs0 s" and e: "0 < mini_exp cf" and N: "mini_exp cf + N < 31"
  shows "chunk_inv contents (mini_exp cf) N xs0 (scheduler_step cf Q s)"
proof -
  let ?e = "mini_exp cf"
  obtain st where r: "run_fits ?e (2 ^ N) xs0 st (all_jobs contents ?e s) s"
    using s by (auto simp: chunk_inv_def)
  have jump: "chunk_inv contents ?e N xs0 (s\<lparr>k_master := pc\<rparr>)"
    if "scheduler_jobs ?e (length (k_arr s)) (k_master s) = {#}" "pc \<in> {Poll, Refill}" for pc
  proof -
    have "all_jobs contents ?e (s\<lparr>k_master := pc\<rparr>) = all_jobs contents ?e s"
      using that by (auto simp: all_jobs_def other_jobs_def)
    then show ?thesis using s r that(2) by (auto simp: chunk_inv_def run_fits_def)
  qed
  show ?thesis
  proof (cases "k_master s")
    case Feed
    then show ?thesis
      using inv_feed_chunk [OF s e] jump [of Poll] by (simp add: scheduler_step_def)
  next
    case Poll
    show ?thesis
    proof (cases "q_pop Q (k_topair s)")
      case None
      then show ?thesis using jump [of Refill] Poll by (simp add: scheduler_step_def)
    next
      case (Some mq)
      then obtain m q where mq: "q_pop Q (k_topair s) = Some (m, q)" by (cases mq) auto
      let ?s = "s\<lparr>k_topair := q\<rparr>"
      have "all_jobs contents ?e s = add_mset (m, []) (other_jobs contents ?e ?s)"
        using Poll by (simp add: all_jobs_def other_jobs_def pop_contents [OF mq])
      then have "run_fits ?e (2 ^ N) xs0 st (add_mset (m, []) (other_jobs contents ?e ?s)) ?s"
        using r by (simp add: run_fits_def)
      from process_msg_handled [OF this e N]
      have "chunk_inv contents ?e N xs0 (process_msg ?e m ?s)"
        by (rule handled_inv) (use s in \<open>simp add: chunk_inv_def\<close>)
      then show ?thesis by (simp add: scheduler_step_def Poll mq)
    qed
  next
    case (Push ms)
    show ?thesis
    proof (cases ms)
      case Nil
      then show ?thesis using jump [of Poll] Push by (simp add: scheduler_step_def)
    next
      case (Cons m ms')
      show ?thesis
      proof (cases "q_push Q m (k_tosort s)")
        case None
        then show ?thesis using s by (simp add: scheduler_step_def Push Cons)
      next
        case (Some q)
        let ?s = "s\<lparr>k_msg := m, k_tosort := q, k_fly := k_fly s + 1, k_master := Push ms'\<rparr>"
        have "all_jobs contents ?e ?s = all_jobs contents ?e s"
          by (simp add: all_jobs_def other_jobs_def push_contents [OF Some] Push Cons)
        then have "chunk_inv contents ?e N xs0 ?s" using s r by (auto simp: chunk_inv_def run_fits_def)
        then show ?thesis by (simp add: scheduler_step_def Push Cons Some)
      qed
    qed
  next
    case Refill
    then show ?thesis
      using inv_feed_chunk [OF s e] jump [of Poll] by (auto simp: scheduler_step_def)
  qed (use s in \<open>simp_all add: scheduler_step_def\<close>)
qed

lemma not_faulted: "Faulted \<notin> set ws \<Longrightarrow> w \<noteq> Faulted \<Longrightarrow> Faulted \<notin> set (ws[i := w])"
  by (auto dest!: set_update_subset_insert [THEN subsetD])

text \<open>What is left of the jobs without those of slave \<open>i\<close>.\<close>

lemma worker_update:
  assumes "i < length ws"
  shows "\<exists>R. \<forall>w. sum_list (map worker_jobs (ws[i := w])) = R + worker_jobs w"
proof
  let ?R = "sum_list (map worker_jobs (ws[i := Waiting]))"
  show "\<forall>w. sum_list (map worker_jobs (ws[i := w])) = ?R + worker_jobs w"
  proof
    fix w
    have "sum_list (map worker_jobs (ws[i := Waiting, i := w])) + worker_jobs (ws[i := Waiting] ! i) =
        ?R + worker_jobs w"
      by (rule sum_list_update_mset) (simp add: assms)
    then show "sum_list (map worker_jobs (ws[i := w])) = ?R + worker_jobs w"
      using assms by (simp only: list_update_overwrite nth_list_update_eq worker_jobs.simps add_0_right)
  qed
qed

lemma inv_worker:
  assumes s: "chunk_inv contents (mini_exp cf) N xs0 s" and i: "i < length (k_slaves s)"
  shows "chunk_inv contents (mini_exp cf) N xs0 (worker_step cf Q i s)"
proof -
  let ?e = "mini_exp cf" and ?len = "length (k_arr s)"
  from worker_update [OF i]
  obtain R where "\<forall>w. sum_list (map worker_jobs ((k_slaves s)[i := w])) = R + worker_jobs w" by (rule exE)
  then have R: "sum_list (map worker_jobs ((k_slaves s)[i := w])) = R + worker_jobs w" for w by (rule spec)
  define K where "K = R + scheduler_jobs ?e ?len (k_master s)"
  have now: "all_jobs contents ?e s = image_mset (fresh_job ?e ?len) (contents (k_tosort s)) +
      image_mset (\<lambda>m. (m, [])) (contents (k_topair s)) + K + worker_jobs (k_slaves s ! i)"
    using R [of "k_slaves s ! i"] by (simp add: all_jobs_def other_jobs_def K_def)
  have nf: "Faulted \<notin> set ((k_slaves s)[i := w])" if "w \<noteq> Faulted" for w
    using s that by (simp add: chunk_inv_def not_faulted)
  have keep: "chunk_inv contents ?e N xs0 (s\<lparr>k_tosort := q, k_topair := q', k_slaves := (k_slaves s)[i := w]\<rparr>)"
    if "image_mset (fresh_job ?e ?len) (contents q) + image_mset (\<lambda>m. (m, [])) (contents q') + worker_jobs w =
        image_mset (fresh_job ?e ?len) (contents (k_tosort s)) +
        image_mset (\<lambda>m. (m, [])) (contents (k_topair s)) + worker_jobs (k_slaves s ! i)" "w \<noteq> Faulted" for q q' w
  proof -
    let ?s = "s\<lparr>k_tosort := q, k_topair := q', k_slaves := (k_slaves s)[i := w]\<rparr>"
    have "all_jobs contents ?e ?s = all_jobs contents ?e s"
      using that(1) unfolding now by (simp add: all_jobs_def other_jobs_def R K_def add_ac)
    then show ?thesis
      using s nf [OF that(2)] unfolding chunk_inv_def by (simp add: run_fits_def)
  qed
  have same: "s\<lparr>k_tosort := k_tosort s, k_topair := k_topair s, k_slaves := ws\<rparr> = s\<lparr>k_slaves := ws\<rparr>"
    "s\<lparr>k_tosort := q, k_topair := k_topair s, k_slaves := ws\<rparr> = s\<lparr>k_tosort := q, k_slaves := ws\<rparr>"
    "s\<lparr>k_tosort := k_tosort s, k_topair := q, k_slaves := ws\<rparr> = s\<lparr>k_topair := q, k_slaves := ws\<rparr>" for ws q
    by simp_all
  note keep = keep [of "k_tosort s" "k_topair s", unfolded same] keep [of _ "k_topair s", unfolded same]
    keep [of "k_tosort s", unfolded same]
  show ?thesis
  proof (cases "k_slaves s ! i")
    case Waiting
    show ?thesis
    proof (cases "q_pop Q (k_tosort s)")
      case None
      then show ?thesis using keep(1) [of Looking] by (simp add: worker_step_def Waiting)
    next
      case (Some mq)
      then obtain m q where mq: "q_pop Q (k_tosort s) = Some (m, q)" by (cases mq) auto
      then show ?thesis
        using keep(2) [of q "Sorting m (chunk_ops ?e ?len m)"]
        by (simp add: worker_step_def Waiting pop_contents [OF mq] fresh_job_def)
    qed
  next
    case (Sorting m es)
    show ?thesis
    proof (cases es)
      case Nil
      then show ?thesis using keep(1) [of "Pushing m"] by (simp add: worker_step_def Sorting)
    next
      case (Cons p ps)
      let ?K = "image_mset (fresh_job ?e ?len) (contents (k_tosort s)) +
        image_mset (\<lambda>m. (m, [])) (contents (k_topair s)) + K"
      let ?s = "s\<lparr>k_arr := exchange (fst p) (snd p) (k_arr s), k_slaves := (k_slaves s)[i := Sorting m ps]\<rparr>"
      obtain st where st: "run_fits ?e (2 ^ N) xs0 st (add_mset (m, p # ps) ?K) s"
          "k_master s = Done_all \<longrightarrow> st 0 = Ordered N"
        using s unfolding chunk_inv_def now by (auto simp: Sorting Cons)
      note work = work_step [OF run_fitsD(1) [OF st(1)]]
      have "all_jobs contents ?e ?s = add_mset (m, ps) ?K"
        by (simp add: all_jobs_def other_jobs_def R K_def)
      then have "chunk_inv contents ?e N xs0 ?s"
        using work(2) st s nf [of "Sorting m ps"] unfolding chunk_inv_def by (auto simp: run_fits_def)
      then show ?thesis using work(1) by (simp add: worker_step_def Sorting Cons)
    qed
  next
    case (Pushing m)
    show ?thesis
    proof (cases "q_push Q m (k_topair s)")
      case None
      then show ?thesis using s by (simp add: worker_step_def Pushing)
    next
      case (Some q)
      then show ?thesis
        using keep(3) [of q Waiting] by (simp add: worker_step_def Pushing push_contents [OF Some])
    qed
  next
    case Looking
    then show ?thesis
      using keep(1) [of "if k_done s then Ended else Waiting"] by (cases "k_done s") (simp_all add: worker_step_def)
  qed (use s in \<open>simp_all add: worker_step_def\<close>)
qed

lemma inv_chunk_start:
  assumes len: "length xs = 2 ^ (mini_exp cf + N)"
  shows "chunk_inv contents (mini_exp cf) N xs (chunk_start cf Q k xs)"
proof -
  let ?e = "mini_exp cf" and ?st = "\<lambda>i :: nat. Unfed" and ?s = "chunk_start cf Q k xs"
  have "sum_list (map worker_jobs (replicate k Waiting)) = {#}" by (induction k) simp_all
  then have J: "all_jobs contents ?e ?s = {#}"
    by (simp add: all_jobs_def other_jobs_def chunk_start_def contents_empty Let_def del: map_replicate)
  have cnt: "drop_bit ?e (2 ^ (?e + N)) = (2 :: nat) ^ N" by (simp add: drop_bit_eq_div power_add)
  have "array_fine ?e (2 ^ N) ?st {#} xs xs"
    using len by (simp add: array_fine_def tidy_def tasks_fit_def apart_def power_add mult.commute)
  moreover have "counts_fit ?e (2 ^ N) ?st (replicate (2 ^ N) 0) (replicate (2 ^ N) 0) (replicate (2 ^ N) 0)"
    by (simp add: counts_fit_def)
  moreover have "fed_to ?e (2 ^ N) ?st 0" by (auto simp: fed_to_def)
  ultimately have "run_fits ?e (2 ^ N) xs ?st {#} ?s"
    by (simp add: run_fits_def chunk_start_def Let_def len cnt)
  moreover have "Faulted \<notin> set (k_slaves ?s) \<and> k_master ?s = Feed" by (simp add: chunk_start_def Let_def)
  ultimately show ?thesis unfolding chunk_inv_def J by auto
qed

lemma chunk_reach_inv:
  assumes "chunk_reach cf Q k xs s" "length xs = 2 ^ (mini_exp cf + N)" "0 < mini_exp cf" "mini_exp cf + N < 31"
  shows "chunk_inv contents (mini_exp cf) N xs s"
  using assms(1)
  by (induction rule: chunk_reach.induct)
    (simp_all add: inv_chunk_start assms(2-4) inv_scheduler inv_worker)

end

interpretation std_chunks: chunk_queue std_queue mset ..

interpretation bounded_chunks: chunk_queue "bounded_queue cap" mset for cap ..

section \<open>Properties\<close>

text \<open>
  C3: In every interleaving of the master and any number of slaves on an array of at least one
  chunk, with a length that is a power of two below \<open>2 ^ 31\<close>: no thread ever accesses an element
  outside the array or the counters, and when the master ends its loop the array is sorted and has
  the elements it started with. The queue neither loses nor doubles a message; it may reorder
  messages and may refuse one when it is full.
\<close>

theorem chunk_sort_correct:
  assumes "message_queue Q contents" "chunk_reach cf Q k xs s" "length xs = 2 ^ m"
    "0 < mini_exp cf" "mini_exp cf \<le> m" "m < 31"
  shows "Faulted \<notin> set (k_slaves s) \<and> k_master s \<noteq> Overran \<and>
    (k_master s = Done_all \<longrightarrow> sorted (k_arr s) \<and> mset (k_arr s) = mset xs)"
proof -
  define N where "N = m - mini_exp cf"
  have m: "mini_exp cf + N = m" using assms(5) by (simp add: N_def)
  have "chunk_queue Q contents" using assms(1) by (simp add: chunk_queue_def)
  then have inv: "chunk_inv contents (mini_exp cf) N xs s"
    using chunk_queue.chunk_reach_inv assms(2-4,6) m by metis
  have "sorted (k_arr s) \<and> mset (k_arr s) = mset xs" if fin: "k_master s = Done_all"
  proof -
    obtain st J where st: "array_fine (mini_exp cf) (2 ^ N) st J xs (k_arr s)" "st 0 = Ordered N"
      using inv fin by (auto simp: chunk_inv_def run_fits_def)
    note f = array_fineD [OF st(1)]
    have "sorted (seg 0 (2 ^ (mini_exp cf + N)) (k_arr s))" using f(6) [of 0] st(2) by (simp add: down_to_div)
    moreover have "length (k_arr s) = 2 ^ (mini_exp cf + N)" using f(3) by (simp add: power_add)
    ultimately show ?thesis using f(4) seg_0_length [of "k_arr s"] by simp
  qed
  then show ?thesis using inv by (simp add: chunk_inv_def)
qed

text \<open>A schedule: \<open>None\<close> is a step of the master, \<open>Some i\<close> one of slave \<open>i\<close>.\<close>

definition chunk_scheduled ::
  "sort_config \<Rightarrow> ('q, chunk) queue_ops \<Rightarrow> nat option \<Rightarrow> ('q, 'a::linorder) chunk_sort \<Rightarrow> ('q, 'a) chunk_sort" where
  "chunk_scheduled cf Q i s =
     (case i of
        None \<Rightarrow> scheduler_step cf Q s
      | Some j \<Rightarrow> if j < length (k_slaves s) then worker_step cf Q j s else s)"

lemma chunk_scheduled_reach:
  "chunk_reach cf Q k xs s \<Longrightarrow> chunk_reach cf Q k xs (fold (chunk_scheduled cf Q) is s)"
proof (induction "is" arbitrary: s)
  case (Cons i "is")
  then have "chunk_reach cf Q k xs (chunk_scheduled cf Q i s)"
    by (auto simp: chunk_scheduled_def split: option.splits intro: chunk_reach.intros)
  with Cons show ?case by simp
qed simp

text \<open>Eight numbers in chunks of two, two slaves, queues with room for two messages.\<close>

definition sample_config :: sort_config where
  "sample_config = \<lparr>mini_exp = 1, max_fly = 2\<rparr>"

definition sample_chunks :: "(chunk list, nat) chunk_sort" where
  "sample_chunks = fold (chunk_scheduled sample_config (bounded_queue 2))
     (concat (replicate 60 [None, Some 0, Some 0, Some 1]))
     (chunk_start sample_config (bounded_queue 2) 2 [4, 8, 3, 7, 2, 6, 1, 5])"

theorem chunk_sort_correct_witness:
  "k_master sample_chunks = Done_all \<and> Faulted \<notin> set (k_slaves sample_chunks) \<and>
     sorted (k_arr sample_chunks) \<and> mset (k_arr sample_chunks) = mset [4, 8, 3, 7, 2, 6, 1, 5]"
proof -
  have "k_master sample_chunks = Done_all" by code_simp
  moreover have "chunk_reach sample_config (bounded_queue 2) 2 [4, 8, 3, 7, 2, 6, 1, 5] sample_chunks"
    unfolding sample_chunks_def by (intro chunk_scheduled_reach chunk_init)
  ultimately show ?thesis
    using chunk_sort_correct [OF bounded.message_queue_axioms, of sample_config 2 2 "[4, 8, 3, 7, 2, 6, 1, 5]" sample_chunks 3]
    by (simp add: sample_config_def)
qed

end
