(* ===== verification/Firewall.thy ===== *)
theory Firewall
  imports Queues
begin

text \<open>
  The firewall pipeline of \<^verbatim>\<open>apps/network/firewall.cpp\<close>: the main thread sends packet
  headers from a pool to a number of \<open>stage1\<close> threads, which check the checksums and pass
  each packet to \<open>stage2correct\<close> or \<open>stage2mistake\<close>; these count it and hand its header
  back to the main thread, which writes the next packet into it. The four queues hold indices of
  headers; their operations are the parameter \<open>Q\<close> (the code is compiled for one of four
  queue libraries). A step of a thread is one operation on a queue, on the start barrier or on
  the \<open>done\<close> flag, with the local work that follows it.
\<close>

section \<open>Packets\<close>

definition POOL_SIZE :: nat where "POOL_SIZE = 56"
definition BULK_SIZE :: nat where "BULK_SIZE = 8"
definition MISTAKE_GATHER_RETRY :: nat where "MISTAKE_GATHER_RETRY = 64"

text \<open>The fields of the two headers the program uses.\<close>

record header =
  srcIP :: u32
  dstIP :: u32
  checksumIP :: u16
  srcPort :: u16
  dstPort :: u16
  checksumTCP :: u16

definition header_ok :: "header \<Rightarrow> bool" where
  "header_ok h \<longleftrightarrow>
     \<not> (ucast (checksumIP h) \<noteq> srcIP h XOR dstIP h \<or>
        checksumTCP h \<noteq> srcPort h XOR dstPort h)"

text \<open>Every eighth packet gets a wrong checksum.\<close>

definition new_header :: "nat \<Rightarrow> nat \<Rightarrow> nat \<Rightarrow> header" where
  "new_header np i j =
     \<lparr>srcIP = ucast (of_nat i :: u16), dstIP = ucast (of_nat j :: u16),
      checksumIP = (if 0 = (i + j) mod 8 then of_nat i XOR of_nat (j + 1) else of_nat i XOR of_nat j),
      srcPort = of_nat np, dstPort = of_nat np, checksumTCP = of_nat np XOR of_nat np\<rparr>"

text \<open>Headers written into the packets \<open>pkts[0]\<close>, \<open>pkts[1]\<close>, ...\<close>

definition write_headers :: "nat \<Rightarrow> nat \<Rightarrow> nat list \<Rightarrow> header list \<Rightarrow> header list" where
  "write_headers np i pkts hs =
     fold (\<lambda>(j, p) hs. hs[p := new_header np i j]) (enumerate 0 pkts) hs"

section \<open>State\<close>

text \<open>
  Where a thread is: at the start barrier, gathering with so many tries left, pushing the next
  element of a batch, looking at the flag. \<open>Broken1\<close> is an access outside a local array.
\<close>

datatype pc1 = Arrive1 | Wait1 | Gather1 nat | Classify1 | Push_correct nat | Mistakes
  | Push_mistakes nat | Check1 | Exit1 | Broken1

record stage1 =
  at1 :: pc1
  pkts1 :: "nat list"
  pktsc :: "nat list"
  pktsm :: "nat list"
  mistake_cnt :: nat

datatype pc2 = Arrive2 | Wait2 | Gather2 nat | Count2 | Push2 nat | Check2 | Exit2

record stage2 =
  at2 :: pc2
  pkts2 :: "nat list"
  cnt_sum :: nat

datatype pc0 = Fill nat | Push_init nat nat | Await | Loop | Gather0 nat | Recycle | Push0 nat
  | Count0 | Done

record main0 =
  at0 :: pc0
  pkts0 :: "nat list"
  npkts2send :: nat
  npktsrecvd :: nat

record 'q shared =
  q01 :: 'q
  q1c :: 'q
  q1m :: 'q
  qp0 :: 'q
  hdrs :: "header list"
  ready :: nat
  done_flag :: bool
  num_correct :: nat
  num_mistake :: nat

section \<open>Stage 1\<close>

definition gather1 :: "stage1 \<Rightarrow> stage1" where
  "gather1 t = t\<lparr>at1 := Gather1 BULK_SIZE, pkts1 := []\<rparr>"

text \<open>The end of the loop body: \<open>if (cnt) { continue; }\<close>\<close>

definition next1 :: "stage1 \<Rightarrow> stage1" where
  "next1 t = (if pkts1 t \<noteq> [] then gather1 t else t\<lparr>at1 := Check1\<rparr>)"

definition classify :: "header list \<Rightarrow> stage1 \<Rightarrow> stage1" where
  "classify hs t =
     (let good = filter (\<lambda>p. header_ok (hs ! p)) (pkts1 t);
          bad = filter (\<lambda>p. \<not> header_ok (hs ! p)) (pkts1 t)
      in if BULK_SIZE < length (pktsm t) + length bad then t\<lparr>at1 := Broken1\<rparr>
         else t\<lparr>pktsm := pktsm t @ bad, pktsc := good,
                at1 := (if good \<noteq> [] then Push_correct 0 else Mistakes)\<rparr>)"

definition mistakes :: "stage1 \<Rightarrow> stage1" where
  "mistakes t =
     (if BULK_SIZE = length (pktsm t) \<or> MISTAKE_GATHER_RETRY \<le> mistake_cnt t
      then (if pktsm t = [] then t\<lparr>at1 := Broken1\<rparr> else t\<lparr>at1 := Push_mistakes 0\<rparr>)
      else next1 (t\<lparr>mistake_cnt := mistake_cnt t + (if pktsm t \<noteq> [] then 1 else 0)\<rparr>))"

definition stage1_step ::
  "('q, nat) queue_ops \<Rightarrow> nat \<Rightarrow> 'q shared \<times> stage1 \<Rightarrow> 'q shared \<times> stage1" where
  "stage1_step Q threads = (\<lambda>(s, t).
     case at1 t of
       Arrive1 \<Rightarrow> (s\<lparr>ready := ready s + 1\<rparr>, t\<lparr>at1 := Wait1\<rparr>)
     | Wait1 \<Rightarrow> (s, if threads = ready s then gather1 t else t)
     | Gather1 0 \<Rightarrow> (s, t\<lparr>at1 := (if pkts1 t \<noteq> [] then Classify1 else Mistakes)\<rparr>)
     | Gather1 (Suc n) \<Rightarrow>
         (case q_pop Q (q01 s) of
            None \<Rightarrow> (s, t\<lparr>at1 := Gather1 n\<rparr>)
          | Some (p, q) \<Rightarrow> (s\<lparr>q01 := q\<rparr>, t\<lparr>at1 := Gather1 n, pkts1 := pkts1 t @ [p]\<rparr>))
     | Classify1 \<Rightarrow> (s, classify (hdrs s) t)
     | Push_correct j \<Rightarrow>
         (case q_push Q (pktsc t ! j) (q1c s) of
            None \<Rightarrow> (s, t)
          | Some q \<Rightarrow>
              (s\<lparr>q1c := q\<rparr>,
               if j + 1 < length (pktsc t) then t\<lparr>at1 := Push_correct (j + 1)\<rparr>
               else t\<lparr>at1 := Mistakes, pktsc := []\<rparr>))
     | Mistakes \<Rightarrow> (s, mistakes t)
     | Push_mistakes j \<Rightarrow>
         (case q_push Q (pktsm t ! j) (q1m s) of
            None \<Rightarrow> (s, t)
          | Some q \<Rightarrow>
              (s\<lparr>q1m := q\<rparr>,
               if j + 1 < length (pktsm t) then t\<lparr>at1 := Push_mistakes (j + 1)\<rparr>
               else next1 (t\<lparr>pktsm := [], mistake_cnt := 0\<rparr>)))
     | Check1 \<Rightarrow> (s, if done_flag s then t\<lparr>at1 := Exit1\<rparr> else gather1 t)
     | Exit1 \<Rightarrow> (s, t)
     | Broken1 \<Rightarrow> (s, t))"

section \<open>Stage 2\<close>

datatype side = Correct | Mistake

definition source :: "side \<Rightarrow> 'q shared \<Rightarrow> 'q" where
  "source d s = (case d of Correct \<Rightarrow> q1c s | Mistake \<Rightarrow> q1m s)"

definition set_source :: "side \<Rightarrow> 'q \<Rightarrow> 'q shared \<Rightarrow> 'q shared" where
  "set_source d q s = (case d of Correct \<Rightarrow> s\<lparr>q1c := q\<rparr> | Mistake \<Rightarrow> s\<lparr>q1m := q\<rparr>)"

definition publish :: "side \<Rightarrow> nat \<Rightarrow> 'q shared \<Rightarrow> 'q shared" where
  "publish d n s = (case d of Correct \<Rightarrow> s\<lparr>num_correct := n\<rparr> | Mistake \<Rightarrow> s\<lparr>num_mistake := n\<rparr>)"

definition gather2 :: "stage2 \<Rightarrow> stage2" where
  "gather2 t = t\<lparr>at2 := Gather2 BULK_SIZE, pkts2 := []\<rparr>"

definition stage2_step ::
  "side \<Rightarrow> ('q, nat) queue_ops \<Rightarrow> nat \<Rightarrow> 'q shared \<times> stage2 \<Rightarrow> 'q shared \<times> stage2" where
  "stage2_step d Q threads = (\<lambda>(s, t).
     case at2 t of
       Arrive2 \<Rightarrow> (s\<lparr>ready := ready s + 1\<rparr>, t\<lparr>at2 := Wait2\<rparr>)
     | Wait2 \<Rightarrow> (s, if threads = ready s then gather2 t else t)
     | Gather2 0 \<Rightarrow> (s, t\<lparr>at2 := (if pkts2 t \<noteq> [] then Count2 else Check2)\<rparr>)
     | Gather2 (Suc n) \<Rightarrow>
         (case q_pop Q (source d s) of
            None \<Rightarrow> (s, t\<lparr>at2 := Gather2 n\<rparr>)
          | Some (p, q) \<Rightarrow> (set_source d q s, t\<lparr>at2 := Gather2 n, pkts2 := pkts2 t @ [p]\<rparr>))
     | Count2 \<Rightarrow> (s, t\<lparr>cnt_sum := cnt_sum t + length (pkts2 t), at2 := Push2 0\<rparr>)
     | Push2 j \<Rightarrow>
         (case q_push Q (pkts2 t ! j) (qp0 s) of
            None \<Rightarrow> (s, t)
          | Some q \<Rightarrow>
              (s\<lparr>qp0 := q\<rparr>,
               if j + 1 < length (pkts2 t) then t\<lparr>at2 := Push2 (j + 1)\<rparr> else gather2 t))
     | Check2 \<Rightarrow>
         if done_flag s then (publish d (cnt_sum t) s, t\<lparr>at2 := Exit2\<rparr>) else (s, gather2 t)
     | Exit2 \<Rightarrow> (s, t))"

text \<open>The two threads are the same code over their own queue and counter.\<close>

definition stage2correct ::
  "('q, nat) queue_ops \<Rightarrow> nat \<Rightarrow> 'q shared \<times> stage2 \<Rightarrow> 'q shared \<times> stage2" where
  "stage2correct = stage2_step Correct"

definition stage2mistake ::
  "('q, nat) queue_ops \<Rightarrow> nat \<Rightarrow> 'q shared \<times> stage2 \<Rightarrow> 'q shared \<times> stage2" where
  "stage2mistake = stage2_step Mistake"

section \<open>The main thread\<close>

definition cnt2send :: "main0 \<Rightarrow> nat" where
  "cnt2send m = (if length (pkts0 m) < npkts2send m then length (pkts0 m) else npkts2send m)"

text \<open>
  \<open>np\<close> is \<open>num_packets\<close>; the first assignment to \<open>npkts2send\<close> wraps around when there
  are fewer packets than headers.
\<close>

definition main_step ::
  "('q, nat) queue_ops \<Rightarrow> nat \<Rightarrow> nat \<Rightarrow> 'q shared \<times> main0 \<Rightarrow> 'q shared \<times> main0" where
  "main_step Q threads np = (\<lambda>(s, m).
     case at0 m of
       Fill i \<Rightarrow>
         if i < POOL_SIZE then
           let pkts = [i..<min (i + BULK_SIZE) POOL_SIZE] in
           (s\<lparr>hdrs := write_headers np i pkts (hdrs s)\<rparr>, m\<lparr>pkts0 := pkts, at0 := Push_init i 0\<rparr>)
         else (s, m\<lparr>at0 := Await\<rparr>)
     | Push_init i j \<Rightarrow>
         (case q_push Q (pkts0 m ! j) (q01 s) of
            None \<Rightarrow> (s, m)
          | Some q \<Rightarrow>
              (s\<lparr>q01 := q\<rparr>,
               m\<lparr>at0 := (if j + 1 < length (pkts0 m) then Push_init i (j + 1)
                        else Fill (i + length (pkts0 m)))\<rparr>))
     | Await \<Rightarrow>
         if threads = ready s + 1 then
           (s\<lparr>ready := ready s + 1\<rparr>,
            m\<lparr>npkts2send := (np + 2 ^ 64 - POOL_SIZE) mod 2 ^ 64, npktsrecvd := 0, at0 := Loop\<rparr>)
         else (s, m)
     | Loop \<Rightarrow>
         if npktsrecvd m < np then (s, m\<lparr>at0 := Gather0 BULK_SIZE, pkts0 := []\<rparr>)
         else (s\<lparr>done_flag := True\<rparr>, m\<lparr>at0 := Done\<rparr>)
     | Gather0 0 \<Rightarrow> (s, m\<lparr>at0 := Recycle\<rparr>)
     | Gather0 (Suc n) \<Rightarrow>
         (case q_pop Q (qp0 s) of
            None \<Rightarrow> (s, m\<lparr>at0 := Gather0 n\<rparr>)
          | Some (p, q) \<Rightarrow> (s\<lparr>qp0 := q\<rparr>, m\<lparr>at0 := Gather0 n, pkts0 := pkts0 m @ [p]\<rparr>))
     | Recycle \<Rightarrow>
         if cnt2send m \<noteq> 0 then
           (s\<lparr>hdrs := write_headers np (npktsrecvd m mod 2 ^ 16) (take (cnt2send m) (pkts0 m)) (hdrs s)\<rparr>,
            m\<lparr>at0 := Push0 0\<rparr>)
         else (s, m\<lparr>at0 := Count0\<rparr>)
     | Push0 j \<Rightarrow>
         (case q_push Q (pkts0 m ! j) (q01 s) of
            None \<Rightarrow> (s, m)
          | Some q \<Rightarrow>
              (s\<lparr>q01 := q\<rparr>,
               if j + 1 < cnt2send m then m\<lparr>at0 := Push0 (j + 1)\<rparr>
               else m\<lparr>npkts2send := npkts2send m - cnt2send m, at0 := Count0\<rparr>))
     | Count0 \<Rightarrow> (s, m\<lparr>npktsrecvd := (npktsrecvd m + length (pkts0 m)) mod 2 ^ 64, at0 := Loop\<rparr>)
     | Done \<Rightarrow> (s, m))"

section \<open>The program\<close>

record 'q firewall =
  sh :: "'q shared"
  stages1 :: "stage1 list"
  correct2 :: stage2
  mistake2 :: stage2
  main :: main0

definition new_stage1 :: stage1 where
  "new_stage1 = \<lparr>at1 = Arrive1, pkts1 = [], pktsc = [], pktsm = [], mistake_cnt = 0\<rparr>"

definition new_stage2 :: stage2 where
  "new_stage2 = \<lparr>at2 = Arrive2, pkts2 = [], cnt_sum = 0\<rparr>"

text \<open>\<open>hs\<close> is what the memory of the header pool holds at first.\<close>

definition firewall_start :: "('q, nat) queue_ops \<Rightarrow> nat \<Rightarrow> header list \<Rightarrow> 'q firewall" where
  "firewall_start Q n hs =
     \<lparr>sh = \<lparr>q01 = q_empty Q, q1c = q_empty Q, q1m = q_empty Q, qp0 = q_empty Q, hdrs = hs,
            ready = 0, done_flag = False, num_correct = 0, num_mistake = 0\<rparr>,
      stages1 = replicate n new_stage1, correct2 = new_stage2, mistake2 = new_stage2,
      main = \<lparr>at0 = Fill 0, pkts0 = [], npkts2send = 0, npktsrecvd = 0\<rparr>\<rparr>"

text \<open>A step of one of the threads, in any order.\<close>

datatype thread = Stage1 nat | Stage2 side | Main

definition firewall_step ::
  "('q, nat) queue_ops \<Rightarrow> nat \<Rightarrow> thread \<Rightarrow> 'q firewall \<Rightarrow> 'q firewall" where
  "firewall_step Q np th f =
     (let threads = 3 + length (stages1 f) in
      case th of
        Stage1 i \<Rightarrow>
          if i < length (stages1 f) then
            let (s, t) = stage1_step Q threads (sh f, stages1 f ! i)
            in f\<lparr>sh := s, stages1 := (stages1 f)[i := t]\<rparr>
          else f
      | Stage2 Correct \<Rightarrow>
          let (s, t) = stage2correct Q threads (sh f, correct2 f) in f\<lparr>sh := s, correct2 := t\<rparr>
      | Stage2 Mistake \<Rightarrow>
          let (s, t) = stage2mistake Q threads (sh f, mistake2 f) in f\<lparr>sh := s, mistake2 := t\<rparr>
      | Main \<Rightarrow>
          let (s, m) = main_step Q threads np (sh f, main f) in f\<lparr>sh := s, main := m\<rparr>)"

inductive firewall_reach ::
  "('q, nat) queue_ops \<Rightarrow> nat \<Rightarrow> nat \<Rightarrow> header list \<Rightarrow> 'q firewall \<Rightarrow> bool" for Q np n hs where
  firewall_init: "firewall_reach Q np n hs (firewall_start Q n hs)"
| firewall_next: "firewall_reach Q np n hs f \<Longrightarrow> firewall_reach Q np n hs (firewall_step Q np th f)"

end
