(* ===== verification/Firewall_Flow.thy ===== *)
theory Firewall_Flow
  imports Firewall
begin

text \<open>
  What the firewall keeps in every interleaving: each header is in one place at most, packets
  are sorted by their checksums, and the two counters together with what is still under way
  account for every packet sent. At the end nothing is under way, so the counters are exact.
\<close>

section \<open>Headers\<close>

lemma ucast_u16_eq: "(ucast a :: u32) = ucast b \<longleftrightarrow> a = (b :: u16)"
proof
  assume "(ucast a :: u32) = ucast b"
  then have "uint (ucast a :: u32) = uint (ucast b :: u32)" by simp
  then show "a = b" by (intro word_uint_eqI) (simp add: uint_up_ucast is_up)
qed simp

lemma ucast_u16_xor: "ucast a XOR ucast b = (ucast (a XOR b :: u16) :: u32)"
  by (rule bit_word_eqI) (auto simp: bit_simps)

lemma xor_same_left: "a XOR b = a XOR c \<longleftrightarrow> b = (c :: u16)"
proof
  assume "a XOR b = a XOR c"
  then have "a XOR (a XOR b) = a XOR (a XOR c)" by simp
  then show "b = c" by (simp add: xor.assoc [symmetric])
qed simp

lemma header_ok_new: "header_ok (new_header np i j) \<longleftrightarrow> (i + j) mod 8 \<noteq> 0"
  by (simp add: header_ok_def new_header_def ucast_u16_xor ucast_u16_eq xor_same_left)

abbreviation bad :: "header list \<Rightarrow> nat \<Rightarrow> bool" where
  "bad hs p \<equiv> \<not> header_ok (hs ! p)"

lemma write_headers_snoc:
  "write_headers np i (pkts @ [p]) hs = (write_headers np i pkts hs)[p := new_header np i (length pkts)]"
  by (simp add: write_headers_def enumerate_append_eq)

lemma length_write_headers [simp]: "length (write_headers np i pkts hs) = length hs"
  by (induction pkts rule: rev_induct) (simp_all add: write_headers_snoc, simp add: write_headers_def)

lemma write_headers_other [simp]:
  "p \<notin> set pkts \<Longrightarrow> write_headers np i pkts hs ! p = hs ! p"
  by (induction pkts rule: rev_induct) (simp_all add: write_headers_snoc, simp add: write_headers_def)

lemma write_headers_none: "write_headers np i [] hs = hs"
  by (simp add: write_headers_def)

text \<open>One packet in eight is bad, counted from the number the batch starts at.\<close>

lemma eighths: "(n + 7) div 8 + (if n mod 8 = 0 then 1 else 0) = (Suc n + 7) div (8 :: nat)"
  by presburger

lemma bad_written:
  assumes "distinct pkts" "set pkts \<subseteq> {..<length hs}" "i mod 8 = N mod 8"
  shows "(N + 7) div 8 + size (filter_mset (bad (write_headers np i pkts hs)) (mset pkts)) =
    (N + length pkts + 7) div 8"
  using assms(1,2)
proof (induction pkts rule: rev_induct)
  case (snoc p pkts)
  let ?w = "write_headers np i pkts hs"
  have same: "filter_mset (bad (write_headers np i (pkts @ [p]) hs)) (mset pkts) =
      filter_mset (bad ?w) (mset pkts)"
    by (rule filter_mset_cong) (use snoc.prems in \<open>auto simp: write_headers_snoc nth_list_update\<close>)
  have new: "bad (write_headers np i (pkts @ [p]) hs) p \<longleftrightarrow> (N + length pkts) mod 8 = 0"
    using snoc.prems assms(3)
    by (simp add: write_headers_snoc header_ok_new) (metis mod_add_cong)
  have IH: "(N + 7) div 8 + size (filter_mset (bad ?w) (mset pkts)) = (N + length pkts + 7) div 8"
    using snoc by simp
  show ?case
    using IH eighths [of "N + length pkts"] by (auto simp: same new split: if_splits)
qed simp

section \<open>The ledger\<close>

text \<open>
  \<open>U\<close> are the packets sent and not counted yet, \<open>D\<close> the headers free or on their way back;
  \<open>c\<close> and \<open>m\<close> the two counters and \<open>N\<close> the number of packets sent.
\<close>

definition ledger ::
  "header list \<Rightarrow> nat multiset \<Rightarrow> nat multiset \<Rightarrow> nat \<Rightarrow> nat \<Rightarrow> nat \<Rightarrow> bool" where
  "ledger hs U D c m N \<longleftrightarrow>
     length hs = POOL_SIZE \<and> U + D \<subseteq># mset_set {..<POOL_SIZE} \<and>
     m + size (filter_mset (bad hs) U) = (N + 7) div 8 \<and> c + m + size U = N"

lemma ledger_distinct:
  assumes "ledger hs U (mset xs + D) c m N"
  shows "distinct xs" "set xs \<subseteq> {..<length hs}" "set xs \<inter> set_mset U = {}"
proof -
  let ?P = "mset_set {..<POOL_SIZE}"
  have le: "U + (mset xs + D) \<subseteq># ?P" and len: "length hs = POOL_SIZE"
    using assms by (auto simp: ledger_def)
  have cnt: "Multiset.count U p + Multiset.count (mset xs) p \<le> Multiset.count ?P p" for p
    using mset_subset_eq_count [OF le, of p] by simp
  have one: "Multiset.count ?P p \<le> 1" for p
    by (cases "p < POOL_SIZE") (simp_all add: count_mset_set)
  have "mset xs \<subseteq># ?P"
    using le by (meson mset_subset_eq_add_left mset_subset_eq_add_right subset_mset.order_trans)
  then show "set xs \<subseteq> {..<length hs}"
    using len by (metis finite_lessThan finite_set_mset_mset_set set_mset_mono set_mset_mset)
  show "distinct xs"
    unfolding distinct_count_atmost_1
  proof
    fix p
    have "Multiset.count (mset xs) p \<le> 1" using cnt [of p] one [of p] by linarith
    then show "Multiset.count (mset xs) p = (if p \<in> set xs then 1 else 0)"
      by (cases "p \<in> set xs") (simp_all add: le_Suc_eq count_mset_0_iff)
  qed
  show "set xs \<inter> set_mset U = {}"
  proof (rule ccontr)
    assume "set xs \<inter> set_mset U \<noteq> {}"
    then obtain p where "p \<in># mset xs" "p \<in># U" by auto
    then have "0 < Multiset.count (mset xs) p" "0 < Multiset.count U p"
      by (simp_all only: count_greater_zero_iff)
    then show False using cnt [of p] one [of p] by linarith
  qed
qed

lemma ledger_produce:
  assumes "ledger hs U (mset xs + D) c m N" "i mod 8 = N mod 8"
  shows "ledger (write_headers np i xs hs) (U + mset xs) D c m (N + length xs)"
proof -
  note d = ledger_distinct [OF assms(1)]
  have "filter_mset (bad (write_headers np i xs hs)) U = filter_mset (bad hs) U"
  proof (rule filter_mset_cong)
    fix p assume "p \<in># U"
    then have "p \<notin> set xs" using d(3) by auto
    then show "bad (write_headers np i xs hs) p \<longleftrightarrow> bad hs p" by simp
  qed simp
  then show ?thesis
    using assms(1) bad_written [OF d(1,2) assms(2), of np]
    by (simp add: ledger_def add_ac)
qed

lemma ledger_drop:
  "ledger hs U (D + X) c m N \<Longrightarrow> ledger hs U D c m N"
  unfolding ledger_def by (auto intro: subset_mset.order_trans [rotated])

lemma filter_none: "\<forall>p\<in>#X. \<not> P p \<Longrightarrow> filter_mset P X = {#}"
  by (induction X) auto

lemma filter_all: "\<forall>p\<in>#X. P p \<Longrightarrow> filter_mset P X = X"
  by (induction X) auto

lemma ledger_correct:
  "ledger hs (U + X) D c m N \<Longrightarrow> \<forall>p\<in>#X. \<not> bad hs p \<Longrightarrow> ledger hs U (X + D) (c + size X) m N"
  by (auto simp: ledger_def add_ac filter_none)

lemma ledger_mistake:
  "ledger hs (U + X) D c m N \<Longrightarrow> \<forall>p\<in>#X. bad hs p \<Longrightarrow> ledger hs U (X + D) c (m + size X) N"
  by (auto simp: ledger_def add_ac filter_all)


section \<open>Where the packets are\<close>

definition good1 :: "stage1 \<Rightarrow> nat multiset" where
  "good1 t = (case at1 t of Push_correct j \<Rightarrow> mset (drop j (pktsc t)) | _ \<Rightarrow> {#})"

definition bad1 :: "stage1 \<Rightarrow> nat multiset" where
  "bad1 t = (case at1 t of Push_mistakes j \<Rightarrow> mset (drop j (pktsm t)) | _ \<Rightarrow> mset (pktsm t))"

definition unsorted1 :: "stage1 \<Rightarrow> nat multiset" where
  "unsorted1 t =
     (case at1 t of Gather1 n \<Rightarrow> mset (pkts1 t) | Classify1 \<Rightarrow> mset (pkts1 t) | Broken1 \<Rightarrow> mset (pkts1 t)
      | _ \<Rightarrow> {#})"

definition held1 :: "stage1 \<Rightarrow> nat multiset" where
  "held1 t = unsorted1 t + good1 t + bad1 t"

definition uncounted2 :: "stage2 \<Rightarrow> nat multiset" where
  "uncounted2 t = (case at2 t of Gather2 n \<Rightarrow> mset (pkts2 t) | Count2 \<Rightarrow> mset (pkts2 t) | _ \<Rightarrow> {#})"

definition counted2 :: "stage2 \<Rightarrow> nat multiset" where
  "counted2 t = (case at2 t of Push2 j \<Rightarrow> mset (drop j (pkts2 t)) | _ \<Rightarrow> {#})"

definition sending0 :: "main0 \<Rightarrow> nat multiset" where
  "sending0 m =
     (case at0 m of Push_init i j \<Rightarrow> mset (drop j (pkts0 m))
      | Push0 j \<Rightarrow> mset (drop j (take (cnt2send m) (pkts0 m))) | _ \<Rightarrow> {#})"

definition idle0 :: "main0 \<Rightarrow> nat multiset" where
  "idle0 m =
     (case at0 m of Fill i \<Rightarrow> mset [i..<POOL_SIZE]
      | Push_init i j \<Rightarrow> mset [i + length (pkts0 m)..<POOL_SIZE]
      | Gather0 n \<Rightarrow> mset (pkts0 m) | Recycle \<Rightarrow> mset (pkts0 m) | _ \<Rightarrow> {#})"

text \<open>What the main thread has gathered and not added to \<open>npktsrecvd\<close> yet.\<close>

definition uncredited0 :: "main0 \<Rightarrow> nat" where
  "uncredited0 m =
     (case at0 m of Gather0 n \<Rightarrow> length (pkts0 m) | Recycle \<Rightarrow> length (pkts0 m)
      | Push0 j \<Rightarrow> length (pkts0 m) | Count0 \<Rightarrow> length (pkts0 m) | _ \<Rightarrow> 0)"

definition produced :: "nat \<Rightarrow> main0 \<Rightarrow> nat" where
  "produced np m =
     (case at0 m of Fill i \<Rightarrow> i | Push_init i j \<Rightarrow> i + length (pkts0 m) | Await \<Rightarrow> POOL_SIZE
      | Push0 j \<Rightarrow> np - npkts2send m + cnt2send m | _ \<Rightarrow> np - npkts2send m)"

lemmas place_defs = good1_def bad1_def unsorted1_def held1_def uncounted2_def counted2_def
  sending0_def idle0_def uncredited0_def produced_def

text \<open>What a thread relies on in its own variables.\<close>

definition stage1_ok :: "header list \<Rightarrow> stage1 \<Rightarrow> bool" where
  "stage1_ok hs t \<longleftrightarrow>
     (\<forall>p\<in>#good1 t. \<not> bad hs p) \<and> (\<forall>p\<in>#bad1 t. bad hs p) \<and>
     (pktsm t = [] \<longrightarrow> mistake_cnt t = 0) \<and>
     (case at1 t of Classify1 \<Rightarrow> pkts1 t \<noteq> [] | Broken1 \<Rightarrow> pkts1 t \<noteq> []
      | Push_correct j \<Rightarrow> j < length (pktsc t) | Push_mistakes j \<Rightarrow> j < length (pktsm t) | _ \<Rightarrow> True)"

definition stage2_ok :: "side \<Rightarrow> 'q shared \<Rightarrow> stage2 \<Rightarrow> bool" where
  "stage2_ok d s t \<longleftrightarrow>
     (\<forall>p\<in>#uncounted2 t. bad (hdrs s) p \<longleftrightarrow> d = Mistake) \<and>
     (case at2 t of Push2 j \<Rightarrow> j < length (pkts2 t)
      | Count2 \<Rightarrow> pkts2 t \<noteq> []
      | Exit2 \<Rightarrow> (case d of Correct \<Rightarrow> num_correct s | Mistake \<Rightarrow> num_mistake s) = cnt_sum t
      | _ \<Rightarrow> True)"

definition main_ok :: "nat \<Rightarrow> main0 \<Rightarrow> bool" where
  "main_ok np m \<longleftrightarrow>
     npkts2send m \<le> np - POOL_SIZE \<and>
     (case at0 m of
        Fill i \<Rightarrow> i \<le> POOL_SIZE \<and> 8 dvd i \<and> npktsrecvd m = 0
      | Push_init i j \<Rightarrow> i + length (pkts0 m) \<le> POOL_SIZE \<and> j < length (pkts0 m) \<and>
          8 dvd i + length (pkts0 m) \<and> npktsrecvd m = 0
      | Await \<Rightarrow> npktsrecvd m = 0
      | Push0 j \<Rightarrow> j < cnt2send m \<and>
          (0 < npkts2send m - cnt2send m \<longrightarrow> npktsrecvd m + POOL_SIZE = np - npkts2send m)
      | Count0 \<Rightarrow> (0 < npkts2send m \<longrightarrow> npktsrecvd m + length (pkts0 m) + POOL_SIZE = np - npkts2send m)
      | _ \<Rightarrow> (0 < npkts2send m \<longrightarrow> npktsrecvd m + POOL_SIZE = np - npkts2send m)) \<and>
     (at0 m = Done \<longrightarrow> np \<le> npktsrecvd m)"

definition sorted_queues :: "('q \<Rightarrow> nat multiset) \<Rightarrow> 'q shared \<Rightarrow> bool" where
  "sorted_queues C s \<longleftrightarrow> (\<forall>p\<in>#C (q1c s). \<not> bad (hdrs s) p) \<and> (\<forall>p\<in>#C (q1m s). bad (hdrs s) p)"

definition waiting :: "('q \<Rightarrow> nat multiset) \<Rightarrow> 'q shared \<Rightarrow> nat multiset" where
  "waiting C s = C (q01 s) + C (q1c s) + C (q1m s)"

definition held :: "'q firewall \<Rightarrow> nat multiset" where
  "held f = sum_list (map held1 (stages1 f)) + uncounted2 (correct2 f) + uncounted2 (mistake2 f)"

definition stage2_of :: "side \<Rightarrow> 'q firewall \<Rightarrow> stage2" where
  "stage2_of d f = (case d of Correct \<Rightarrow> correct2 f | Mistake \<Rightarrow> mistake2 f)"

definition set_stage2 :: "side \<Rightarrow> 'q shared \<Rightarrow> stage2 \<Rightarrow> 'q firewall \<Rightarrow> 'q firewall" where
  "set_stage2 d s t f =
     (case d of Correct \<Rightarrow> f\<lparr>sh := s, correct2 := t\<rparr> | Mistake \<Rightarrow> f\<lparr>sh := s, mistake2 := t\<rparr>)"

definition returning :: "'q firewall \<Rightarrow> nat multiset" where
  "returning f = counted2 (correct2 f) + counted2 (mistake2 f)"

text \<open>What is left of a batch, before and after its next element is pushed.\<close>

lemma drop_at: "j < length xs \<Longrightarrow> mset (drop j xs) = add_mset (xs ! j) (mset (drop (Suc j) xs))"
  by (simp add: Cons_nth_drop_Suc [symmetric])

lemma set_drop_at: "j < length xs \<Longrightarrow> set (drop j xs) = insert (xs ! j) (set (drop (Suc j) xs))"
  by (simp add: Cons_nth_drop_Suc [symmetric])

section \<open>Steps of the threads\<close>

locale packet_queue = message_queue Q contents
  for Q :: "('q, nat) queue_ops" and contents
begin

lemma stage1_flow:
  assumes "stage1_step Q k (s, t) = (s', t')" "stage1_ok (hdrs s) t"
  shows "waiting contents s' + held1 t' = waiting contents s + held1 t"
proof (cases "at1 t")
  case (Gather1 n)
  then show ?thesis
    using assms
    by (cases n) (auto simp: stage1_step_def place_defs waiting_def pop_contents split: option.splits)
next
  case Classify1
  then show ?thesis
    using assms by (auto simp: stage1_step_def place_defs waiting_def classify_def Let_def filter_empty_conv filter_all)
next
  case (Push_correct j)
  then show ?thesis
    using assms
    by (auto simp: stage1_step_def place_defs waiting_def stage1_ok_def push_contents drop_at
        split: option.splits if_splits)
next
  case (Push_mistakes j)
  then show ?thesis
    using assms
    by (auto simp: stage1_step_def place_defs waiting_def stage1_ok_def push_contents drop_at
        gather1_def next1_def split: option.splits if_splits)
next
  case Mistakes
  then show ?thesis
    using assms
    by (auto simp: stage1_step_def place_defs mistakes_def gather1_def next1_def
        stage1_ok_def MISTAKE_GATHER_RETRY_def BULK_SIZE_def)
qed (use assms in \<open>auto simp: stage1_step_def place_defs waiting_def gather1_def split: if_splits\<close>)

lemma stage1_frame:
  assumes "stage1_step Q k (s, t) = (s', t')"
  shows "hdrs s' = hdrs s" "qp0 s' = qp0 s" "num_correct s' = num_correct s"
    "num_mistake s' = num_mistake s"
  using assms
  by (auto simp: stage1_step_def split: pc1.splits nat.splits option.splits prod.splits if_splits)


lemma stage1_keeps:
  assumes "stage1_step Q k (s, t) = (s', t')" "stage1_ok (hdrs s) t" "sorted_queues contents s"
  shows "stage1_ok (hdrs s') t' \<and> sorted_queues contents s'"
proof (cases "at1 t")
  case (Gather1 n)
  then show ?thesis
    using assms
    by (cases n)
      (auto simp: stage1_step_def stage1_ok_def good1_def bad1_def sorted_queues_def
        split: option.splits if_splits)
next
  case Classify1
  then show ?thesis
    using assms
    by (auto simp: stage1_step_def stage1_ok_def good1_def bad1_def classify_def Let_def split: if_splits)
next
  case (Push_correct j)
  then show ?thesis
    using assms
    by (cases "q_push Q (pktsc t ! j) (q1c s)", simp add: stage1_step_def)
      (auto simp: stage1_step_def stage1_ok_def good1_def bad1_def sorted_queues_def push_contents
        set_drop_at [of j "pktsc t"] split: option.splits if_splits)
next
  case (Push_mistakes j)
  then show ?thesis
    using assms
    by (cases "q_push Q (pktsm t ! j) (q1m s)", simp add: stage1_step_def)
      (auto simp: stage1_step_def stage1_ok_def good1_def bad1_def sorted_queues_def push_contents
        set_drop_at [of j "pktsm t"] gather1_def next1_def split: option.splits if_splits)
next
  case Mistakes
  then show ?thesis
    using assms
    by (auto simp: stage1_step_def stage1_ok_def good1_def bad1_def mistakes_def gather1_def next1_def
        MISTAKE_GATHER_RETRY_def BULK_SIZE_def split: if_splits)
qed (use assms in \<open>auto simp: stage1_step_def stage1_ok_def good1_def bad1_def gather1_def
      sorted_queues_def split: if_splits\<close>)

lemma stage2_frame:
  assumes "stage2_step d Q k (s, t) = (s', t')"
  shows "hdrs s' = hdrs s" "q01 s' = q01 s"
    "num_correct s' = (if d = Correct \<and> at2 t = Check2 \<and> done_flag s then cnt_sum t else num_correct s)"
    "num_mistake s' = (if d = Mistake \<and> at2 t = Check2 \<and> done_flag s then cnt_sum t else num_mistake s)"
  using assms
  by (auto simp: stage2_step_def set_source_def publish_def
      split: pc2.splits nat.splits option.splits prod.splits if_splits side.splits)

lemma stage2_keeps:
  assumes "stage2_step d Q k (s, t) = (s', t')" "stage2_ok d s t" "sorted_queues contents s"
  shows "stage2_ok d s' t' \<and> sorted_queues contents s'"
proof (cases "at2 t")
  case (Gather2 n)
  then show ?thesis
    using assms
    by (cases n; cases d)
      (auto simp: stage2_step_def stage2_ok_def uncounted2_def sorted_queues_def source_def
        set_source_def pop_contents split: option.splits if_splits)
next
  case (Push2 j)
  then show ?thesis
    using assms
    by (auto simp: stage2_step_def stage2_ok_def uncounted2_def sorted_queues_def gather2_def
        split: option.splits if_splits)
qed (use assms in \<open>auto simp: stage2_step_def stage2_ok_def uncounted2_def sorted_queues_def
      gather2_def publish_def split: if_splits side.splits\<close>)

lemma stage1_ok_cong:
  "\<forall>p\<in>#held1 t. hs' ! p = hs ! p \<Longrightarrow> stage1_ok hs' t = stage1_ok hs t"
  by (simp add: stage1_ok_def held1_def)

lemma stage2_ok_frame:
  "hdrs s' = hdrs s \<Longrightarrow> num_correct s' = num_correct s \<Longrightarrow> num_mistake s' = num_mistake s \<Longrightarrow>
   stage2_ok d s' t = stage2_ok d s t"
  by (auto simp: stage2_ok_def split: pc2.splits side.splits)

text \<open>A batch is counted as a whole; every other step only moves packets.\<close>

lemma stage2_flow:
  assumes "stage2_step d Q k (s, t) = (s', t')" "stage2_ok d s t"
  shows "waiting contents s + uncounted2 t =
      waiting contents s' + uncounted2 t' + (if at2 t = Count2 then mset (pkts2 t) else {#})"
    "contents (qp0 s') + counted2 t' =
      contents (qp0 s) + counted2 t + (if at2 t = Count2 then mset (pkts2 t) else {#})"
    "cnt_sum t' = cnt_sum t + (if at2 t = Count2 then length (pkts2 t) else 0)"
proof -
  let ?P = "waiting contents s + uncounted2 t =
      waiting contents s' + uncounted2 t' + (if at2 t = Count2 then mset (pkts2 t) else {#}) \<and>
    contents (qp0 s') + counted2 t' =
      contents (qp0 s) + counted2 t + (if at2 t = Count2 then mset (pkts2 t) else {#}) \<and>
    cnt_sum t' = cnt_sum t + (if at2 t = Count2 then length (pkts2 t) else 0)"
  have ?P
  proof (cases "at2 t")
    case (Gather2 n)
    then show ?thesis
      using assms(1)
      by (cases n; cases d)
        (auto simp: stage2_step_def place_defs waiting_def source_def set_source_def pop_contents
          split: option.splits)
  next
    case (Push2 j)
    then show ?thesis
      using assms
      by (auto simp: stage2_step_def place_defs waiting_def stage2_ok_def gather2_def push_contents
          drop_at split: option.splits if_splits)
  qed (use assms(1) in \<open>auto simp: stage2_step_def place_defs waiting_def gather2_def publish_def
        split: if_splits side.splits\<close>)
  then show "waiting contents s + uncounted2 t =
      waiting contents s' + uncounted2 t' + (if at2 t = Count2 then mset (pkts2 t) else {#})"
    "contents (qp0 s') + counted2 t' =
      contents (qp0 s) + counted2 t + (if at2 t = Count2 then mset (pkts2 t) else {#})"
    "cnt_sum t' = cnt_sum t + (if at2 t = Count2 then length (pkts2 t) else 0)"
    by blast+
qed


text \<open>The main thread: what it has received is never more than what was sent.\<close>

lemma produced_le: "main_ok np m \<Longrightarrow> POOL_SIZE \<le> np \<Longrightarrow> produced np m \<le> np"
  by (auto simp: main_ok_def produced_def cnt2send_def split: pc0.splits)

lemma pow_8_16: "8 dvd (2 :: nat) ^ 16"
  by simp

lemma sum_list_nothing: "sum_list (replicate n {#}) = {#}"
  by (induction n) simp_all

definition main_inv :: "nat \<Rightarrow> 'q shared \<Rightarrow> main0 \<Rightarrow> nat multiset \<Rightarrow> nat multiset \<Rightarrow> nat \<Rightarrow> nat \<Rightarrow> bool" where
  "main_inv np s m W V c x \<longleftrightarrow> main_ok np m \<and>
     ledger (hdrs s) (waiting contents s + W + sending0 m) (contents (qp0 s) + V + idle0 m) c x
       (produced np m) \<and>
     c + x = npktsrecvd m + size (contents (qp0 s) + V) + uncredited0 m"

lemma main_keeps:
  assumes step: "main_step Q k np (s, m) = (s', m')" and np: "POOL_SIZE \<le> np" "np < 2 ^ 64"
    and inv: "main_inv np s m W V c x"
  shows "main_inv np s' m' W V c x"
proof -
  have ok: "main_ok np m"
    and led: "ledger (hdrs s) (waiting contents s + W + sending0 m)
        (contents (qp0 s) + V + idle0 m) c x (produced np m)"
    and cr: "c + x = npktsrecvd m + size (contents (qp0 s) + V) + uncredited0 m"
    using inv by (auto simp: main_inv_def)
  have le: "npktsrecvd m + uncredited0 m \<le> np"
    using led cr produced_le [OF ok np(1)] by (auto simp: ledger_def)
  show ?thesis
  proof (cases "at0 m")
    case (Fill i)
    then show ?thesis
    proof (cases "i < POOL_SIZE")
      case True
      then have i: "8 dvd i" "i + 8 \<le> POOL_SIZE"
        using ok Fill by (auto simp: main_ok_def POOL_SIZE_def elim!: dvdE)
      let ?p = "[i..<i + 8]"
      have "mset [i..<POOL_SIZE] = mset ?p + mset [i + 8..<POOL_SIZE]"
        using i(2) by (metis le_add1 mset_append upt_add_eq_append le_add_diff_inverse)
      then have "ledger (hdrs s) (waiting contents s + W)
          (mset ?p + (contents (qp0 s) + V + mset [i + 8..<POOL_SIZE])) c x i"
        using led Fill by (simp add: sending0_def idle0_def produced_def add_ac)
      from ledger_produce [OF this refl] show ?thesis
        using step ok i cr Fill True
        by (auto simp: main_inv_def main_step_def main_ok_def Let_def place_defs waiting_def BULK_SIZE_def
            min_def add_ac)
    qed (use step inv in \<open>auto simp: main_inv_def main_step_def main_ok_def place_defs\<close>)
  next
    case (Push_init i j)
    then show ?thesis
      using step inv
      by (auto simp: main_inv_def main_step_def main_ok_def place_defs waiting_def push_contents drop_at
          add_mset_commute split: option.splits if_splits)
  next
    case Await
    then show ?thesis
      using step inv np
      by (auto simp: main_inv_def main_step_def main_ok_def place_defs waiting_def POOL_SIZE_def mod_if
          split: if_splits)
  next
    case Loop
    then show ?thesis
      using step inv
      by (auto simp: main_inv_def main_step_def main_ok_def place_defs waiting_def split: if_splits)
  next
    case (Gather0 n)
    then show ?thesis
      using step inv
      by (cases n) (auto simp: main_inv_def main_step_def main_ok_def place_defs waiting_def pop_contents
          split: option.splits)
  next
    case Recycle
    let ?c = "cnt2send m"
    have D: "ledger (hdrs s) (waiting contents s + W)
        (mset (take ?c (pkts0 m)) + (contents (qp0 s) + V + mset (drop ?c (pkts0 m)))) c x
        (np - npkts2send m)"
    proof -
      have "mset (pkts0 m) = mset (take ?c (pkts0 m)) + mset (drop ?c (pkts0 m))"
        by (simp flip: mset_append)
      then show ?thesis
        using led Recycle by (simp add: sending0_def idle0_def produced_def add_ac)
    qed
    show ?thesis
    proof (cases "?c = 0")
      case True
      then show ?thesis
        using step ok Recycle D cr
        by (auto simp: main_inv_def main_step_def main_ok_def place_defs cnt2send_def split: if_splits
            intro: ledger_drop)
    next
      case False
      then have "npktsrecvd m + POOL_SIZE = np - npkts2send m"
        using ok Recycle by (auto simp: main_ok_def cnt2send_def split: if_splits)
      moreover have "(r + POOL_SIZE) mod 8 = r mod 8" for r
        unfolding POOL_SIZE_def by presburger
      ultimately have "npktsrecvd m mod 2 ^ 16 mod 8 = (np - npkts2send m) mod 8"
        using mod_mod_cancel [of 8 "2 ^ 16" "npktsrecvd m"] by (metis pow_8_16)
      from ledger_drop [OF ledger_produce [OF D this, unfolded add.assoc [symmetric]]]
      show ?thesis
        using step ok Recycle False cr
        by (auto simp: main_inv_def main_step_def main_ok_def place_defs waiting_def cnt2send_def add_ac
            split: if_splits)
    qed
  next
    case (Push0 j)
    then show ?thesis
      using step inv
      by (auto simp: main_inv_def main_step_def main_ok_def place_defs waiting_def push_contents drop_at
          add_mset_commute cnt2send_def split: option.splits if_splits)
  next
    case Count0
    then show ?thesis
      using step inv le np
      by (auto simp: main_inv_def main_step_def main_ok_def place_defs)
  next
    case Done
    then show ?thesis using step inv by (simp add: main_step_def)
  qed
qed


section \<open>The whole program\<close>

definition firewall_inv :: "nat \<Rightarrow> 'q firewall \<Rightarrow> bool" where
  "firewall_inv np f \<longleftrightarrow>
     main_inv np (sh f) (main f) (held f) (returning f) (cnt_sum (correct2 f)) (cnt_sum (mistake2 f)) \<and>
     (\<forall>t\<in>set (stages1 f). stage1_ok (hdrs (sh f)) t) \<and> stage2_ok Correct (sh f) (correct2 f) \<and>
     stage2_ok Mistake (sh f) (mistake2 f) \<and> sorted_queues contents (sh f)"

lemma inv_start:
  assumes "length hs = POOL_SIZE"
  shows "firewall_inv np (firewall_start Q n hs)"
  using assms
  by (auto simp: firewall_inv_def firewall_start_def main_inv_def main_ok_def ledger_def held_def
      returning_def place_defs waiting_def contents_empty new_stage1_def new_stage2_def stage1_ok_def
      stage2_ok_def sorted_queues_def sum_list_nothing mset_upt lessThan_atLeast0)

lemma inv_stage1:
  assumes inv: "firewall_inv np f" and i: "i < length (stages1 f)"
    and step: "stage1_step Q k (sh f, stages1 f ! i) = (s', t')"
  shows "firewall_inv np (f\<lparr>sh := s', stages1 := (stages1 f)[i := t']\<rparr>)"
proof -
  let ?f = "f\<lparr>sh := s', stages1 := (stages1 f)[i := t']\<rparr>"
  have ok: "stage1_ok (hdrs (sh f)) (stages1 f ! i)" and sq: "sorted_queues contents (sh f)"
    using inv i by (auto simp: firewall_inv_def)
  note frame = stage1_frame [OF step] and keeps = stage1_keeps [OF step ok sq]
  have "sum_list (map held1 ((stages1 f)[i := t'])) + waiting contents s' + held1 (stages1 f ! i) =
      sum_list (map held1 (stages1 f)) + waiting contents (sh f) + held1 (stages1 f ! i)"
    using sum_list_update_mset [OF i, of held1 t'] stage1_flow [OF step ok] by (metis add.assoc add.commute)
  then have flow: "waiting contents s' + held ?f = waiting contents (sh f) + held f"
    by (simp add: held_def add_ac)
  have "\<forall>t\<in>set ((stages1 f)[i := t']). stage1_ok (hdrs s') t"
    using inv keeps frame set_update_subset_insert [of "stages1 f" i t']
    by (auto simp: firewall_inv_def)
  then show ?thesis
    using inv keeps frame flow
    by (simp add: firewall_inv_def main_inv_def returning_def stage2_ok_frame [OF frame(1,3,4)])
qed

lemma stage2_counts:
  assumes inv: "firewall_inv np f"
    and step: "stage2_step d Q k (sh f, stage2_of d f) = (s', t')" and f': "f' = set_stage2 d s' t' f"
  shows "firewall_inv np f'"
proof -
  let ?t = "stage2_of d f"
  let ?X = "if at2 ?t = Count2 then mset (pkts2 ?t) else {#}"
  have ok: "stage2_ok d (sh f) ?t" and sq: "sorted_queues contents (sh f)"
    using inv by (cases d; simp add: firewall_inv_def stage2_of_def)+
  note frame = stage2_frame [OF step] and keeps = stage2_keeps [OF step ok sq]
    and flow = stage2_flow [OF step ok]
  have X: "\<forall>p\<in>#?X. bad (hdrs (sh f)) p \<longleftrightarrow> d = Mistake"
    using ok by (auto simp: stage2_ok_def uncounted2_def)
  have up: "waiting contents (sh f) + held f = waiting contents s' + held f' + ?X"
    using flow(1) by (cases d) (simp_all add: held_def add_ac f' set_stage2_def stage2_of_def)
  have dn: "contents (qp0 s') + returning f' = contents (qp0 (sh f)) + returning f + ?X"
    using flow(2) by (cases d) (simp_all add: returning_def add_ac f' set_stage2_def stage2_of_def)
  have "ledger (hdrs (sh f)) (waiting contents (sh f) + held f + sending0 (main f))
      (contents (qp0 (sh f)) + returning f + idle0 (main f)) (cnt_sum (correct2 f))
      (cnt_sum (mistake2 f)) (produced np (main f))"
    using inv by (simp add: firewall_inv_def main_inv_def)
  then have led: "ledger (hdrs (sh f)) ((waiting contents s' + held f' + sending0 (main f)) + ?X)
      (contents (qp0 (sh f)) + returning f + idle0 (main f)) (cnt_sum (correct2 f))
      (cnt_sum (mistake2 f)) (produced np (main f))"
    unfolding up by (simp add: add_ac)
  have cnt: "cnt_sum t' = cnt_sum ?t + size ?X"
    using flow(3) by simp
  have "ledger (hdrs (sh f)) (waiting contents s' + held f' + sending0 (main f))
      (contents (qp0 s') + returning f' + idle0 (main f)) (cnt_sum (correct2 f'))
      (cnt_sum (mistake2 f')) (produced np (main f))"
  proof (cases d)
    case Correct
    then show ?thesis
      using ledger_correct [OF led] X cnt dn
      by (simp add: add_ac f' set_stage2_def stage2_of_def del: set_mset_mset)
  next
    case Mistake
    then show ?thesis
      using ledger_mistake [OF led] X cnt dn
      by (simp add: add_ac f' set_stage2_def stage2_of_def del: set_mset_mset)
  qed
  moreover have "size (contents (qp0 s') + returning f') =
      size (contents (qp0 (sh f)) + returning f) + size ?X"
    unfolding dn by simp
  moreover have "d' \<noteq> d \<Longrightarrow> stage2_ok d' s' u = stage2_ok d' (sh f) u" for d' u
    using frame by (cases d; cases d') (auto simp: stage2_ok_def split: pc2.splits)
  ultimately show ?thesis
    using inv keeps frame cnt
    by (cases d) (simp_all add: firewall_inv_def main_inv_def f' set_stage2_def stage2_of_def)
qed

lemma main_writes:
  assumes "main_step Q k np (s, m) = (s', m')" "main_ok np m"
  shows "\<exists>i xs Y. hdrs s' = write_headers np i xs (hdrs s) \<and> idle0 m = mset xs + Y"
proof (cases "at0 m")
  case (Fill i)
  have "mset [i..<POOL_SIZE] = mset [i..<min (i + BULK_SIZE) POOL_SIZE] + mset [min (i + BULK_SIZE) POOL_SIZE..<POOL_SIZE]"
    if "i < POOL_SIZE"
    using that by (metis mset_append upt_add_eq_append le_add_diff_inverse min.cobounded2 min.boundedI
        le_add1 less_imp_le)
  note split = this
  show ?thesis
  proof (cases "i < POOL_SIZE")
    case True
    then show ?thesis
      using assms Fill split by (fastforce simp: main_step_def idle0_def Let_def)
  next
    case False
    then have "hdrs s' = write_headers np 0 [] (hdrs s) \<and> idle0 m = mset [] + idle0 m"
      using assms Fill by (simp add: main_step_def write_headers_none)
    then show ?thesis by blast
  qed
next
  case Recycle
  have "mset (pkts0 m) = mset (take (cnt2send m) (pkts0 m)) + mset (drop (cnt2send m) (pkts0 m))"
    by (simp flip: mset_append)
  then have "idle0 m = mset (take (cnt2send m) (pkts0 m)) + mset (drop (cnt2send m) (pkts0 m))"
    using Recycle by (simp add: idle0_def)
  moreover have "hdrs s' = write_headers np (npktsrecvd m mod 2 ^ 16) (take (cnt2send m) (pkts0 m)) (hdrs s)"
    using assms Recycle by (auto simp: main_step_def write_headers_none split: if_splits)
  ultimately show ?thesis by blast
qed (use assms in \<open>auto simp: main_step_def split: nat.splits option.splits if_splits
      intro!: exI [of _ "[]"] exI [of _ "idle0 m"] simp: write_headers_none\<close>)

lemma main_frame:
  assumes "main_step Q k np (s, m) = (s', m')"
  shows "q1c s' = q1c s" "q1m s' = q1m s" "num_correct s' = num_correct s" "num_mistake s' = num_mistake s"
  using assms
  by (auto simp: main_step_def Let_def split: pc0.splits nat.splits option.splits prod.splits if_splits)

lemma inv_main:
  assumes inv: "firewall_inv np f" and np: "POOL_SIZE \<le> np" "np < 2 ^ 64"
    and step: "main_step Q k np (sh f, main f) = (s', m')"
  shows "firewall_inv np (f\<lparr>sh := s', main := m'\<rparr>)"
proof -
  let ?f = "f\<lparr>sh := s', main := m'\<rparr>"
  have mi: "main_inv np (sh f) (main f) (held f) (returning f) (cnt_sum (correct2 f)) (cnt_sum (mistake2 f))"
    using inv by (simp add: firewall_inv_def)
  then have ok: "main_ok np (main f)" by (simp add: main_inv_def)
  obtain i xs Y where w: "hdrs s' = write_headers np i xs (hdrs (sh f))" "idle0 (main f) = mset xs + Y"
    using main_writes [OF step ok] by blast
  have "ledger (hdrs (sh f)) (waiting contents (sh f) + held f + sending0 (main f))
      (mset xs + (contents (qp0 (sh f)) + returning f + Y)) (cnt_sum (correct2 f))
      (cnt_sum (mistake2 f)) (produced np (main f))"
    using mi by (simp add: main_inv_def w(2) add_ac)
  note ledger_distinct(3) [OF this]
  then have "p \<in># waiting contents (sh f) + held f \<Longrightarrow> p \<notin> set xs" for p by auto
  then have same: "p \<in># waiting contents (sh f) + held f \<Longrightarrow> hdrs s' ! p = hdrs (sh f) ! p" for p
    using w(1) by simp
  have "held1 t \<subseteq># held f" if "t \<in> set (stages1 f)" for t
    using that by (auto simp: held_def in_set_conv_decomp)
  then have ok1: "stage1_ok (hdrs s') t" if "t \<in> set (stages1 f)" for t
    using that inv same stage1_ok_cong [of t "hdrs s'" "hdrs (sh f)"]
    by (auto simp: firewall_inv_def dest: mset_subset_eqD)
  have "sorted_queues contents s'"
    using inv same main_frame [OF step] by (auto simp: firewall_inv_def sorted_queues_def waiting_def)
  moreover have "stage2_ok d s' (stage2_of d f)" for d
    using inv same main_frame [OF step]
    by (cases d) (auto simp: firewall_inv_def stage2_ok_def stage2_of_def held_def split: pc2.splits)
  from this [of Correct] this [of Mistake]
  have "stage2_ok Correct s' (correct2 f) \<and> stage2_ok Mistake s' (mistake2 f)"
    by (simp add: stage2_of_def)
  ultimately show ?thesis
    using ok1 main_keeps [OF step np mi]
    by (simp add: firewall_inv_def held_def returning_def)
qed

lemma firewall_keeps:
  assumes "firewall_reach Q np n hs f" "length hs = POOL_SIZE" "POOL_SIZE \<le> np" "np < 2 ^ 64"
  shows "firewall_inv np f"
  using assms(1)
proof induction
  case firewall_init
  show ?case by (rule inv_start [OF assms(2)])
next
  case (firewall_next f th)
  show ?case
  proof (cases th)
    case (Stage1 i)
    then show ?thesis
      using firewall_next.IH inv_stage1 [OF firewall_next.IH]
      by (auto simp: firewall_step_def Let_def split: prod.splits)
  next
    case (Stage2 d)
    obtain s' t' where step: "stage2_step d Q (3 + length (stages1 f)) (sh f, stage2_of d f) = (s', t')"
      by fastforce
    have "firewall_step Q np th f = set_stage2 d s' t' f"
      using step Stage2 by (cases d) 
        (simp_all add: firewall_step_def set_stage2_def stage2_of_def stage2correct_def stage2mistake_def)
    then show ?thesis
      using stage2_counts [OF firewall_next.IH step] by simp
  next
    case Main
    then show ?thesis
      using inv_main [OF firewall_next.IH assms(3,4)]
      by (auto simp: firewall_step_def Let_def split: prod.splits)
  qed
qed

text \<open>When the main thread is done, nothing is on its way.\<close>

lemma done_exact:
  assumes inv: "firewall_inv np f" and np: "POOL_SIZE \<le> np" and d: "at0 (main f) = Done"
  shows "cnt_sum (mistake2 f) = (np + 7) div 8" "cnt_sum (correct2 f) + cnt_sum (mistake2 f) = np"
    "t \<in> set (stages1 f) \<Longrightarrow> held1 t = {#}"
proof -
  have mi: "main_inv np (sh f) (main f) (held f) (returning f) (cnt_sum (correct2 f)) (cnt_sum (mistake2 f))"
    using inv by (simp add: firewall_inv_def)
  then have ok: "main_ok np (main f)" by (simp add: main_inv_def)
  have le: "produced np (main f) \<le> np" by (rule produced_le [OF ok np])
  let ?U = "waiting contents (sh f) + held f + sending0 (main f)"
  have led: "ledger (hdrs (sh f)) ?U (contents (qp0 (sh f)) + returning f + idle0 (main f))
      (cnt_sum (correct2 f)) (cnt_sum (mistake2 f)) (produced np (main f))"
    and "npktsrecvd (main f) \<le> cnt_sum (correct2 f) + cnt_sum (mistake2 f)"
    using mi by (simp_all add: main_inv_def)
  moreover have "np \<le> npktsrecvd (main f)" using ok d by (simp add: main_ok_def)
  ultimately have "size ?U = 0" and all: "produced np (main f) = np"
    using le unfolding ledger_def by linarith+
  then have U: "?U = {#}" by simp
  show "cnt_sum (mistake2 f) = (np + 7) div 8" "cnt_sum (correct2 f) + cnt_sum (mistake2 f) = np"
    using led unfolding U all by (simp_all add: ledger_def)
  show "t \<in> set (stages1 f) \<Longrightarrow> held1 t = {#}"
    using U by (auto simp: held_def in_set_conv_decomp)
qed

end


text \<open>The laws the proofs use hold for the queues of \<open>Queues\<close>.\<close>

interpretation packets: packet_queue "bounded_queue cap" mset for cap
  by unfold_locales

definition under_way :: "('q \<Rightarrow> nat multiset) \<Rightarrow> 'q firewall \<Rightarrow> nat multiset" where
  "under_way C f = waiting C (sh f) + held f + sending0 (main f)"

text \<open>
  C6: in every interleaving of any number of stage 1 threads, over any queues that keep messages,
  each packet sent is counted or under way exactly once, the wrong ones by \<open>mistake\<close> only, and
  no header is in two places.\<close>

theorem firewall_accounts:
  assumes "message_queue Q C" "firewall_reach Q np n hs f" "length hs = POOL_SIZE"
    and "POOL_SIZE \<le> np" "np < 2 ^ 64"
  shows "cnt_sum (correct2 f) + cnt_sum (mistake2 f) + size (under_way C f) = produced np (main f) \<and>
    cnt_sum (mistake2 f) + size (filter_mset (bad (hdrs (sh f))) (under_way C f)) =
      (produced np (main f) + 7) div 8 \<and>
    under_way C f + C (qp0 (sh f)) + returning f + idle0 (main f) \<subseteq># mset_set {..<POOL_SIZE}"
  using packet_queue.firewall_keeps [OF packet_queue.intro [OF assms(1)] assms(2-5)]
    packet_queue.firewall_inv_def [OF packet_queue.intro [OF assms(1)]]
    packet_queue.main_inv_def [OF packet_queue.intro [OF assms(1)]]
  by (simp add: under_way_def ledger_def add_ac)

text \<open>A run given by the threads that take the steps.\<close>

definition firewall_run :: "('q, nat) queue_ops \<Rightarrow> nat \<Rightarrow> thread list \<Rightarrow> 'q firewall \<Rightarrow> 'q firewall" where
  "firewall_run Q np ths f = fold (firewall_step Q np) ths f"

lemma run_reach: "firewall_reach Q np n hs f \<Longrightarrow> firewall_reach Q np n hs (firewall_run Q np ths f)"
  unfolding firewall_run_def by (induction ths arbitrary: f) (auto intro: firewall_next)

definition no_header :: header where
  "no_header =
     \<lparr>srcIP = 0, dstIP = 0, checksumIP = 0, srcPort = 0, dstPort = 0, checksumTCP = 0\<rparr>"

definition sample_firewall :: "nat list firewall" where
  "sample_firewall =
     firewall_run (bounded_queue 448) 100 (replicate 12 Main)
       (firewall_start (bounded_queue 448) 2 (replicate POOL_SIZE no_header))"

lemma sample_reach:
  "firewall_reach (bounded_queue 448) 100 2 (replicate POOL_SIZE no_header) sample_firewall"
  unfolding sample_firewall_def by (rule run_reach) (rule firewall_init)

lemma sample_produced: "produced 100 (main sample_firewall) = 16"
  by code_simp

lemma firewall_accounts_witness:
  "cnt_sum (correct2 sample_firewall) + cnt_sum (mistake2 sample_firewall) +
     size (under_way mset sample_firewall) = 16 \<and>
   cnt_sum (mistake2 sample_firewall) +
     size (filter_mset (bad (hdrs (sh sample_firewall))) (under_way mset sample_firewall)) = 2"
  using firewall_accounts [OF bounded.message_queue_axioms [of 448] sample_reach]
  by (simp add: sample_produced POOL_SIZE_def)

end
