(* ===== verification/Pipeline.thy ===== *)
theory Pipeline
  imports Firewall
begin

text \<open>
  The four-stage pipeline of \<^verbatim>\<open>apps/network/pipeline.cpp\<close>: \<open>stage0\<close> takes packet headers
  from a pool and fills them in, any number of \<open>stage1\<close> threads look at the IP header, any number
  of \<open>stage2\<close> threads at the TCP header, and the main thread counts what arrives and gives the
  headers back to the pool. The queues hold indices of headers; their operations are the parameter
  \<open>Q\<close>. A step of a thread is one operation on a queue, on the start barrier, on the \<open>done\<close> flag or
  on one header, with the local work that follows it.
\<close>

section \<open>Headers\<close>

text \<open>The source adds \<open>j\<close> to \<open>i\<close> in the source address only; the checksum is cut to 16 bits.\<close>

definition packet :: "nat \<Rightarrow> nat \<Rightarrow> nat \<Rightarrow> header" where
  "packet np i j =
     (let src = of_nat (i + j) :: u32; dst = ucast (NOT (of_nat i :: u64)) :: u32; port = of_nat np :: u16 in
      \<lparr>srcIP = src, dstIP = dst, checksumIP = ucast (src XOR dst),
       srcPort = port, dstPort = port, checksumTCP = port XOR port\<rparr>)"

definition ip_differs :: "header \<Rightarrow> bool" where
  "ip_differs h \<longleftrightarrow> ucast (checksumIP h) \<noteq> srcIP h XOR dstIP h"

definition tcp_differs :: "header \<Rightarrow> bool" where
  "tcp_differs h \<longleftrightarrow> checksumTCP h \<noteq> srcPort h XOR dstPort h"

text \<open>Which of \<^verbatim>\<open>STAGE1_READ\<close>, \<^verbatim>\<open>STAGE1_WRITE\<close>, \<^verbatim>\<open>STAGE2_READ\<close>, \<^verbatim>\<open>STAGE2_WRITE\<close> is defined.\<close>

record pipe_config =
  read1 :: bool
  write1 :: bool
  read2 :: bool
  write2 :: bool

section \<open>State\<close>

record 'q pipes =
  p01 :: 'q
  p12 :: 'q
  p23 :: 'q
  p30 :: 'q
  headers :: "header list"
  arrived :: nat
  pipe_done :: bool

datatype at_producer = PArrive | PWait | PLoop | PGather nat | PWrite nat | PForward nat | PExit

record producer =
  p_at :: at_producer
  p_pkts :: "nat list"
  p_i :: nat

datatype at_hop = HArrive | HWait | HGather nat | HWork nat | HForward nat | HLook | HExit

record hop =
  h_at :: at_hop
  h_pkts :: "nat list"
  h_corrupted :: u64

datatype at_receiver = RAwait | RFill nat | RPush_init nat nat | RLoop | RGather nat | RRecycle
  | RPush nat | RCount | RDone

text \<open>\<open>r_2send\<close> counts bytes, eight for a pointer.\<close>

record receiver =
  r_at :: at_receiver
  r_pkts :: "nat list"
  r_2send :: nat
  r_recvd :: nat

section \<open>Stage 0\<close>

definition stage0_step ::
  "('q, nat) queue_ops \<Rightarrow> nat \<Rightarrow> nat \<Rightarrow> 'q pipes \<times> producer \<Rightarrow> 'q pipes \<times> producer" where
  "stage0_step Q threads np = (\<lambda>(s, t).
     case p_at t of
       PArrive \<Rightarrow> (s\<lparr>arrived := arrived s + 1\<rparr>, t\<lparr>p_at := PWait\<rparr>)
     | PWait \<Rightarrow> (s, if threads = arrived s then t\<lparr>p_at := PLoop\<rparr> else t)
     | PLoop \<Rightarrow>
         (s, if p_i t < np then t\<lparr>p_at := PGather BULK_SIZE, p_pkts := []\<rparr> else t\<lparr>p_at := PExit\<rparr>)
     | PGather 0 \<Rightarrow> (s, t\<lparr>p_at := (if p_pkts t \<noteq> [] then PWrite 0 else PLoop)\<rparr>)
     | PGather (Suc n) \<Rightarrow>
         (case q_pop Q (p30 s) of
            None \<Rightarrow> (s, t\<lparr>p_at := PGather n\<rparr>)
          | Some (p, q) \<Rightarrow> (s\<lparr>p30 := q\<rparr>, t\<lparr>p_at := PGather n, p_pkts := p_pkts t @ [p]\<rparr>))
     | PWrite j \<Rightarrow>
         if j < length (p_pkts t) then
           (s\<lparr>headers := (headers s)[p_pkts t ! j := packet np (p_i t) j]\<rparr>, t\<lparr>p_at := PWrite (j + 1)\<rparr>)
         else (s, t\<lparr>p_at := PForward 0\<rparr>)
     | PForward j \<Rightarrow>
         (case q_push Q (p_pkts t ! j) (p01 s) of
            None \<Rightarrow> (s, t)
          | Some q \<Rightarrow>
              (s\<lparr>p01 := q\<rparr>,
               if j + 1 < length (p_pkts t) then t\<lparr>p_at := PForward (j + 1)\<rparr>
               else t\<lparr>p_at := PLoop, p_i := (p_i t + length (p_pkts t)) mod 2 ^ 64\<rparr>))
     | PExit \<Rightarrow> (s, t))"

section \<open>Stages 1 and 2\<close>

datatype hop_id = First | Second

definition inlet :: "hop_id \<Rightarrow> 'q pipes \<Rightarrow> 'q" where
  "inlet d s = (case d of First \<Rightarrow> p01 s | Second \<Rightarrow> p12 s)"

definition set_inlet :: "hop_id \<Rightarrow> 'q \<Rightarrow> 'q pipes \<Rightarrow> 'q pipes" where
  "set_inlet d q s = (case d of First \<Rightarrow> s\<lparr>p01 := q\<rparr> | Second \<Rightarrow> s\<lparr>p12 := q\<rparr>)"

definition outlet :: "hop_id \<Rightarrow> 'q pipes \<Rightarrow> 'q" where
  "outlet d s = (case d of First \<Rightarrow> p12 s | Second \<Rightarrow> p23 s)"

definition set_outlet :: "hop_id \<Rightarrow> 'q \<Rightarrow> 'q pipes \<Rightarrow> 'q pipes" where
  "set_outlet d q s = (case d of First \<Rightarrow> s\<lparr>p12 := q\<rparr> | Second \<Rightarrow> s\<lparr>p23 := q\<rparr>)"

text \<open>One packet is looked at: the count of corrupted packets, and what is written back.\<close>

definition inspect :: "pipe_config \<Rightarrow> hop_id \<Rightarrow> header \<Rightarrow> u64 \<Rightarrow> u64" where
  "inspect cf d h c =
     (case d of
        First \<Rightarrow> if read1 cf \<and> ip_differs h then c + 1 else c
      | Second \<Rightarrow> if read2 cf \<and> tcp_differs h then c + 1 else c)"

definition stamp :: "pipe_config \<Rightarrow> hop_id \<Rightarrow> u64 \<Rightarrow> header \<Rightarrow> header" where
  "stamp cf d c h =
     (case d of
        First \<Rightarrow> if write1 cf then h\<lparr>checksumIP := ucast c\<rparr> else h
      | Second \<Rightarrow> if write2 cf then h\<lparr>checksumTCP := ucast c\<rparr> else h)"

definition hop_gather :: "hop \<Rightarrow> hop" where
  "hop_gather t = t\<lparr>h_at := HGather BULK_SIZE, h_pkts := []\<rparr>"

definition hop_step ::
  "pipe_config \<Rightarrow> hop_id \<Rightarrow> ('q, nat) queue_ops \<Rightarrow> nat \<Rightarrow> 'q pipes \<times> hop \<Rightarrow> 'q pipes \<times> hop" where
  "hop_step cf d Q threads = (\<lambda>(s, t).
     case h_at t of
       HArrive \<Rightarrow> (s\<lparr>arrived := arrived s + 1\<rparr>, t\<lparr>h_at := HWait\<rparr>)
     | HWait \<Rightarrow> (s, if threads = arrived s then hop_gather t else t)
     | HGather 0 \<Rightarrow> (s, t\<lparr>h_at := (if h_pkts t \<noteq> [] then HWork 0 else HLook)\<rparr>)
     | HGather (Suc n) \<Rightarrow>
         (case q_pop Q (inlet d s) of
            None \<Rightarrow> (s, t\<lparr>h_at := HGather n\<rparr>)
          | Some (p, q) \<Rightarrow> (set_inlet d q s, t\<lparr>h_at := HGather n, h_pkts := h_pkts t @ [p]\<rparr>))
     | HWork k \<Rightarrow>
         if k < length (h_pkts t) then
           let p = h_pkts t ! k; c = inspect cf d (headers s ! p) (h_corrupted t) in
           (s\<lparr>headers := (headers s)[p := stamp cf d c (headers s ! p)]\<rparr>,
            t\<lparr>h_at := HWork (k + 1), h_corrupted := c\<rparr>)
         else (s, t\<lparr>h_at := HForward 0\<rparr>)
     | HForward j \<Rightarrow>
         (case q_push Q (h_pkts t ! j) (outlet d s) of
            None \<Rightarrow> (s, t)
          | Some q \<Rightarrow>
              (set_outlet d q s,
               if j + 1 < length (h_pkts t) then t\<lparr>h_at := HForward (j + 1)\<rparr> else hop_gather t))
     | HLook \<Rightarrow> (s, if pipe_done s then t\<lparr>h_at := HExit\<rparr> else hop_gather t)
     | HExit \<Rightarrow> (s, t))"

text \<open>The two functions are the same code over their own queues and header.\<close>

definition pipe_stage1 ::
  "pipe_config \<Rightarrow> ('q, nat) queue_ops \<Rightarrow> nat \<Rightarrow> 'q pipes \<times> hop \<Rightarrow> 'q pipes \<times> hop" where
  "pipe_stage1 cf = hop_step cf First"

definition pipe_stage2 ::
  "pipe_config \<Rightarrow> ('q, nat) queue_ops \<Rightarrow> nat \<Rightarrow> 'q pipes \<times> hop \<Rightarrow> 'q pipes \<times> hop" where
  "pipe_stage2 cf = hop_step cf Second"

section \<open>The main thread\<close>

definition bytes2send :: "receiver \<Rightarrow> nat" where
  "bytes2send m = (if 8 * length (r_pkts m) < r_2send m then 8 * length (r_pkts m) else r_2send m)"

text \<open>
  The subtraction in the first value of \<open>ncnt2send\<close> and the product with the size of a pointer wrap
  around. Pointers are gathered in the loop only, so \<open>pkts\<close> is empty when nothing was received.
\<close>

definition receiver_step ::
  "('q, nat) queue_ops \<Rightarrow> nat \<Rightarrow> nat \<Rightarrow> 'q pipes \<times> receiver \<Rightarrow> 'q pipes \<times> receiver" where
  "receiver_step Q threads np = (\<lambda>(s, m).
     case r_at m of
       RAwait \<Rightarrow>
         if threads = arrived s + 1 then (s\<lparr>arrived := arrived s + 1\<rparr>, m\<lparr>r_at := RFill 0\<rparr>) else (s, m)
     | RFill i \<Rightarrow>
         (s, if i < POOL_SIZE then
               m\<lparr>r_pkts := [i..<min (i + BULK_SIZE) POOL_SIZE], r_at := RPush_init i 0\<rparr>
             else
               m\<lparr>r_2send := ((np + 2 ^ 64 - POOL_SIZE) * 8) mod 2 ^ 64, r_recvd := 0, r_at := RLoop\<rparr>)
     | RPush_init i j \<Rightarrow>
         (case q_push Q (r_pkts m ! j) (p30 s) of
            None \<Rightarrow> (s, m)
          | Some q \<Rightarrow>
              (s\<lparr>p30 := q\<rparr>,
               m\<lparr>r_at := (if j + 1 < length (r_pkts m) then RPush_init i (j + 1)
                        else RFill (i + length (r_pkts m)))\<rparr>))
     | RLoop \<Rightarrow>
         if r_recvd m < np then (s, m\<lparr>r_at := RGather BULK_SIZE, r_pkts := []\<rparr>)
         else (s\<lparr>pipe_done := True\<rparr>, m\<lparr>r_at := RDone\<rparr>)
     | RGather 0 \<Rightarrow> (s, m\<lparr>r_at := RRecycle\<rparr>)
     | RGather (Suc n) \<Rightarrow>
         (case q_pop Q (p23 s) of
            None \<Rightarrow> (s, m\<lparr>r_at := RGather n\<rparr>)
          | Some (p, q) \<Rightarrow> (s\<lparr>p23 := q\<rparr>, m\<lparr>r_at := RGather n, r_pkts := r_pkts m @ [p]\<rparr>))
     | RRecycle \<Rightarrow> (s, m\<lparr>r_at := (if bytes2send m \<noteq> 0 then RPush 0 else RCount)\<rparr>)
     | RPush j \<Rightarrow>
         (case q_push Q (r_pkts m ! j) (p30 s) of
            None \<Rightarrow> (s, m)
          | Some q \<Rightarrow>
              (s\<lparr>p30 := q\<rparr>,
               if j + 1 < bytes2send m div 8 then m\<lparr>r_at := RPush (j + 1)\<rparr>
               else m\<lparr>r_2send := r_2send m - bytes2send m, r_at := RCount\<rparr>))
     | RCount \<Rightarrow> (s, m\<lparr>r_recvd := (r_recvd m + length (r_pkts m)) mod 2 ^ 64, r_at := RLoop\<rparr>)
     | RDone \<Rightarrow> (s, m))"

section \<open>The program\<close>

record 'q pipeline =
  net :: "'q pipes"
  pipe0 :: producer
  pipe1 :: "hop list"
  pipe2 :: "hop list"
  receiving :: receiver

definition new_hop :: hop where
  "new_hop = \<lparr>h_at = HArrive, h_pkts = [], h_corrupted = 0\<rparr>"

text \<open>\<open>n1\<close>, \<open>n2\<close> are \<^verbatim>\<open>NUM_STAGE1\<close>, \<^verbatim>\<open>NUM_STAGE2\<close>; \<open>hs\<close> is what the header pool holds at first.\<close>

definition pipeline_start ::
  "('q, nat) queue_ops \<Rightarrow> nat \<Rightarrow> nat \<Rightarrow> header list \<Rightarrow> 'q pipeline" where
  "pipeline_start Q n1 n2 hs =
     \<lparr>net = \<lparr>p01 = q_empty Q, p12 = q_empty Q, p23 = q_empty Q, p30 = q_empty Q, headers = hs,
             arrived = 0, pipe_done = False\<rparr>,
      pipe0 = \<lparr>p_at = PArrive, p_pkts = [], p_i = 0\<rparr>,
      pipe1 = replicate n1 new_hop, pipe2 = replicate n2 new_hop,
      receiving = \<lparr>r_at = RAwait, r_pkts = [], r_2send = 0, r_recvd = 0\<rparr>\<rparr>"

datatype pipe_thread = Stage0 | Hop1 nat | Hop2 nat | Receiver

definition pipeline_step ::
  "pipe_config \<Rightarrow> ('q, nat) queue_ops \<Rightarrow> nat \<Rightarrow> pipe_thread \<Rightarrow> 'q pipeline \<Rightarrow> 'q pipeline" where
  "pipeline_step cf Q np th f =
     (let threads = 2 + length (pipe1 f) + length (pipe2 f) in
      case th of
        Stage0 \<Rightarrow> let (s, t) = stage0_step Q threads np (net f, pipe0 f) in f\<lparr>net := s, pipe0 := t\<rparr>
      | Hop1 i \<Rightarrow>
          if i < length (pipe1 f) then
            let (s, t) = pipe_stage1 cf Q threads (net f, pipe1 f ! i)
            in f\<lparr>net := s, pipe1 := (pipe1 f)[i := t]\<rparr>
          else f
      | Hop2 i \<Rightarrow>
          if i < length (pipe2 f) then
            let (s, t) = pipe_stage2 cf Q threads (net f, pipe2 f ! i)
            in f\<lparr>net := s, pipe2 := (pipe2 f)[i := t]\<rparr>
          else f
      | Receiver \<Rightarrow>
          let (s, m) = receiver_step Q threads np (net f, receiving f) in f\<lparr>net := s, receiving := m\<rparr>)"

inductive pipeline_reach ::
  "pipe_config \<Rightarrow> ('q, nat) queue_ops \<Rightarrow> nat \<Rightarrow> nat \<Rightarrow> nat \<Rightarrow> header list \<Rightarrow> 'q pipeline \<Rightarrow> bool"
  for cf Q np n1 n2 hs where
  pipeline_init: "pipeline_reach cf Q np n1 n2 hs (pipeline_start Q n1 n2 hs)"
| pipeline_next: "pipeline_reach cf Q np n1 n2 hs f \<Longrightarrow>
    pipeline_reach cf Q np n1 n2 hs (pipeline_step cf Q np th f)"

section \<open>Runs\<close>

text \<open>A run given by the threads that take the steps.\<close>

definition pipeline_run ::
  "pipe_config \<Rightarrow> ('q, nat) queue_ops \<Rightarrow> nat \<Rightarrow> pipe_thread list \<Rightarrow> 'q pipeline \<Rightarrow> 'q pipeline" where
  "pipeline_run cf Q np ths f = fold (pipeline_step cf Q np) ths f"

lemma pipeline_run_reach:
  "pipeline_reach cf Q np n1 n2 hs f \<Longrightarrow> pipeline_reach cf Q np n1 n2 hs (pipeline_run cf Q np ths f)"
  unfolding pipeline_run_def by (induction ths arbitrary: f) (auto intro: pipeline_next)

text \<open>Both stages read and write; every thread arrives, eight packets are sent and four inspected.\<close>

definition sample_pipe_config :: pipe_config where
  "sample_pipe_config = \<lparr>read1 = True, write1 = True, read2 = True, write2 = True\<rparr>"

definition blank_header :: header where
  "blank_header = \<lparr>srcIP = 0, dstIP = 0, checksumIP = 0, srcPort = 0, dstPort = 0, checksumTCP = 0\<rparr>"

definition sample_pipeline :: "nat list pipeline" where
  "sample_pipeline =
     pipeline_run sample_pipe_config (bounded_queue 64) 60
       ([Stage0, Hop1 0, Hop2 0, Receiver] @ replicate 9 Receiver @ replicate 27 Stage0 @
        replicate 14 (Hop1 0))
       (pipeline_start (bounded_queue 64) 1 1 (replicate POOL_SIZE blank_header))"

lemma sample_pipeline_reach:
  "pipeline_reach sample_pipe_config (bounded_queue 64) 60 1 1 (replicate POOL_SIZE blank_header) sample_pipeline"
  unfolding sample_pipeline_def by (rule pipeline_run_reach) (rule pipeline_init)

end
