(* ===== verification/Pipeline_Flow.thy ===== *)
theory Pipeline_Flow
  imports Pipeline
begin

text \<open>
  What the pipeline keeps in every interleaving: each header is in one place at most, what was sent
  is on its way or received, and what the two inspecting stages make of the checksums. The 16-bit
  IP checksum never equals the 32-bit sum it is compared with, so stage 1 takes every packet for
  corrupted.
\<close>

section \<open>Checksums\<close>

lemma small_bit:
  assumes "k < 2 ^ 31"
  shows "\<not> bit (of_nat k :: 'a::len word) 31"
proof
  let ?w = "of_nat k :: 'a word"
  assume "bit ?w 31"
  then have "bit (unat ?w) 31" by (simp add: bit_unsigned_iff)
  moreover have "unat ?w \<le> k" by (simp add: unat_of_nat)
  ultimately show False using assms by (simp add: bit_iff_odd)
qed

lemma packet_ip_differs:
  assumes "i + j < 2 ^ 31"
  shows "ip_differs (packet np i j)"
  unfolding ip_differs_def
proof
  let ?src = "of_nat (i + j) :: u32" and ?dst = "ucast (NOT (of_nat i :: u64)) :: u32"
  assume eq: "ucast (checksumIP (packet np i j)) = srcIP (packet np i j) XOR dstIP (packet np i j)"
  have "\<not> bit ?src 31" "\<not> bit (of_nat i :: u64) 31"
    using assms by (intro small_bit; simp)+
  then have "bit (?src XOR ?dst) 31" by (simp add: bit_simps)
  moreover have "\<not> bit (ucast (ucast (?src XOR ?dst) :: u16) :: u32) 31" by (simp add: bit_simps)
  ultimately show False using eq by (simp add: packet_def Let_def)
qed

lemma packet_tcp_agrees: "\<not> tcp_differs (packet np i j)"
  by (simp add: tcp_differs_def packet_def Let_def)

lemma stamp_tcp [simp]: "tcp_differs (stamp cf First c h) = tcp_differs h"
  by (simp add: stamp_def tcp_differs_def)

section \<open>The ledger\<close>

text \<open>
  The headers sent and not inspected yet (\<open>A\<close>), inspected by stage 1 (\<open>B\<close>) and by both stages
  (\<open>D\<close>), those the main thread has just received (\<open>G\<close>) and the free ones (\<open>F\<close>); \<open>c1\<close>, \<open>c2\<close> what
  the stages counted as corrupted, \<open>N\<close> and \<open>R\<close> the numbers of packets sent and received.
\<close>

definition pipe_ledger ::
  "pipe_config \<Rightarrow> header list \<Rightarrow> nat multiset \<Rightarrow> nat multiset \<Rightarrow> nat multiset \<Rightarrow> nat multiset \<Rightarrow> nat multiset \<Rightarrow>
    nat \<Rightarrow> nat \<Rightarrow> nat \<Rightarrow> nat \<Rightarrow> bool" where
  "pipe_ledger cf hs A B D G F c1 c2 N R \<longleftrightarrow>
     length hs = POOL_SIZE \<and> A + B + D + G + F \<subseteq># mset_set {..<POOL_SIZE} \<and>
     (\<forall>p \<in># A. ip_differs (hs ! p)) \<and> (\<forall>p \<in># A + B. \<not> tcp_differs (hs ! p)) \<and>
     size A + size B + size D + R = N \<and> (if read1 cf then c1 + size A = N else c1 = 0) \<and> c2 = 0"

lemma in_pool_once:
  assumes "add_mset p X \<subseteq># mset_set {..<POOL_SIZE}"
  shows "p < POOL_SIZE" "p \<notin># X"
proof -
  have "p \<in># mset_set {..<POOL_SIZE}" using assms by (rule mset_subset_eqD) simp
  then show "p < POOL_SIZE" by simp
  then have "Multiset.count (mset_set {..<POOL_SIZE}) p = 1" by (simp add: count_mset_set)
  then show "p \<notin># X"
    using mset_subset_eq_count [OF assms, of p] by (simp add: count_eq_zero_iff)
qed

lemma pipe_send:
  assumes l: "pipe_ledger cf hs A B D G (add_mset p F) c1 c2 N R" and ij: "i + j < 2 ^ 31"
  shows "pipe_ledger cf (hs[p := packet np i j]) (add_mset p A) B D G F c1 c2 (Suc N) R"
proof -
  have "add_mset p (A + B + D + G + F) \<subseteq># mset_set {..<POOL_SIZE}" using l by (simp add: pipe_ledger_def)
  from in_pool_once [OF this] show ?thesis
    using l packet_ip_differs [OF ij] packet_tcp_agrees
    by (auto simp: pipe_ledger_def nth_list_update)
qed

lemma pipe_inspect1:
  assumes l: "pipe_ledger cf hs (add_mset p A) B D G F c1 c2 N R"
  shows "pipe_ledger cf (hs[p := stamp cf First c (hs ! p)]) A (add_mset p B) D G F
    (if read1 cf then Suc c1 else c1) c2 N R"
proof -
  have "add_mset p (A + B + D + G + F) \<subseteq># mset_set {..<POOL_SIZE}" using l by (simp add: pipe_ledger_def)
  from in_pool_once [OF this] show ?thesis
    using l by (auto simp: pipe_ledger_def nth_list_update)
qed

lemma pipe_inspect2:
  assumes l: "pipe_ledger cf hs A (add_mset p B) D G F c1 c2 N R"
  shows "pipe_ledger cf (hs[p := stamp cf Second c (hs ! p)]) A B (add_mset p D) G F c1 c2 N R"
proof -
  have "add_mset p (A + B + D + G + F) \<subseteq># mset_set {..<POOL_SIZE}" using l by (simp add: pipe_ledger_def)
  from in_pool_once [OF this] show ?thesis
    using l by (auto simp: pipe_ledger_def nth_list_update)
qed

lemma pipe_receive:
  "pipe_ledger cf hs A B (add_mset p D) G F c1 c2 N R \<Longrightarrow>
    pipe_ledger cf hs A B D (add_mset p G) F c1 c2 N (Suc R)"
  by (simp add: pipe_ledger_def)

lemma pipe_recycle:
  assumes "pipe_ledger cf hs A B D (X + Y) F c1 c2 N R"
  shows "pipe_ledger cf hs A B D {#} (X + F) c1 c2 N R"
proof -
  have "A + B + D + (X + Y) + F = A + B + D + (X + F) + Y" by (simp add: add_ac)
  then have "A + B + D + (X + F) \<subseteq># A + B + D + (X + Y) + F" by simp
  then have "A + B + D + (X + F) \<subseteq># mset_set {..<POOL_SIZE}"
    using assms subset_mset.order_trans unfolding pipe_ledger_def by blast
  then show ?thesis using assms by (simp add: pipe_ledger_def)
qed

section \<open>Where the headers are\<close>

definition unwritten :: "producer \<Rightarrow> nat multiset" where
  "unwritten t =
     (case p_at t of PGather n \<Rightarrow> mset (p_pkts t) | PWrite j \<Rightarrow> mset (drop j (p_pkts t)) | _ \<Rightarrow> {#})"

definition written :: "producer \<Rightarrow> nat multiset" where
  "written t =
     (case p_at t of PWrite j \<Rightarrow> mset (take j (p_pkts t)) | PForward j \<Rightarrow> mset (drop j (p_pkts t)) | _ \<Rightarrow> {#})"

definition packets_sent :: "producer \<Rightarrow> nat" where
  "packets_sent t =
     (case p_at t of PWrite j \<Rightarrow> p_i t + j | PForward j \<Rightarrow> p_i t + length (p_pkts t) | _ \<Rightarrow> p_i t)"

definition producer_ok :: "producer \<Rightarrow> bool" where
  "producer_ok t \<longleftrightarrow>
     (case p_at t of PWrite j \<Rightarrow> j \<le> length (p_pkts t) \<and> p_pkts t \<noteq> []
      | PForward j \<Rightarrow> j < length (p_pkts t) | _ \<Rightarrow> True)"

definition unseen :: "hop \<Rightarrow> nat multiset" where
  "unseen t =
     (case h_at t of HGather n \<Rightarrow> mset (h_pkts t) | HWork j \<Rightarrow> mset (drop j (h_pkts t)) | _ \<Rightarrow> {#})"

definition seen :: "hop \<Rightarrow> nat multiset" where
  "seen t =
     (case h_at t of HWork j \<Rightarrow> mset (take j (h_pkts t)) | HForward j \<Rightarrow> mset (drop j (h_pkts t)) | _ \<Rightarrow> {#})"

definition hop_ok :: "hop \<Rightarrow> bool" where
  "hop_ok t \<longleftrightarrow>
     (case h_at t of HWork j \<Rightarrow> j \<le> length (h_pkts t) \<and> h_pkts t \<noteq> []
      | HForward j \<Rightarrow> j < length (h_pkts t) | _ \<Rightarrow> True)"

definition stock :: "receiver \<Rightarrow> nat multiset" where
  "stock m =
     (case r_at m of RAwait \<Rightarrow> mset [0..<POOL_SIZE] | RFill i \<Rightarrow> mset [i..<POOL_SIZE]
      | RPush_init i j \<Rightarrow> mset (drop j (r_pkts m)) + mset [i + length (r_pkts m)..<POOL_SIZE]
      | RPush j \<Rightarrow> mset (drop j (take (bytes2send m div 8) (r_pkts m))) | _ \<Rightarrow> {#})"

definition gathered :: "receiver \<Rightarrow> nat multiset" where
  "gathered m = (case r_at m of RGather n \<Rightarrow> mset (r_pkts m) | RRecycle \<Rightarrow> mset (r_pkts m) | _ \<Rightarrow> {#})"

definition received :: "receiver \<Rightarrow> nat" where
  "received m = r_recvd m +
     (case r_at m of RGather n \<Rightarrow> length (r_pkts m) | RRecycle \<Rightarrow> length (r_pkts m)
      | RPush j \<Rightarrow> length (r_pkts m) | RCount \<Rightarrow> length (r_pkts m) | _ \<Rightarrow> 0)"

text \<open>How many headers were put into circulation, a recycled one counted again.\<close>

definition circulated :: "nat \<Rightarrow> receiver \<Rightarrow> nat" where
  "circulated np m =
     (case r_at m of RAwait \<Rightarrow> POOL_SIZE | RFill i \<Rightarrow> POOL_SIZE | RPush_init i j \<Rightarrow> POOL_SIZE
      | RPush j \<Rightarrow> np - r_2send m div 8 + bytes2send m div 8 | _ \<Rightarrow> np - r_2send m div 8)"

definition receiver_ok :: "nat \<Rightarrow> receiver \<Rightarrow> bool" where
  "receiver_ok np m \<longleftrightarrow> 8 dvd r_2send m \<and> r_2send m \<le> 8 * (np - POOL_SIZE) \<and>
     (case r_at m of RAwait \<Rightarrow> r_recvd m = 0 | RFill i \<Rightarrow> i \<le> POOL_SIZE \<and> r_recvd m = 0
      | RPush_init i j \<Rightarrow> i + length (r_pkts m) \<le> POOL_SIZE \<and> j < length (r_pkts m) \<and> r_recvd m = 0
      | RPush j \<Rightarrow> j < bytes2send m div 8 | RDone \<Rightarrow> np \<le> r_recvd m | _ \<Rightarrow> True)"

lemmas pipe_places = unwritten_def written_def packets_sent_def producer_ok_def unseen_def seen_def hop_ok_def
  stock_def gathered_def received_def circulated_def receiver_ok_def

lemma drop_next: "j < length xs \<Longrightarrow> mset (drop j xs) = add_mset (xs ! j) (mset (drop (Suc j) xs))"
  by (simp add: Cons_nth_drop_Suc [symmetric])

lemma take_next: "j < length xs \<Longrightarrow> mset (take (Suc j) xs) = add_mset (xs ! j) (mset (take j xs))"
  by (simp add: take_Suc_conv_app_nth)

lemma bytes_le: "8 dvd r_2send m \<Longrightarrow> bytes2send m \<le> r_2send m \<and> bytes2send m div 8 \<le> length (r_pkts m) \<and> 8 dvd bytes2send m"
  by (auto simp: bytes2send_def)

section \<open>Steps of the threads\<close>

locale pipe_queue = message_queue Q contents
  for Q :: "('q, nat) queue_ops" and contents
begin

lemma stage0_keeps:
  assumes step: "stage0_step Q k np (s, t) = (s', t')" and ok: "producer_ok t"
    and room: "packets_sent t + size (unwritten t) < 2 ^ 31"
    and l: "pipe_ledger cf (headers s) (contents (p01 s) + written t + A) B D G
      (contents (p30 s) + unwritten t + F) c1 c2 (packets_sent t) R"
  shows "producer_ok t'" "p12 s' = p12 s" "p23 s' = p23 s"
    "pipe_ledger cf (headers s') (contents (p01 s') + written t' + A) B D G
      (contents (p30 s') + unwritten t' + F) c1 c2 (packets_sent t') R"
    "packets_sent t' + size (contents (p30 s') + unwritten t') = packets_sent t + size (contents (p30 s) + unwritten t)"
proof -
  show frame: "p12 s' = p12 s" "p23 s' = p23 s"
    using step by (auto simp: stage0_step_def split: at_producer.splits nat.splits option.splits prod.splits if_splits)
  have "producer_ok t' \<and> pipe_ledger cf (headers s') (contents (p01 s') + written t' + A) B D G
      (contents (p30 s') + unwritten t' + F) c1 c2 (packets_sent t') R \<and>
    packets_sent t' + size (contents (p30 s') + unwritten t') = packets_sent t + size (contents (p30 s) + unwritten t)"
  proof (cases "p_at t")
    case (PGather n)
    then show ?thesis
      using step l
      by (cases n) (auto simp: stage0_step_def pipe_places pop_contents split: option.splits)
  next
    case (PWrite j)
    show ?thesis
    proof (cases "j < length (p_pkts t)")
      case True
      let ?p = "p_pkts t ! j"
      have "pipe_ledger cf (headers s) (contents (p01 s) + written t + A) B D G
          (add_mset ?p (contents (p30 s) + mset (drop (Suc j) (p_pkts t)) + F)) c1 c2 (packets_sent t) R"
        using l True by (simp add: unwritten_def PWrite drop_next)
      moreover have "p_i t + j < 2 ^ 31" using room by (simp add: packets_sent_def PWrite)
      ultimately show ?thesis
        using step True pipe_send [of cf "headers s" _ B D G ?p _ c1 c2 "packets_sent t" R "p_i t" j np]
        by (auto simp: stage0_step_def PWrite pipe_places take_next)
    next
      case False
      then show ?thesis using step l ok by (auto simp: stage0_step_def PWrite pipe_places)
    qed
  next
    case (PForward j)
    then show ?thesis
      using step l ok room
      by (auto simp: stage0_step_def pipe_places push_contents drop_next add_mset_commute
          split: option.splits if_splits)
  qed (use step l in \<open>auto simp: stage0_step_def pipe_places split: if_splits\<close>)
  then show "producer_ok t'" "pipe_ledger cf (headers s') (contents (p01 s') + written t' + A) B D G
      (contents (p30 s') + unwritten t' + F) c1 c2 (packets_sent t') R"
    "packets_sent t' + size (contents (p30 s') + unwritten t') = packets_sent t + size (contents (p30 s) + unwritten t)"
    by blast+
qed

lemma hop_frame:
  assumes "hop_step cf d Q k (s, t) = (s', t')"
  shows "p30 s' = p30 s" "(case d of First \<Rightarrow> p23 s' = p23 s | Second \<Rightarrow> p01 s' = p01 s)"
  using assms
  by (auto simp: hop_step_def set_inlet_def set_outlet_def Let_def
      split: at_hop.splits nat.splits option.splits prod.splits if_splits hop_id.splits)

text \<open>A step of a stage moves headers from its inlet to its outlet, or inspects one.\<close>

lemma hop_flow:
  assumes step: "hop_step cf d Q k (s, t) = (s', t')" and ok: "hop_ok t"
  shows "hop_ok t'"
    "(contents (inlet d s') + unseen t' = contents (inlet d s) + unseen t \<and>
      contents (outlet d s') + seen t' = contents (outlet d s) + seen t \<and>
      headers s' = headers s \<and> h_corrupted t' = h_corrupted t) \<or>
     (\<exists>p. inlet d s' = inlet d s \<and> outlet d s' = outlet d s \<and>
      unseen t = add_mset p (unseen t') \<and> seen t' = add_mset p (seen t) \<and>
      h_corrupted t' = inspect cf d (headers s ! p) (h_corrupted t) \<and>
      headers s' = (headers s)[p := stamp cf d (h_corrupted t') (headers s ! p)])"
proof -
  let ?quiet = "contents (inlet d s') + unseen t' = contents (inlet d s) + unseen t \<and>
      contents (outlet d s') + seen t' = contents (outlet d s) + seen t \<and>
      headers s' = headers s \<and> h_corrupted t' = h_corrupted t"
  let ?look = "\<exists>p. inlet d s' = inlet d s \<and> outlet d s' = outlet d s \<and>
      unseen t = add_mset p (unseen t') \<and> seen t' = add_mset p (seen t) \<and>
      h_corrupted t' = inspect cf d (headers s ! p) (h_corrupted t) \<and>
      headers s' = (headers s)[p := stamp cf d (h_corrupted t') (headers s ! p)]"
  have "hop_ok t' \<and> (?quiet \<or> ?look)"
  proof (cases "h_at t")
    case (HGather n)
    then show ?thesis
      using step
      by (cases n; cases d)
        (auto simp: hop_step_def pipe_places inlet_def outlet_def set_inlet_def pop_contents split: option.splits)
  next
    case (HWork j)
    show ?thesis
    proof (cases "j < length (h_pkts t)")
      case True
      have s': "s' = s\<lparr>headers := (headers s)[h_pkts t ! j := stamp cf d (h_corrupted t') (headers s ! (h_pkts t ! j))]\<rparr>"
        "t' = t\<lparr>h_at := HWork (j + 1), h_corrupted := inspect cf d (headers s ! (h_pkts t ! j)) (h_corrupted t)\<rparr>"
        using step HWork True by (auto simp: hop_step_def Let_def)
      have ?look
        by (rule exI [of _ "h_pkts t ! j"])
          (simp add: s' inlet_def outlet_def pipe_places HWork True drop_next take_next split: hop_id.splits)
      moreover have "hop_ok t'" using True s'(2) by (auto simp: hop_ok_def)
      ultimately show ?thesis by blast
    next
      case False
      then show ?thesis using step ok HWork by (auto simp: hop_step_def pipe_places)
    qed
  next
    case (HForward j)
    then show ?thesis
      using step ok
      by (cases d) (auto simp: hop_step_def pipe_places inlet_def outlet_def set_outlet_def hop_gather_def
          push_contents drop_next add_mset_commute split: option.splits if_splits)
  qed (use step in \<open>auto simp: hop_step_def pipe_places inlet_def outlet_def hop_gather_def split: if_splits hop_id.splits\<close>)
  then show "hop_ok t'" "?quiet \<or> ?look" by blast+
qed

lemma hop1_keeps:
  assumes step: "hop_step cf First Q k (s, t) = (s', t')" and ok: "hop_ok t"
    and l: "pipe_ledger cf (headers s) (contents (p01 s) + unseen t + A) (contents (p12 s) + seen t + B) D G F
      (unat (h_corrupted t) + c) c2 N R"
    and N: "N < 2 ^ 64"
  shows "pipe_ledger cf (headers s') (contents (p01 s') + unseen t' + A) (contents (p12 s') + seen t' + B) D G F
      (unat (h_corrupted t') + c) c2 N R"
  using hop_flow(2) [OF step ok]
proof (elim disjE exE conjE)
  fix p assume h: "inlet First s' = inlet First s" "outlet First s' = outlet First s"
    "unseen t = add_mset p (unseen t')" "seen t' = add_mset p (seen t)"
    "h_corrupted t' = inspect cf First (headers s ! p) (h_corrupted t)"
    "headers s' = (headers s)[p := stamp cf First (h_corrupted t') (headers s ! p)]"
  have l': "pipe_ledger cf (headers s) (add_mset p (contents (p01 s) + unseen t' + A)) (contents (p12 s) + seen t + B)
      D G F (unat (h_corrupted t) + c) c2 N R"
    using l by (simp add: h(3))
  have "read1 cf \<Longrightarrow> unat (h_corrupted t') = Suc (unat (h_corrupted t))"
  proof -
    assume r: "read1 cf"
    then have "Suc (unat (h_corrupted t)) \<le> N" "ip_differs (headers s ! p)" using l' by (auto simp: pipe_ledger_def)
    then have "h_corrupted t' = h_corrupted t + 1" "unat (h_corrupted t) + 1 < 2 ^ LENGTH(64)"
      using r h(5) N by (simp_all add: inspect_def)
    then show ?thesis using unat_add_lem [of "h_corrupted t" 1] by simp
  qed
  moreover have "\<not> read1 cf \<Longrightarrow> h_corrupted t' = h_corrupted t" using h(5) by (simp add: inspect_def)
  ultimately show ?thesis
    using pipe_inspect1 [OF l', of "h_corrupted t'"] h(1,2,4,6)
    by (cases "read1 cf") (simp_all add: inlet_def outlet_def)
qed (use l in \<open>simp add: inlet_def outlet_def\<close>)

lemma hop2_keeps:
  assumes step: "hop_step cf Second Q k (s, t) = (s', t')" and ok: "hop_ok t"
    and l: "pipe_ledger cf (headers s) A (contents (p12 s) + unseen t + B) (contents (p23 s) + seen t + D) G F
      c1 (unat (h_corrupted t) + c) N R"
  shows "pipe_ledger cf (headers s') A (contents (p12 s') + unseen t' + B) (contents (p23 s') + seen t' + D) G F
      c1 (unat (h_corrupted t') + c) N R"
  using hop_flow(2) [OF step ok]
proof (elim disjE exE conjE)
  fix p assume h: "inlet Second s' = inlet Second s" "outlet Second s' = outlet Second s"
    "unseen t = add_mset p (unseen t')" "seen t' = add_mset p (seen t)"
    "h_corrupted t' = inspect cf Second (headers s ! p) (h_corrupted t)"
    "headers s' = (headers s)[p := stamp cf Second (h_corrupted t') (headers s ! p)]"
  have l': "pipe_ledger cf (headers s) A (add_mset p (contents (p12 s) + unseen t' + B)) (contents (p23 s) + seen t + D)
      G F c1 (unat (h_corrupted t) + c) N R"
    using l by (simp add: h(3))
  have "\<not> tcp_differs (headers s ! p)" using l' by (simp add: pipe_ledger_def)
  then have "h_corrupted t' = h_corrupted t" using h(5) by (simp add: inspect_def)
  then show ?thesis
    using pipe_inspect2 [OF l', of "h_corrupted t'"] h(1,2,4,6) by (simp add: inlet_def outlet_def)
qed (use l in \<open>simp add: inlet_def outlet_def\<close>)

lemma receiver_keeps:
  assumes step: "receiver_step Q k np (s, m) = (s', m')" and ok: "receiver_ok np m"
    and np: "POOL_SIZE \<le> np" "np < 2 ^ 31"
    and room: "received m \<le> np"
    and l: "pipe_ledger cf (headers s) A B (contents (p23 s) + D) (gathered m) (contents (p30 s) + stock m + F)
      c1 c2 N (received m)"
  shows "receiver_ok np m'" "p01 s' = p01 s" "p12 s' = p12 s"
    "pipe_ledger cf (headers s') A B (contents (p23 s') + D) (gathered m') (contents (p30 s') + stock m' + F)
      c1 c2 N (received m')"
    "circulated np m' + size (contents (p30 s) + stock m) = circulated np m + size (contents (p30 s') + stock m')"
proof -
  show frame: "p01 s' = p01 s" "p12 s' = p12 s"
    using step by (auto simp: receiver_step_def split: at_receiver.splits nat.splits option.splits prod.splits if_splits)
  have "receiver_ok np m' \<and>
    pipe_ledger cf (headers s') A B (contents (p23 s') + D) (gathered m') (contents (p30 s') + stock m' + F)
      c1 c2 N (received m') \<and>
    circulated np m' + size (contents (p30 s) + stock m) = circulated np m + size (contents (p30 s') + stock m')"
  proof (cases "r_at m")
    case (RFill i)
    show ?thesis
    proof (cases "i < POOL_SIZE")
      case True
      let ?hi = "min (i + BULK_SIZE) POOL_SIZE"
      have "i \<le> ?hi" "?hi \<le> POOL_SIZE" using True by simp_all
      then have "mset [i..<POOL_SIZE] = mset [i..<?hi] + mset [?hi..<POOL_SIZE]"
        by (metis mset_append upt_add_eq_append le_add_diff_inverse)
      moreover have "i < ?hi" using True by (simp add: BULK_SIZE_def)
      ultimately show ?thesis
        using step ok l RFill True
        by (auto simp: receiver_step_def stock_def gathered_def received_def circulated_def receiver_ok_def)
    next
      case False
      have start: "((np + 2 ^ 64 - POOL_SIZE) * 8) mod 2 ^ 64 = 8 * (np - POOL_SIZE)"
      proof -
        have "(np + 2 ^ 64 - POOL_SIZE) * 8 = 8 * (np - POOL_SIZE) + 8 * 2 ^ 64" using np(1) by simp
        moreover have "8 * (np - POOL_SIZE) < 2 ^ 64" using np(2) by simp
        ultimately show ?thesis by (simp only: mod_mult_self1 mod_less)
      qed
      have "receiver_step Q k np (s, m) = (s, m\<lparr>r_2send := 8 * (np - POOL_SIZE), r_recvd := 0, r_at := RLoop\<rparr>)"
        by (simp only: receiver_step_def prod.case RFill at_receiver.case False if_False start)
      then show ?thesis
        using step ok l RFill False np(1)
        by (auto simp: stock_def gathered_def received_def circulated_def receiver_ok_def)
    qed
  next
    case (RPush_init i j)
    then show ?thesis
      using step ok l
      by (auto simp: receiver_step_def stock_def gathered_def received_def circulated_def receiver_ok_def
          push_contents drop_next add_mset_commute split: option.splits if_splits)
  next
    case (RGather n)
    show ?thesis
    proof (cases n)
      case (Suc n')
      show ?thesis
      proof (cases "q_pop Q (p23 s)")
        case None
        then show ?thesis
          using step ok l RGather Suc
          by (auto simp: receiver_step_def stock_def gathered_def received_def circulated_def receiver_ok_def)
      next
        case (Some pq)
        then obtain p q where pq: "q_pop Q (p23 s) = Some (p, q)" by (cases pq) auto
        have "pipe_ledger cf (headers s) A B (add_mset p (contents q + D)) (gathered m)
            (contents (p30 s) + stock m + F) c1 c2 N (received m)"
          using l by (simp add: pop_contents [OF pq])
        from pipe_receive [OF this] show ?thesis
          using step ok RGather Suc pq
          by (auto simp: receiver_step_def stock_def gathered_def received_def circulated_def receiver_ok_def)
      qed
    qed (use step ok l RGather in
      \<open>auto simp: receiver_step_def stock_def gathered_def received_def circulated_def receiver_ok_def\<close>)
  next
    case RRecycle
    let ?c = "bytes2send m div 8"
    have b: "bytes2send m \<le> r_2send m" "8 dvd bytes2send m" "?c \<le> length (r_pkts m)"
      using bytes_le ok by (auto simp: receiver_ok_def)
    have "mset (r_pkts m) = mset (take ?c (r_pkts m)) + mset (drop ?c (r_pkts m))"
      by (simp flip: mset_append)
    then have "pipe_ledger cf (headers s) A B (contents (p23 s) + D)
        (mset (take ?c (r_pkts m)) + mset (drop ?c (r_pkts m))) (contents (p30 s) + F) c1 c2 N (received m)"
      using l by (simp add: stock_def gathered_def RRecycle)
    from pipe_recycle [OF this]
    have rec: "pipe_ledger cf (headers s) A B (contents (p23 s) + D) {#}
        (contents (p30 s) + mset (take ?c (r_pkts m)) + F) c1 c2 N (received m)"
      by (simp add: add_ac)
    show ?thesis
    proof (cases "bytes2send m = 0")
      case True
      then show ?thesis
        using step ok rec RRecycle
        by (auto simp: receiver_step_def stock_def gathered_def received_def circulated_def receiver_ok_def)
    next
      case False
      then have "0 < ?c" using b(2) by (auto elim!: dvdE)
      moreover have "bytes2send (m\<lparr>r_at := RPush 0\<rparr>) = bytes2send m" by (simp add: bytes2send_def)
      ultimately show ?thesis
        using step ok rec RRecycle False b(3)
        by (auto simp: receiver_step_def stock_def gathered_def received_def circulated_def receiver_ok_def)
    qed
  next
    case (RPush j)
    let ?c = "bytes2send m div 8"
    have b: "bytes2send m \<le> r_2send m" "8 dvd bytes2send m" "8 dvd r_2send m" "?c \<le> length (r_pkts m)" "j < ?c"
        "r_2send m \<le> 8 * (np - POOL_SIZE)"
      using bytes_le ok by (auto simp: receiver_ok_def RPush)
    have next_push: "bytes2send (m\<lparr>r_at := pc\<rparr>) = bytes2send m" for pc by (simp add: bytes2send_def)
    have one: "mset (drop j (take ?c (r_pkts m))) = add_mset (r_pkts m ! j) (mset (drop (Suc j) (take ?c (r_pkts m))))"
      using drop_next [of j "take ?c (r_pkts m)"] b(4,5) by simp
    have div: "np - (r_2send m - bytes2send m) div 8 = np - r_2send m div 8 + ?c"
    proof -
      obtain u where u: "r_2send m = 8 * u" using b(3) by (rule dvdE)
      obtain v where v: "bytes2send m = 8 * v" using b(2) by (rule dvdE)
      have "v \<le> u" "u \<le> np" using b(1,6) by (simp_all add: u v)
      moreover have "(8 * u - 8 * v) div 8 = u - v" by (simp flip: diff_mult_distrib2)
      ultimately show ?thesis by (simp add: u v)
    qed
    show ?thesis
    proof (cases "q_push Q (r_pkts m ! j) (p30 s)")
      case None
      then show ?thesis using step ok l RPush by (simp add: receiver_step_def)
    next
      case (Some q)
      show ?thesis
      proof (cases "Suc j < ?c")
        case True
        then show ?thesis
          using step ok l RPush Some one
          by (auto simp: receiver_step_def stock_def gathered_def received_def circulated_def receiver_ok_def
              push_contents next_push)
      next
        case False
        then have "drop (Suc j) (take ?c (r_pkts m)) = []" by simp
        then show ?thesis
          using step ok l RPush Some one False b div
          by (auto simp: receiver_step_def stock_def gathered_def received_def circulated_def receiver_ok_def
              push_contents)
      qed
    qed
  next
    case RCount
    then show ?thesis
      using step ok l room np
      by (auto simp: receiver_step_def stock_def gathered_def received_def circulated_def receiver_ok_def)
  qed (use step ok l in \<open>auto simp: receiver_step_def stock_def gathered_def received_def circulated_def
      receiver_ok_def split: if_splits\<close>)
  then show "receiver_ok np m'"
    "pipe_ledger cf (headers s') A B (contents (p23 s') + D) (gathered m') (contents (p30 s') + stock m' + F)
      c1 c2 N (received m')"
    "circulated np m' + size (contents (p30 s) + stock m) = circulated np m + size (contents (p30 s') + stock m')"
    by blast+
qed

end

section \<open>The whole program\<close>

text \<open>\<open>C\<close> gives the messages of a queue.\<close>

definition fresh :: "('q \<Rightarrow> nat multiset) \<Rightarrow> 'q pipeline \<Rightarrow> nat multiset" where
  "fresh C f = C (p01 (net f)) + written (pipe0 f) + sum_list (map unseen (pipe1 f))"

definition halfway :: "('q \<Rightarrow> nat multiset) \<Rightarrow> 'q pipeline \<Rightarrow> nat multiset" where
  "halfway C f = C (p12 (net f)) + sum_list (map seen (pipe1 f)) + sum_list (map unseen (pipe2 f))"

definition inspected :: "('q \<Rightarrow> nat multiset) \<Rightarrow> 'q pipeline \<Rightarrow> nat multiset" where
  "inspected C f = C (p23 (net f)) + sum_list (map seen (pipe2 f))"

definition unused :: "('q \<Rightarrow> nat multiset) \<Rightarrow> 'q pipeline \<Rightarrow> nat multiset" where
  "unused C f = C (p30 (net f)) + unwritten (pipe0 f) + stock (receiving f)"

definition corrupted :: "hop list \<Rightarrow> nat" where
  "corrupted ts = (\<Sum>t \<leftarrow> ts. unat (h_corrupted t))"

definition pipe_inv :: "pipe_config \<Rightarrow> ('q \<Rightarrow> nat multiset) \<Rightarrow> nat \<Rightarrow> 'q pipeline \<Rightarrow> bool" where
  "pipe_inv cf C np f \<longleftrightarrow>
     pipe_ledger cf (headers (net f)) (fresh C f) (halfway C f) (inspected C f) (gathered (receiving f))
       (unused C f) (corrupted (pipe1 f)) (corrupted (pipe2 f)) (packets_sent (pipe0 f)) (received (receiving f)) \<and>
     packets_sent (pipe0 f) + size (unused C f) = circulated np (receiving f) \<and>
     producer_ok (pipe0 f) \<and> (\<forall>t \<in> set (pipe1 f). hop_ok t) \<and> (\<forall>t \<in> set (pipe2 f). hop_ok t) \<and>
     receiver_ok np (receiving f)"

lemma circulated_le: "receiver_ok np m \<Longrightarrow> POOL_SIZE \<le> np \<Longrightarrow> circulated np m \<le> np"
  using bytes_le [of m]
  by (auto simp: receiver_ok_def circulated_def split: at_receiver.splits)

lemma list_without:
  assumes "i < length ts"
  shows "\<exists>R. \<forall>t. sum_list (map g (ts[i := t])) = g t + (R :: 'b multiset)"
proof (intro exI allI)
  fix t
  have "sum_list (map g (take i ts @ t # drop (Suc i) ts)) =
      g t + (sum_list (map g (take i ts)) + sum_list (map g (drop (Suc i) ts)))"
    by (simp add: add_ac)
  then show "sum_list (map g (ts[i := t])) =
      g t + (sum_list (map g (take i ts)) + sum_list (map g (drop (Suc i) ts)))"
    using assms by (simp only: upd_conv_take_nth_drop)
qed

lemma corrupted_without:
  assumes "i < length ts"
  shows "\<exists>c. \<forall>t. corrupted (ts[i := t]) = unat (h_corrupted t) + c"
proof (intro exI allI)
  fix t
  have "corrupted (take i ts @ t # drop (Suc i) ts) =
      unat (h_corrupted t) + (corrupted (take i ts) + corrupted (drop (Suc i) ts))"
    by (simp add: corrupted_def)
  then show "corrupted (ts[i := t]) =
      unat (h_corrupted t) + (corrupted (take i ts) + corrupted (drop (Suc i) ts))"
    using assms by (simp only: upd_conv_take_nth_drop)
qed

context pipe_queue
begin

lemma inv_bounds:
  assumes "pipe_inv cf contents np f" "POOL_SIZE \<le> np"
  shows "packets_sent (pipe0 f) + size (unused contents f) \<le> np" "received (receiving f) \<le> np"
proof -
  show s: "packets_sent (pipe0 f) + size (unused contents f) \<le> np"
    using assms circulated_le by (auto simp: pipe_inv_def)
  have "received (receiving f) \<le> packets_sent (pipe0 f)"
    using assms(1) unfolding pipe_inv_def pipe_ledger_def by linarith
  then show "received (receiving f) \<le> np" using s by linarith
qed

lemma inv_stage0:
  assumes inv: "pipe_inv cf contents np f" and np: "POOL_SIZE \<le> np" "np < 2 ^ 31"
    and step: "stage0_step Q k np (net f, pipe0 f) = (s, t)"
  shows "pipe_inv cf contents np (f\<lparr>net := s, pipe0 := t\<rparr>)"
proof -
  let ?A = "sum_list (map unseen (pipe1 f))" and ?F = "stock (receiving f)"
  have room: "packets_sent (pipe0 f) + size (unwritten (pipe0 f)) < 2 ^ 31"
    using inv_bounds(1) [OF inv np(1)] np(2) by (simp add: unused_def)
  have l: "pipe_ledger cf (headers (net f)) (contents (p01 (net f)) + written (pipe0 f) + ?A) (halfway contents f)
      (inspected contents f) (gathered (receiving f)) (contents (p30 (net f)) + unwritten (pipe0 f) + ?F)
      (corrupted (pipe1 f)) (corrupted (pipe2 f)) (packets_sent (pipe0 f)) (received (receiving f))"
    using inv by (simp add: pipe_inv_def fresh_def unused_def)
  have ok: "producer_ok (pipe0 f)" using inv by (simp add: pipe_inv_def)
  note keeps = stage0_keeps [OF step ok room l]
  have "packets_sent t + size (contents (p30 s) + unwritten t + ?F) = circulated np (receiving f)"
    using keeps(5) inv by (simp add: pipe_inv_def unused_def)
  then show ?thesis
    using keeps(1-4) inv
    by (simp add: pipe_inv_def fresh_def halfway_def inspected_def unused_def)
qed

lemma inv_receiver:
  assumes inv: "pipe_inv cf contents np f" and np: "POOL_SIZE \<le> np" "np < 2 ^ 31"
    and step: "receiver_step Q k np (net f, receiving f) = (s, m)"
  shows "pipe_inv cf contents np (f\<lparr>net := s, receiving := m\<rparr>)"
proof -
  let ?D = "sum_list (map seen (pipe2 f))" and ?F = "unwritten (pipe0 f)"
  have "pipe_ledger cf (headers (net f)) (fresh contents f) (halfway contents f)
      (contents (p23 (net f)) + ?D) (gathered (receiving f)) (contents (p30 (net f)) + stock (receiving f) + ?F)
      (corrupted (pipe1 f)) (corrupted (pipe2 f)) (packets_sent (pipe0 f)) (received (receiving f))"
    using inv by (simp add: pipe_inv_def inspected_def unused_def add_ac)
  note keeps = receiver_keeps [OF step _ np inv_bounds(2) [OF inv np(1)] this]
  have ok: "receiver_ok np (receiving f)" using inv by (simp add: pipe_inv_def)
  have "circulated np m = packets_sent (pipe0 f) + size (contents (p30 s) + ?F + stock m)"
    using keeps(5) [OF ok] inv by (simp add: pipe_inv_def unused_def)
  then show ?thesis
    using keeps(1-4) [OF ok] inv
    by (simp add: pipe_inv_def fresh_def halfway_def inspected_def unused_def add_ac)
qed

lemma inv_hop1:
  assumes inv: "pipe_inv cf contents np f" and np: "POOL_SIZE \<le> np" "np < 2 ^ 31"
    and i: "i < length (pipe1 f)" and step: "hop_step cf First Q k (net f, pipe1 f ! i) = (s, t)"
  shows "pipe_inv cf contents np (f\<lparr>net := s, pipe1 := (pipe1 f)[i := t]\<rparr>)"
proof -
  let ?t = "pipe1 f ! i"
  have self: "pipe1 f = (pipe1 f)[i := ?t]" by simp
  from list_without [OF i, of unseen] obtain U where U: "\<forall>t. sum_list (map unseen ((pipe1 f)[i := t])) = unseen t + U" by (rule exE)
  from list_without [OF i, of seen] obtain S where S: "\<forall>t. sum_list (map seen ((pipe1 f)[i := t])) = seen t + S" by (rule exE)
  from corrupted_without [OF i] obtain c where c: "\<forall>t. corrupted ((pipe1 f)[i := t]) = unat (h_corrupted t) + c" by (rule exE)
  have old: "sum_list (map unseen (pipe1 f)) = unseen ?t + U" "sum_list (map seen (pipe1 f)) = seen ?t + S"
    "corrupted (pipe1 f) = unat (h_corrupted ?t) + c"
    using U [rule_format, of ?t] S [rule_format, of ?t] c [rule_format, of ?t] by simp_all
  let ?A = "written (pipe0 f) + U" and ?B = "S + sum_list (map unseen (pipe2 f))"
  have l: "pipe_ledger cf (headers (net f)) (contents (p01 (net f)) + unseen ?t + ?A)
      (contents (p12 (net f)) + seen ?t + ?B) (inspected contents f) (gathered (receiving f)) (unused contents f)
      (unat (h_corrupted ?t) + c) (corrupted (pipe2 f)) (packets_sent (pipe0 f)) (received (receiving f))"
    using inv by (simp add: pipe_inv_def fresh_def halfway_def old add_ac)
  have ok: "hop_ok ?t" using inv i by (simp add: pipe_inv_def)
  have "packets_sent (pipe0 f) < 2 ^ 64" using inv_bounds(1) [OF inv np(1)] np(2) by simp
  note keeps = hop1_keeps [OF step ok l this] and ok' = hop_flow(1) [OF step ok] and frame = hop_frame [OF step]
  have "\<forall>u \<in> set ((pipe1 f)[i := t]). hop_ok u"
    using inv ok' by (auto simp: pipe_inv_def dest!: set_update_subset_insert [THEN subsetD])
  then show ?thesis
    using keeps inv frame
    by (simp add: pipe_inv_def fresh_def halfway_def inspected_def unused_def U S c add_ac)
qed

lemma inv_hop2:
  assumes inv: "pipe_inv cf contents np f"
    and i: "i < length (pipe2 f)" and step: "hop_step cf Second Q k (net f, pipe2 f ! i) = (s, t)"
  shows "pipe_inv cf contents np (f\<lparr>net := s, pipe2 := (pipe2 f)[i := t]\<rparr>)"
proof -
  let ?t = "pipe2 f ! i"
  from list_without [OF i, of unseen] obtain U where U: "\<forall>t. sum_list (map unseen ((pipe2 f)[i := t])) = unseen t + U" by (rule exE)
  from list_without [OF i, of seen] obtain S where S: "\<forall>t. sum_list (map seen ((pipe2 f)[i := t])) = seen t + S" by (rule exE)
  from corrupted_without [OF i] obtain c where c: "\<forall>t. corrupted ((pipe2 f)[i := t]) = unat (h_corrupted t) + c" by (rule exE)
  have old: "sum_list (map unseen (pipe2 f)) = unseen ?t + U" "sum_list (map seen (pipe2 f)) = seen ?t + S"
    "corrupted (pipe2 f) = unat (h_corrupted ?t) + c"
    using U [rule_format, of ?t] S [rule_format, of ?t] c [rule_format, of ?t] by simp_all
  let ?B = "sum_list (map seen (pipe1 f)) + U"
  have l: "pipe_ledger cf (headers (net f)) (fresh contents f) (contents (p12 (net f)) + unseen ?t + ?B)
      (contents (p23 (net f)) + seen ?t + S) (gathered (receiving f)) (unused contents f) (corrupted (pipe1 f))
      (unat (h_corrupted ?t) + c) (packets_sent (pipe0 f)) (received (receiving f))"
    using inv by (simp add: pipe_inv_def halfway_def inspected_def old add_ac)
  have ok: "hop_ok ?t" using inv i by (simp add: pipe_inv_def)
  note keeps = hop2_keeps [OF step ok l] and ok' = hop_flow(1) [OF step ok] and frame = hop_frame [OF step]
  have "\<forall>u \<in> set ((pipe2 f)[i := t]). hop_ok u"
    using inv ok' by (auto simp: pipe_inv_def dest!: set_update_subset_insert [THEN subsetD])
  then show ?thesis
    using keeps inv frame
    by (simp add: pipe_inv_def fresh_def halfway_def inspected_def unused_def U S c add_ac)
qed

lemma inv_pipeline_start:
  assumes "length hs = POOL_SIZE" "POOL_SIZE \<le> np"
  shows "pipe_inv cf contents np (pipeline_start Q n1 n2 hs)"
proof -
  have "sum_list (map g (replicate n new_hop)) = {#}" if "g new_hop = ({#} :: nat multiset)" for g n
    using that by (induction n) simp_all
  then have none: "sum_list (replicate n (unseen new_hop)) = {#}" "sum_list (replicate n (seen new_hop)) = {#}" for n
    by (simp_all add: unseen_def seen_def new_hop_def)
  have "corrupted (replicate n new_hop) = 0" for n
    by (simp add: corrupted_def new_hop_def sum_list_replicate)
  then show ?thesis
    using assms
    by (auto simp: pipe_inv_def pipeline_start_def pipe_ledger_def fresh_def halfway_def inspected_def unused_def
        written_def unwritten_def packets_sent_def producer_ok_def stock_def gathered_def received_def circulated_def
        receiver_ok_def hop_ok_def contents_empty none mset_upt lessThan_atLeast0)
      (simp_all add: new_hop_def)
qed

lemma pipeline_reach_inv:
  assumes "pipeline_reach cf Q np n1 n2 hs f" "length hs = POOL_SIZE" "POOL_SIZE \<le> np" "np < 2 ^ 31"
  shows "pipe_inv cf contents np f"
  using assms(1)
proof induction
  case pipeline_init
  show ?case by (rule inv_pipeline_start [OF assms(2,3)])
next
  case (pipeline_next f th)
  note IH = pipeline_next.IH
  show ?case
  proof (cases th)
    case Stage0
    then show ?thesis
      using inv_stage0 [OF IH assms(3,4)] by (auto simp: pipeline_step_def Let_def split: prod.splits)
  next
    case (Hop1 i)
    then show ?thesis
      using IH inv_hop1 [OF IH assms(3,4)]
      by (auto simp: pipeline_step_def pipe_stage1_def Let_def split: prod.splits)
  next
    case (Hop2 i)
    then show ?thesis
      using IH inv_hop2 [OF IH] by (auto simp: pipeline_step_def pipe_stage2_def Let_def split: prod.splits)
  next
    case Receiver
    then show ?thesis
      using inv_receiver [OF IH assms(3,4)] by (auto simp: pipeline_step_def Let_def split: prod.splits)
  qed
qed

end

interpretation bounded_pipes: pipe_queue "bounded_queue cap" mset for cap ..

text \<open>\<open>travelling\<close>: between the two ends of the pipeline.\<close>

definition travelling :: "('q \<Rightarrow> nat multiset) \<Rightarrow> 'q pipeline \<Rightarrow> nat multiset" where
  "travelling C f = fresh C f + halfway C f + inspected C f"

text \<open>
  C7: in every interleaving, over any queues that keep messages, the packets sent are on their way
  or received, no header is in two places, stage 1 (when it reads) has counted every packet it has
  seen as corrupted and stage 2 none; and when the main thread is done, exactly \<open>np\<close> packets were
  sent and received, none is left on the way, and stage 1 has counted all of them.\<close>

theorem pipeline_accounts:
  assumes "message_queue Q C" "pipeline_reach cf Q np n1 n2 hs f" "length hs = POOL_SIZE"
    and "POOL_SIZE \<le> np" "np < 2 ^ 31"
  shows "packets_sent (pipe0 f) = size (travelling C f) + received (receiving f) \<and> packets_sent (pipe0 f) \<le> np \<and>
    travelling C f + gathered (receiving f) + unused C f \<subseteq># mset_set {..<POOL_SIZE} \<and>
    (read1 cf \<longrightarrow> corrupted (pipe1 f) + size (fresh C f) = packets_sent (pipe0 f)) \<and> corrupted (pipe2 f) = 0 \<and>
    (r_at (receiving f) = RDone \<longrightarrow>
       received (receiving f) = np \<and> packets_sent (pipe0 f) = np \<and> travelling C f = {#} \<and>
       (read1 cf \<longrightarrow> corrupted (pipe1 f) = np))"
proof -
  have q: "pipe_queue Q C" using assms(1) by (rule pipe_queue.intro)
  note inv = pipe_queue.pipeline_reach_inv [OF q assms(2-5)]
  note le = pipe_queue.inv_bounds [OF q inv assms(4)]
  have l: "pipe_ledger cf (headers (net f)) (fresh C f) (halfway C f) (inspected C f) (gathered (receiving f))
      (unused C f) (corrupted (pipe1 f)) (corrupted (pipe2 f)) (packets_sent (pipe0 f)) (received (receiving f))"
    using inv by (simp add: pipe_inv_def)
  have n: "packets_sent (pipe0 f) = size (travelling C f) + received (receiving f)"
    using l by (simp add: pipe_ledger_def travelling_def)
  have all: "received (receiving f) = np" "packets_sent (pipe0 f) = np" "travelling C f = {#}" "size (fresh C f) = 0"
    if "r_at (receiving f) = RDone"
  proof -
    have "np \<le> received (receiving f)"
      using inv that by (simp add: pipe_inv_def receiver_ok_def received_def)
    then have "received (receiving f) = np \<and> packets_sent (pipe0 f) = np \<and> size (travelling C f) = 0"
      using le n by linarith
    then show "received (receiving f) = np" "packets_sent (pipe0 f) = np" "travelling C f = {#}" "size (fresh C f) = 0"
      by (simp_all add: travelling_def)
  qed
  show ?thesis using l n le all by (auto simp: pipe_ledger_def travelling_def)
qed

lemma sample_sent: "packets_sent (pipe0 sample_pipeline) = 8 \<and> size (fresh mset sample_pipeline) = 4"
  by code_simp

lemma pipeline_accounts_witness:
  "size (travelling mset sample_pipeline) + received (receiving sample_pipeline) = 8 \<and>
   corrupted (pipe1 sample_pipeline) = 4 \<and> corrupted (pipe2 sample_pipeline) = 0"
  using pipeline_accounts [OF bounded.message_queue_axioms [of 64] sample_pipeline_reach] sample_sent
  by (simp add: POOL_SIZE_def sample_pipe_config_def)

end
