(* ===== verification/Pipeline_Safe.thy ===== *)
theory Pipeline_Safe
  imports Pipeline
begin

text \<open>
  Well-formed states of the pipeline: what the queues and the local arrays hold are headers of the
  pool, no array takes more than \<open>BULK_SIZE\<close> of them, and every position a thread is about to read
  is one it has filled. It holds for any number of packets, fewer than the pool has headers included.
\<close>

section \<open>Well-formed threads\<close>

definition in_pool :: "nat set \<Rightarrow> bool" where
  "in_pool X \<longleftrightarrow> X \<subseteq> {..<POOL_SIZE}"

definition batch_typed :: "nat list \<Rightarrow> nat \<Rightarrow> bool" where
  "batch_typed ps free \<longleftrightarrow> in_pool (set ps) \<and> length ps + free \<le> BULK_SIZE"

lemma batch_Nil [simp]: "batch_typed [] n \<longleftrightarrow> n \<le> BULK_SIZE"
  by (simp add: batch_typed_def in_pool_def)

lemma in_pool_insert [simp]: "in_pool (insert p X) \<longleftrightarrow> p < POOL_SIZE \<and> in_pool X"
  by (simp add: in_pool_def)

lemma batch_snoc [simp]: "batch_typed (ps @ [p]) n \<longleftrightarrow> p < POOL_SIZE \<and> batch_typed ps (Suc n)"
  by (simp add: batch_typed_def)

lemma batch_Suc [simp]: "batch_typed ps (Suc n) \<Longrightarrow> batch_typed ps n"
  by (simp add: batch_typed_def)

lemma batch_nth: "batch_typed ps n \<Longrightarrow> j < length ps \<Longrightarrow> ps ! j < POOL_SIZE"
  unfolding batch_typed_def in_pool_def using nth_mem by blast

lemma batch_upt: "batch_typed [i..<min (i + BULK_SIZE) POOL_SIZE] 0"
  by (auto simp: batch_typed_def in_pool_def)

definition producer_typed :: "producer \<Rightarrow> bool" where
  "producer_typed t \<longleftrightarrow>
     batch_typed (p_pkts t) (case p_at t of PGather n \<Rightarrow> n | _ \<Rightarrow> 0) \<and>
     (case p_at t of PWrite j \<Rightarrow> j \<le> length (p_pkts t) \<and> p_pkts t \<noteq> []
      | PForward j \<Rightarrow> j < length (p_pkts t) | _ \<Rightarrow> True)"

definition hop_typed :: "hop \<Rightarrow> bool" where
  "hop_typed t \<longleftrightarrow>
     batch_typed (h_pkts t) (case h_at t of HGather n \<Rightarrow> n | _ \<Rightarrow> 0) \<and>
     (case h_at t of HWork j \<Rightarrow> j \<le> length (h_pkts t) \<and> h_pkts t \<noteq> []
      | HForward j \<Rightarrow> j < length (h_pkts t) | _ \<Rightarrow> True)"

definition receiver_typed :: "receiver \<Rightarrow> bool" where
  "receiver_typed m \<longleftrightarrow>
     batch_typed (r_pkts m) (case r_at m of RGather n \<Rightarrow> n | _ \<Rightarrow> 0) \<and> 8 dvd r_2send m \<and>
     (case r_at m of RPush_init i j \<Rightarrow> j < length (r_pkts m)
      | RPush j \<Rightarrow> j < bytes2send m div 8 | _ \<Rightarrow> True)"

lemmas typed_defs = producer_typed_def hop_typed_def receiver_typed_def

text \<open>\<open>C\<close> gives the messages of a queue.\<close>

definition pipes_typed :: "('q \<Rightarrow> nat multiset) \<Rightarrow> 'q pipes \<Rightarrow> bool" where
  "pipes_typed C s \<longleftrightarrow>
     in_pool (set_mset (C (p01 s))) \<and> in_pool (set_mset (C (p12 s))) \<and>
     in_pool (set_mset (C (p23 s))) \<and> in_pool (set_mset (C (p30 s))) \<and> length (headers s) = POOL_SIZE"

definition pipeline_typed :: "('q \<Rightarrow> nat multiset) \<Rightarrow> 'q pipeline \<Rightarrow> bool" where
  "pipeline_typed C f \<longleftrightarrow>
     pipes_typed C (net f) \<and> producer_typed (pipe0 f) \<and> (\<forall>t \<in> set (pipe1 f). hop_typed t) \<and>
     (\<forall>t \<in> set (pipe2 f). hop_typed t) \<and> receiver_typed (receiving f)"

lemma receiver_push_bounds:
  assumes "receiver_typed m" "r_at m = RPush j"
  shows "j < length (r_pkts m)" "bytes2send m div 8 \<le> length (r_pkts m)"
    "8 dvd r_2send m - bytes2send m"
proof -
  show le: "bytes2send m div 8 \<le> length (r_pkts m)" by (auto simp: bytes2send_def)
  show "8 dvd r_2send m - bytes2send m" using assms(1) by (auto simp: receiver_typed_def bytes2send_def)
  have "j < bytes2send m div 8" using assms by (simp add: receiver_typed_def)
  with le show "j < length (r_pkts m)" by simp
qed

section \<open>Every step keeps them\<close>

locale pool_queue = message_queue Q contents
  for Q :: "('q, nat) queue_ops" and contents
begin

lemma stage0_typed:
  assumes "stage0_step Q k np (s, t) = (s', t')" "pipes_typed contents s" "producer_typed t"
  shows "pipes_typed contents s' \<and> producer_typed t'"
proof (cases "p_at t")
  case (PGather n)
  then show ?thesis
    using assms by (cases n) (auto simp: stage0_step_def pipes_typed_def producer_typed_def pop_contents
        split: option.splits)
next
  case (PForward j)
  then show ?thesis
    using assms by (auto simp: stage0_step_def pipes_typed_def producer_typed_def push_contents batch_nth
        split: option.splits if_splits)
qed (use assms in \<open>auto simp: stage0_step_def pipes_typed_def producer_typed_def split: if_splits\<close>)

lemma hop_typed_step:
  assumes "hop_step cf d Q k (s, t) = (s', t')" "pipes_typed contents s" "hop_typed t"
  shows "pipes_typed contents s' \<and> hop_typed t'"
proof (cases "h_at t")
  case (HGather n)
  then show ?thesis
    using assms by (cases n; cases d) (auto simp: hop_step_def pipes_typed_def hop_typed_def
        inlet_def set_inlet_def pop_contents split: option.splits)
next
  case (HForward j)
  then show ?thesis
    using assms by (cases d) (auto simp: hop_step_def hop_gather_def pipes_typed_def hop_typed_def
        outlet_def set_outlet_def push_contents batch_nth split: option.splits if_splits)
qed (use assms in \<open>auto simp: hop_step_def hop_gather_def Let_def pipes_typed_def hop_typed_def split: if_splits\<close>)

lemma receiver_typed_step:
  assumes step: "receiver_step Q k np (s, m) = (s', m')" and s: "pipes_typed contents s" and m: "receiver_typed m"
  shows "pipes_typed contents s' \<and> receiver_typed m'"
proof (cases "r_at m")
  case (RFill i)
  show ?thesis
  proof (cases "i < POOL_SIZE")
    case True
    then show ?thesis
      using step s m batch_upt [of i]
      by (auto simp: receiver_step_def RFill receiver_typed_def BULK_SIZE_def)
  next
    case False
    define b where "b = ((np + 2 ^ 64 - POOL_SIZE) * 8) mod (2 ^ 64 :: nat)"
    have "8 dvd b" unfolding b_def by (rule dvd_mod) simp_all
    moreover have "receiver_step Q k np (s, m) = (s, m\<lparr>r_2send := b, r_recvd := 0, r_at := RLoop\<rparr>)"
      by (simp only: receiver_step_def prod.case RFill at_receiver.case False if_False b_def)
    ultimately show ?thesis using step s m RFill by (auto simp: receiver_typed_def)
  qed
next
  case (RPush j)
  have nx: "bytes2send (m\<lparr>r_at := pc\<rparr>) = bytes2send m" for pc by (simp add: bytes2send_def)
  note b = receiver_push_bounds [OF m RPush]
  show ?thesis
    using step s m b
    using RPush by (auto simp: receiver_step_def pipes_typed_def receiver_typed_def nx push_contents batch_nth
        split: option.splits if_splits)
next
  case RRecycle
  have nx: "bytes2send (m\<lparr>r_at := pc\<rparr>) = bytes2send m" for pc by (simp add: bytes2send_def)
  have "8 dvd bytes2send m" using m by (simp add: receiver_typed_def bytes2send_def)
  then have "bytes2send m \<noteq> 0 \<Longrightarrow> 0 < bytes2send m div 8" by auto
  then show ?thesis using step s m RRecycle by (auto simp: receiver_step_def receiver_typed_def nx)
qed (use step s m in \<open>auto simp: receiver_step_def pipes_typed_def receiver_typed_def
    push_contents pop_contents batch_nth split: nat.splits option.splits if_splits\<close>)

lemma typed_update: "(\<forall>t \<in> set ts. P t) \<Longrightarrow> P t' \<Longrightarrow> (\<forall>t \<in> set (ts[i := t']). P t)"
  using set_update_subset_insert by fastforce

lemma pipeline_reach_typed:
  assumes "pipeline_reach cf Q np n1 n2 hs f" "length hs = POOL_SIZE"
  shows "pipeline_typed contents f"
  using assms(1)
proof induction
  case pipeline_init
  show ?case
    using assms(2)
    by (auto simp: pipeline_start_def pipeline_typed_def pipes_typed_def typed_defs new_hop_def in_pool_def
        contents_empty)
next
  case (pipeline_next f th)
  have ok: "pipes_typed contents (net f)" "producer_typed (pipe0 f)" "\<forall>t \<in> set (pipe1 f). hop_typed t"
    "\<forall>t \<in> set (pipe2 f). hop_typed t" "receiver_typed (receiving f)"
    using pipeline_next.IH by (simp_all add: pipeline_typed_def)
  show ?case
  proof (cases th)
    case Stage0
    then show ?thesis
      using ok by (auto simp: pipeline_typed_def pipeline_step_def Let_def dest: stage0_typed split: prod.splits)
  next
    case (Hop1 i)
    show ?thesis
    proof (cases "i < length (pipe1 f)")
      case True
      obtain s t where st: "pipe_stage1 cf Q (2 + length (pipe1 f) + length (pipe2 f)) (net f, pipe1 f ! i) = (s, t)"
        by (rule prod.exhaust)
      have "pipes_typed contents s \<and> hop_typed t"
        by (rule hop_typed_step [OF st [unfolded pipe_stage1_def] ok(1)]) (simp add: ok(3) True)
      then show ?thesis
        using ok typed_update [OF ok(3), of t i] st True by (simp add: pipeline_typed_def pipeline_step_def Hop1)
    qed (use pipeline_next.IH in \<open>simp add: pipeline_step_def Hop1\<close>)
  next
    case (Hop2 i)
    show ?thesis
    proof (cases "i < length (pipe2 f)")
      case True
      obtain s t where st: "pipe_stage2 cf Q (2 + length (pipe1 f) + length (pipe2 f)) (net f, pipe2 f ! i) = (s, t)"
        by (rule prod.exhaust)
      have "pipes_typed contents s \<and> hop_typed t"
        by (rule hop_typed_step [OF st [unfolded pipe_stage2_def] ok(1)]) (simp add: ok(4) True)
      then show ?thesis
        using ok typed_update [OF ok(4), of t i] st True by (simp add: pipeline_typed_def pipeline_step_def Hop2)
    qed (use pipeline_next.IH in \<open>simp add: pipeline_step_def Hop2\<close>)
  next
    case Receiver
    then show ?thesis
      using ok by (auto simp: pipeline_typed_def pipeline_step_def Let_def dest: receiver_typed_step split: prod.splits)
  qed
qed

end

interpretation bounded_pool: pool_queue "bounded_queue cap" mset for cap ..

text \<open>
  C17: in every interleaving, over any queues that keep messages and for any number of packets, every
  queue and every local array holds headers of the pool only, no thread writes past the end of its array,
  and each cursor is at a position the thread has filled.\<close>

theorem pipeline_well_typed:
  assumes "message_queue Q C" "pipeline_reach cf Q np n1 n2 hs f" "length hs = POOL_SIZE"
  shows "pipeline_typed C f"
  using pool_queue.pipeline_reach_typed [OF pool_queue.intro [OF assms(1)] assms(2,3)] .

lemma pipeline_well_typed_witness: "pipeline_typed mset sample_pipeline"
  by (rule pipeline_well_typed [OF bounded.message_queue_axioms [of 64] sample_pipeline_reach])
    (simp add: POOL_SIZE_def)

end
