(* ===== verification/Ember.thy ===== *)
theory Ember
  imports Queues
begin

text \<open>
  The communication patterns of \<^verbatim>\<open>apps/ember/ember.cpp\<close>, in the build with
  \<^verbatim>\<open>boost::lockfree::queue\<close>: a grid of threads that exchange messages with their
  neighbours (\<open>sweep\<close>, \<open>halo\<close>), or a master and slaves with one queue (\<open>incast\<close>,
  \<open>outcast\<close>). A message is a number of doubles, which are pushed and popped one by one; the doubles
  are of any type here. The operations of the queues are the parameter \<open>Q\<close>; a step of a thread is
  one operation on a queue, or one step of its control.
\<close>

section \<open>The grid\<close>

text \<open>The arguments are not negative, so that the division of C++ is \<open>div\<close>.\<close>

definition get_position :: "int \<Rightarrow> int \<Rightarrow> int \<times> int" where
  "get_position rank pex = (rank mod pex, rank div pex)"

datatype dir = XUp | XDn | YUp | YDn

definition get_neighbor :: "int \<Rightarrow> int \<Rightarrow> int \<Rightarrow> int \<Rightarrow> int \<Rightarrow> dir \<Rightarrow> int" where
  "get_neighbor rank pex pey x y d =
     (case d of
        XUp \<Rightarrow> if x \<noteq> pex - 1 then rank + 1 else -1
      | XDn \<Rightarrow> if x \<noteq> 0 then rank - 1 else -1
      | YUp \<Rightarrow> if y \<noteq> pey - 1 then rank + pex else -1
      | YDn \<Rightarrow> if y \<noteq> 0 then rank - pex else -1)"

text \<open>The queues a thread receives from (\<open>Rx\<close>) and sends to (\<open>Tx\<close>), by direction.\<close>

definition get_queue_id :: "int \<Rightarrow> int \<Rightarrow> int \<Rightarrow> int \<Rightarrow> (dir \<Rightarrow> int) \<times> (dir \<Rightarrow> int)" where
  "get_queue_id x y pex pey =
     (let xDnRx = x + y * (pex - 1);
          xUpTx = xDnRx + 1;
          tmp = pey * (pex - 1);
          xUpRx = xUpTx + tmp;
          xDnTx = xDnRx + tmp;
          tmp = tmp * 2;
          yDnRx = y + x * (pey - 1) + tmp;
          yUpTx = yDnRx + 1;
          tmp = pex * (pey - 1);
          yUpRx = yUpTx + tmp;
          yDnTx = yDnRx + tmp
      in (\<lambda>d. case d of XUp \<Rightarrow> xUpRx | XDn \<Rightarrow> xDnRx | YUp \<Rightarrow> yUpRx | YDn \<Rightarrow> yDnRx,
          \<lambda>d. case d of XUp \<Rightarrow> xUpTx | XDn \<Rightarrow> xDnTx | YUp \<Rightarrow> yUpTx | YDn \<Rightarrow> yDnTx))"

section \<open>The patterns\<close>

text \<open>
  What a thread does in one iteration: pushes to and pops from queues, or nothing where a neighbour
  is missing. The sleeping between them is left out.
\<close>

datatype act = Push_to int | Pop_from int | Skip

definition recv_dir :: "(dir \<Rightarrow> int) \<Rightarrow> (dir \<Rightarrow> int) \<Rightarrow> dir \<Rightarrow> act" where
  "recv_dir near rx d = (if -1 < near d then Pop_from (rx d) else Skip)"

definition send_dir :: "(dir \<Rightarrow> int) \<Rightarrow> (dir \<Rightarrow> int) \<Rightarrow> dir \<Rightarrow> act" where
  "send_dir near tx d = (if -1 < near d then Push_to (tx d) else Skip)"

definition sweep :: "(dir \<Rightarrow> int) \<Rightarrow> (dir \<Rightarrow> int) \<Rightarrow> (dir \<Rightarrow> int) \<Rightarrow> act list" where
  "sweep near rx tx =
     (let r = recv_dir near rx; s = send_dir near tx in
      [r XDn, r YDn, s XUp, s YUp,
       r XUp, r YUp, s XDn, s YDn,
       r XUp, r YDn, s XDn, s YUp,
       r XDn, r YUp, s XUp, s YDn])"

definition halo :: "(dir \<Rightarrow> int) \<Rightarrow> (dir \<Rightarrow> int) \<Rightarrow> (dir \<Rightarrow> int) \<Rightarrow> act list" where
  "halo near rx tx =
     (let r = recv_dir near rx; s = send_dir near tx in
      [s XUp, s XDn, s YUp, s YDn, r XUp, r XDn, r YUp, r YDn])"

definition incast :: "bool \<Rightarrow> nat \<Rightarrow> act list" where
  "incast isMaster nthreads = (if isMaster then replicate (nthreads - 1) (Pop_from 0) else [Push_to 0])"

definition outcast :: "bool \<Rightarrow> nat \<Rightarrow> act list" where
  "outcast isMaster nthreads = (if isMaster then replicate (nthreads - 1) (Push_to 0) else [Pop_from 0])"

text \<open>Which of the \<^verbatim>\<open>EMBER_\<close> options is defined.\<close>

datatype ember_pattern = Sweep2d | Halo2d | Incast | Outcast

definition worker_body :: "ember_pattern \<Rightarrow> nat \<Rightarrow> nat \<Rightarrow> nat \<Rightarrow> act list" where
  "worker_body pat pex pey pid =
     (let isMaster = (0 = pid);
          (x, y) = get_position (int pid) (int pex);
          near = get_neighbor (int pid) (int pex) (int pey) x y;
          (rx, tx) = get_queue_id x y (int pex) (int pey)
      in case pat of
           Sweep2d \<Rightarrow> sweep near rx tx
         | Halo2d \<Rightarrow> halo near rx tx
         | Incast \<Rightarrow> incast isMaster (pex * pey)
         | Outcast \<Rightarrow> outcast isMaster (pex * pey))"

section \<open>The threads\<close>

text \<open>
  \<open>w_iter\<close>, \<open>w_act\<close>, \<open>w_idx\<close> are the iteration, the position in its body and the number of
  doubles handled, a 16-bit integer. \<open>Astray\<close> is an access outside \<^verbatim>\<open>boost_queues\<close>.
\<close>

datatype at_worker = Arrive | Await | Run | Astray | Over

record 'm ember_worker =
  w_at :: at_worker
  w_iter :: nat
  w_act :: nat
  w_idx :: u16
  w_msg :: 'm

record ('q, 'm) ember =
  boost_queues :: "'q list"
  ready :: nat
  workers :: "'m ember_worker list"

definition the_queue :: "('q, 'm) ember \<Rightarrow> int \<Rightarrow> 'q option" where
  "the_queue s q = (if 0 \<le> q \<and> q < int (length (boost_queues s)) then Some (boost_queues s ! nat q) else None)"

text \<open>One turn of the loop over the doubles; at its end the thread goes on to the next act.\<close>

definition next_act :: "'m ember_worker \<Rightarrow> 'm ember_worker" where
  "next_act w = w\<lparr>w_act := w_act w + 1, w_idx := 0\<rparr>"

definition act_step ::
  "('q, 'm) queue_ops \<Rightarrow> nat \<Rightarrow> act \<Rightarrow> ('q, 'm) ember \<Rightarrow> 'm ember_worker \<Rightarrow> 'q list \<times> 'm ember_worker" where
  "act_step Q ndoubles a s w =
     (let qs = boost_queues s in
      if a = Skip \<or> \<not> unat (w_idx w) < ndoubles then (qs, next_act w)
      else case a of
        Push_to i \<Rightarrow>
          (case the_queue s i of
             None \<Rightarrow> (qs, w\<lparr>w_at := Astray\<rparr>)
           | Some q \<Rightarrow>
               (case q_push Q (w_msg w) q of
                  None \<Rightarrow> (qs, w)
                | Some q' \<Rightarrow> (qs[nat i := q'], w\<lparr>w_idx := w_idx w + 1\<rparr>)))
      | Pop_from i \<Rightarrow>
          (case the_queue s i of
             None \<Rightarrow> (qs, w\<lparr>w_at := Astray\<rparr>)
           | Some q \<Rightarrow>
               (case q_pop Q q of
                  None \<Rightarrow> (qs, w)
                | Some (m, q') \<Rightarrow> (qs[nat i := q'], w\<lparr>w_idx := w_idx w + 1, w_msg := m\<rparr>)))
      | Skip \<Rightarrow> (qs, w))"

definition ember_worker_step ::
  "(nat \<Rightarrow> act list) \<Rightarrow> nat \<Rightarrow> nat \<Rightarrow> ('q, 'm) queue_ops \<Rightarrow> nat \<Rightarrow> ('q, 'm) ember \<Rightarrow> ('q, 'm) ember" where
  "ember_worker_step body repeats ndoubles Q pid s =
     (let w = workers s ! pid; nthreads = length (workers s);
          go = (\<lambda>w'. s\<lparr>workers := (workers s)[pid := w']\<rparr>) in
      case w_at w of
        Arrive \<Rightarrow>
          if 0 < pid then (go (w\<lparr>w_at := Await\<rparr>))\<lparr>ready := ready s + 1\<rparr>
          else if nthreads - 1 = ready s then (go (w\<lparr>w_at := Run\<rparr>))\<lparr>ready := ready s + 1\<rparr>
          else s
      | Await \<Rightarrow> if nthreads = ready s then go (w\<lparr>w_at := Run\<rparr>) else s
      | Run \<Rightarrow>
          if \<not> w_iter w < repeats then go (w\<lparr>w_at := Over\<rparr>)
          else if w_act w < length (body pid) then
            let (qs, w') = act_step Q ndoubles (body pid ! w_act w) s w
            in (go w')\<lparr>boost_queues := qs\<rparr>
          else go (w\<lparr>w_iter := w_iter w + 1, w_act := 0\<rparr>)
      | Astray \<Rightarrow> s
      | Over \<Rightarrow> s)"

text \<open>\<open>msgs\<close> is what the buffers of the threads hold at first.\<close>

definition queue_count :: "ember_pattern \<Rightarrow> nat \<Rightarrow> nat \<Rightarrow> nat" where
  "queue_count pat pex pey =
     (if pat = Incast then 1 else nat (int pex * int pey * 4 - (int pex + int pey) * 2 + 1))"

definition ember_start :: "ember_pattern \<Rightarrow> nat \<Rightarrow> nat \<Rightarrow> ('q, 'm) queue_ops \<Rightarrow> (nat \<Rightarrow> 'm) \<Rightarrow> ('q, 'm) ember" where
  "ember_start pat pex pey Q msgs =
     \<lparr>boost_queues = replicate (queue_count pat pex pey) (q_empty Q), ready = 0,
      workers = map (\<lambda>i. \<lparr>w_at = Arrive, w_iter = 0, w_act = 0, w_idx = 0, w_msg = msgs i\<rparr>) [0..<pex * pey]\<rparr>"

definition ember_turn ::
  "(nat \<Rightarrow> act list) \<Rightarrow> nat \<Rightarrow> nat \<Rightarrow> ('q, 'm) queue_ops \<Rightarrow> nat \<Rightarrow> ('q, 'm) ember \<Rightarrow> ('q, 'm) ember" where
  "ember_turn body repeats ndoubles Q pid s =
     (if pid < length (workers s) then ember_worker_step body repeats ndoubles Q pid s else s)"

primrec ember_run ::
  "(nat \<Rightarrow> act list) \<Rightarrow> nat \<Rightarrow> nat \<Rightarrow> ('q, 'm) queue_ops \<Rightarrow> (nat \<Rightarrow> nat) \<Rightarrow> ('q, 'm) ember \<Rightarrow> nat \<Rightarrow> ('q, 'm) ember" where
  "ember_run body repeats ndoubles Q \<sigma> s 0 = s"
| "ember_run body repeats ndoubles Q \<sigma> s (Suc n) =
     ember_turn body repeats ndoubles Q (\<sigma> n) (ember_run body repeats ndoubles Q \<sigma> s n)"

end
