(* ===== verification/Ember_Flow.thy ===== *)
theory Ember_Flow
  imports Ember
begin

text \<open>
  Threads that push to and pop from queues, each by its own list of acts that it repeats: what is in
  a queue is what was pushed and not popped, and if the pops of every thread are supplied in time,
  the threads never block each other for good. The locale \<open>ember_net\<close> says what is asked of the
  lists; the patterns of \<^verbatim>\<open>ember.cpp\<close> are its interpretations.
\<close>

section \<open>Counting\<close>

definition acts_done :: "(nat \<Rightarrow> act list) \<Rightarrow> nat \<Rightarrow> act \<Rightarrow> nat \<times> nat \<Rightarrow> nat" where
  "acts_done body t a p = fst p * count_list (body t) a + count_list (take (snd p) (body t)) a"

definition units :: "(nat \<Rightarrow> act list) \<Rightarrow> nat \<Rightarrow> nat \<Rightarrow> act \<Rightarrow> 'm ember_worker \<Rightarrow> nat" where
  "units body nd t a w =
     nd * acts_done body t a (w_iter w, w_act w) +
     (if w_act w < length (body t) \<and> body t ! w_act w = a then unat (w_idx w) else 0)"

definition total_units :: "(nat \<Rightarrow> act list) \<Rightarrow> nat \<Rightarrow> act \<Rightarrow> 'm ember_worker list \<Rightarrow> nat" where
  "total_units body nd a ws = (\<Sum>t < length ws. units body nd t a (ws ! t))"

lemma count_list_take_Suc:
  "k < length xs \<Longrightarrow> count_list (take (Suc k) xs) a = count_list (take k xs) a + (if xs ! k = a then 1 else 0)"
  by (simp add: take_Suc_conv_app_nth)

lemma count_list_take_le: "k \<le> k' \<Longrightarrow> count_list (take k xs) a \<le> count_list (take k' xs) a"
proof -
  assume "k \<le> k'"
  then have "take k' xs = take k xs @ take (k' - k) (drop k xs)"
    using take_add [of k "k' - k" xs] by simp
  then show ?thesis by simp
qed

lemma sum_update_worker:
  fixes f :: "nat \<Rightarrow> 'a \<Rightarrow> nat"
  assumes "t < length ws"
  shows "(\<Sum>u < length ws. f u (ws[t := w] ! u)) + f t (ws ! t) = (\<Sum>u < length ws. f u (ws ! u)) + f t w"
proof -
  have "(\<Sum>u < length ws. f u (ws[t := w] ! u)) = f t w + (\<Sum>u \<in> {..<length ws} - {t}. f u (ws ! u))"
    using assms sum.remove [of "{..<length ws}" t "\<lambda>u. f u (ws[t := w] ! u)"] by simp
  moreover have "(\<Sum>u < length ws. f u (ws ! u)) = f t (ws ! t) + (\<Sum>u \<in> {..<length ws} - {t}. f u (ws ! u))"
    using assms sum.remove [of "{..<length ws}" t "\<lambda>u. f u (ws ! u)"] by simp
  ultimately show ?thesis by simp
qed

lemma total_units_update:
  "t < length ws \<Longrightarrow>
    total_units body nd a (ws[t := w]) + units body nd t a (ws ! t) = total_units body nd a ws + units body nd t a w"
  using sum_update_worker [of t ws "\<lambda>u. units body nd u a"] by (simp add: total_units_def)

lemma units_at [simp]:
  "units body nd t a (w\<lparr>w_at := x\<rparr>) = units body nd t a w" "units body nd t a (w\<lparr>w_msg := m\<rparr>) = units body nd t a w"
  by (simp_all add: units_def)

section \<open>Well-formed threads\<close>

definition worker_ok :: "(nat \<Rightarrow> act list) \<Rightarrow> nat \<Rightarrow> nat \<Rightarrow> nat \<Rightarrow> 'm ember_worker \<Rightarrow> bool" where
  "worker_ok body reps nd t w \<longleftrightarrow>
     w_act w \<le> length (body t) \<and> unat (w_idx w) \<le> nd \<and> w_iter w \<le> reps \<and>
     (w_act w = length (body t) \<longrightarrow> w_idx w = 0) \<and>
     (w_act w < length (body t) \<and> body t ! w_act w = Skip \<longrightarrow> w_idx w = 0) \<and>
     (w_iter w = reps \<longrightarrow> w_act w = 0 \<and> w_idx w = 0) \<and> w_at w \<noteq> Astray \<and>
     (w_at w = Over \<longrightarrow> w_iter w = reps) \<and>
     (w_at w \<in> {Arrive, Await} \<longrightarrow> w_iter w = 0 \<and> w_act w = 0 \<and> w_idx w = 0)"

text \<open>What is left to do, an upper bound of the turns that change the thread.\<close>

definition left_to_do :: "(nat \<Rightarrow> act list) \<Rightarrow> nat \<Rightarrow> nat \<Rightarrow> nat \<Rightarrow> 'm ember_worker \<Rightarrow> nat" where
  "left_to_do body reps nd t w =
     (case w_at w of Arrive \<Rightarrow> 3 | Await \<Rightarrow> 2 | Run \<Rightarrow> 1 | _ \<Rightarrow> 0) +
     ((reps - w_iter w) * (length (body t) * (nd + 2) + 1) - (w_act w * (nd + 2) + unat (w_idx w)))"

lemma unat_Suc: "unat (x :: u16) < nd \<Longrightarrow> nd < 2 ^ 16 \<Longrightarrow> unat (x + 1) = Suc (unat x)"
  by (simp add: unat_word_ariths)

lemma units_idx:
  assumes "w_act w < length (body t)" "unat (w_idx w) < nd" "nd < 2 ^ 16"
  shows "units body nd t a (w\<lparr>w_idx := w_idx w + 1\<rparr>) =
    units body nd t a w + (if body t ! w_act w = a then 1 else 0)"
  using assms by (simp add: units_def unat_Suc)

lemma units_next:
  assumes "w_act w < length (body t)" "body t ! w_act w = Skip \<or> unat (w_idx w) = nd" "a \<noteq> Skip"
  shows "units body nd t a (next_act w) = units body nd t a w"
  using assms
  by (auto simp: units_def next_act_def acts_done_def count_list_take_Suc distrib_left)

lemma units_iter:
  assumes "w_act w = length (body t)" "w_idx w = 0"
  shows "units body nd t a (w\<lparr>w_iter := w_iter w + 1, w_act := 0\<rparr>) = units body nd t a w"
  using assms by (simp add: units_def acts_done_def distrib_left)

lemma left_to_do_fits:
  assumes "worker_ok body reps nd t w" "w_iter w < reps"
  shows "w_act w * (nd + 2) + unat (w_idx w) + 1 \<le> length (body t) * (nd + 2) + 1"
    "length (body t) * (nd + 2) + 1 \<le> (reps - w_iter w) * (length (body t) * (nd + 2) + 1)"
proof -
  show "w_act w * (nd + 2) + unat (w_idx w) + 1 \<le> length (body t) * (nd + 2) + 1"
  proof (cases "w_act w = length (body t)")
    case False
    then have "w_act w + 1 \<le> length (body t)" "unat (w_idx w) \<le> nd" using assms(1) by (auto simp: worker_ok_def)
    then have "(w_act w + 1) * (nd + 2) \<le> length (body t) * (nd + 2)" by (intro mult_le_mono1)
    then show ?thesis using \<open>unat (w_idx w) \<le> nd\<close> by simp
  qed (use assms(1) in \<open>auto simp: worker_ok_def\<close>)
  have "1 * (length (body t) * (nd + 2) + 1) \<le> (reps - w_iter w) * (length (body t) * (nd + 2) + 1)"
    using assms(2) by (intro mult_le_mono1) simp
  then show "length (body t) * (nd + 2) + 1 \<le> (reps - w_iter w) * (length (body t) * (nd + 2) + 1)" by simp
qed

lemma left_idx:
  assumes "worker_ok body reps nd t w" "w_at w = Run" "w_iter w < reps" "unat (w_idx w) < nd" "nd < 2 ^ 16"
  shows "left_to_do body reps nd t (w\<lparr>w_idx := w_idx w + 1\<rparr>) < left_to_do body reps nd t w"
    "left_to_do body reps nd t (w\<lparr>w_idx := w_idx w + 1, w_msg := m\<rparr>) < left_to_do body reps nd t w"
  using left_to_do_fits [OF assms(1,3)] assms by (auto simp: left_to_do_def unat_Suc)

lemma left_next:
  assumes "worker_ok body reps nd t w" "w_at w = Run" "w_iter w < reps" "w_act w < length (body t)"
  shows "left_to_do body reps nd t (next_act w) < left_to_do body reps nd t w"
  using left_to_do_fits [OF assms(1,3)] assms by (auto simp: left_to_do_def next_act_def worker_ok_def)

lemma left_iter:
  assumes "worker_ok body reps nd t w" "w_at w = Run" "w_iter w < reps" "w_act w = length (body t)"
  shows "left_to_do body reps nd t (w\<lparr>w_iter := w_iter w + 1, w_act := 0\<rparr>) < left_to_do body reps nd t w"
proof -
  have "reps - w_iter w = Suc (reps - (w_iter w + 1))" using assms(3) by simp
  then have "(reps - w_iter w) * (length (body t) * (nd + 2) + 1) =
      length (body t) * (nd + 2) + 1 + (reps - (w_iter w + 1)) * (length (body t) * (nd + 2) + 1)"
    by (metis mult_Suc)
  then show ?thesis using assms by (simp add: left_to_do_def worker_ok_def)
qed

section \<open>The invariant\<close>

definition arrived_at :: "'m ember_worker \<Rightarrow> nat" where
  "arrived_at w = (if w_at w = Arrive then 0 else 1)"

text \<open>\<open>C\<close> gives the messages of a queue.\<close>

definition ember_ok ::
  "('q \<Rightarrow> 'm multiset) \<Rightarrow> (nat \<Rightarrow> act list) \<Rightarrow> nat \<Rightarrow> nat \<Rightarrow> nat \<Rightarrow> nat \<Rightarrow> ('q, 'm) ember \<Rightarrow> bool" where
  "ember_ok C body reps nd n nq s \<longleftrightarrow>
     length (workers s) = n \<and> length (boost_queues s) = nq \<and>
     (\<forall>t < n. worker_ok body reps nd t (workers s ! t)) \<and>
     ready s = (\<Sum>t < n. arrived_at (workers s ! t)) \<and>
     (\<forall>i < nq. size (C (boost_queues s ! i)) + total_units body nd (Pop_from (int i)) (workers s) =
       total_units body nd (Push_to (int i)) (workers s))"

definition ember_left :: "(nat \<Rightarrow> act list) \<Rightarrow> nat \<Rightarrow> nat \<Rightarrow> ('q, 'm) ember \<Rightarrow> nat" where
  "ember_left body reps nd s = (\<Sum>t < length (workers s). left_to_do body reps nd t (workers s ! t))"

text \<open>A change of one worker that handles \<open>x\<close>, if at all.\<close>

definition moves_on ::
  "(nat \<Rightarrow> act list) \<Rightarrow> nat \<Rightarrow> nat \<Rightarrow> nat \<Rightarrow> act option \<Rightarrow> 'm ember_worker \<Rightarrow> 'm ember_worker \<Rightarrow> bool" where
  "moves_on body reps nd t x w w' \<longleftrightarrow>
     worker_ok body reps nd t w' \<and> left_to_do body reps nd t w' < left_to_do body reps nd t w \<and>
     (\<forall>a. a \<noteq> Skip \<longrightarrow> units body nd t a w' = units body nd t a w + (if x = Some a then 1 else 0)) \<and>
     w_at w' \<noteq> Arrive"

locale ember_net = message_queue Q contents
  for Q :: "('q, 'm) queue_ops" and contents +
  fixes body :: "nat \<Rightarrow> act list" and n nq reps nd :: nat
  assumes in_range: "\<lbrakk>t < n; Push_to i \<in> set (body t) \<or> Pop_from i \<in> set (body t)\<rbrakk> \<Longrightarrow> 0 \<le> i \<and> i < int nq"
    and nd_fits: "nd < 2 ^ 16"
begin

abbreviation "ok \<equiv> ember_ok contents body reps nd n nq"
abbreviation "turn \<equiv> ember_turn body reps nd Q"

lemma control_cases:
  assumes ok: "ok s" and t: "t < n" and s': "s' = ember_worker_step body reps nd Q t s"
    and idle: "\<not> (w_at (workers s ! t) = Run \<and> w_iter (workers s ! t) < reps \<and> w_act (workers s ! t) < length (body t))"
  obtains (same) "s' = s"
  | (control) w' r where "s' = s\<lparr>workers := (workers s)[t := w'], ready := r\<rparr>"
      "r = ready s + (1 - arrived_at (workers s ! t))" "moves_on body reps nd t None (workers s ! t) w'"
proof -
  let ?w = "workers s ! t"
  have w: "worker_ok body reps nd t ?w" using ok t by (simp add: ember_ok_def)
  show ?thesis
  proof (cases "w_at ?w = Run \<and> w_iter ?w < reps")
    case True
    then have a: "w_act ?w = length (body t)" "w_idx ?w = 0" using idle w by (auto simp: worker_ok_def)
    let ?w' = "?w\<lparr>w_iter := w_iter ?w + 1, w_act := 0\<rparr>"
    have "moves_on body reps nd t None ?w ?w'"
      using True a w left_iter [OF w _ _ a(1)] units_iter [where w = ?w and body = body and t = t, OF a]
      by (simp add: moves_on_def worker_ok_def)
    then show ?thesis
      using control [where w' = "?w'" and r = "ready s"] s' True a by (simp add: ember_worker_step_def Let_def arrived_at_def)
  next
    case False
    have move: "moves_on body reps nd t None ?w (?w\<lparr>w_at := p\<rparr>)"
      if "(p = Await \<and> w_at ?w = Arrive) \<or> (p = Run \<and> w_at ?w \<in> {Arrive, Await}) \<or> (p = Over \<and> w_at ?w = Run)" for p
      using that False w by (auto simp: moves_on_def worker_ok_def left_to_do_def)
    show ?thesis
      using s' False same control [where w' = "?w\<lparr>w_at := Await\<rparr>" and r = "ready s + 1"] control [where w' = "?w\<lparr>w_at := Run\<rparr>" and r = "ready s + 1"]
        control [where w' = "?w\<lparr>w_at := Run\<rparr>" and r = "ready s"] control [where w' = "?w\<lparr>w_at := Over\<rparr>" and r = "ready s"]
        move [of Await] move [of Run] move [of Over]
      by (cases "w_at ?w") (auto simp: ember_worker_step_def Let_def arrived_at_def split: if_splits)
  qed
qed

text \<open>One double is handled, or the queue does not let it.\<close>

lemma act_cases:
  assumes ok: "ok s" and t: "t < n"
    and run: "w_at (workers s ! t) = Run" "w_iter (workers s ! t) < reps" "w_act (workers s ! t) < length (body t)"
    and idx: "unat (w_idx (workers s ! t)) < nd" and a: "body t ! w_act (workers s ! t) \<noteq> Skip"
    and s1: "s' = (let (qs, w') = act_step Q nd (body t ! w_act (workers s ! t)) s (workers s ! t)
      in s\<lparr>workers := (workers s)[t := w'], boost_queues := qs\<rparr>)"
  obtains (same) "s' = s"
  | (push) i q' w' where "i < nq" "q_push Q (w_msg (workers s ! t)) (boost_queues s ! i) = Some q'"
      "s' = s\<lparr>workers := (workers s)[t := w'], boost_queues := (boost_queues s)[i := q']\<rparr>"
      "w_at (workers s ! t) = Run" "moves_on body reps nd t (Some (Push_to (int i))) (workers s ! t) w'"
  | (pop) i m q' w' where "i < nq" "q_pop Q (boost_queues s ! i) = Some (m, q')"
      "s' = s\<lparr>workers := (workers s)[t := w'], boost_queues := (boost_queues s)[i := q']\<rparr>"
      "w_at (workers s ! t) = Run" "moves_on body reps nd t (Some (Pop_from (int i))) (workers s ! t) w'"
proof -
  let ?w = "workers s ! t" and ?a = "body t ! w_act (workers s ! t)"
  have w: "worker_ok body reps nd t ?w" and len: "length (workers s) = n" "length (boost_queues s) = nq"
    using ok t by (simp_all add: ember_ok_def)
  have mem: "?a \<in> set (body t)" using run(3) by simp
  have suc: "unat (w_idx ?w + 1) = Suc (unat (w_idx ?w))" by (rule unat_Suc [OF idx nd_fits])
  have ok': "worker_ok body reps nd t (?w\<lparr>w_idx := w_idx ?w + 1, w_msg := m\<rparr>)" for m
    using w run idx suc a by (auto simp: worker_ok_def)
  have move: "moves_on body reps nd t (Some ?a) ?w (?w\<lparr>w_idx := w_idx ?w + 1, w_msg := m\<rparr>)" for m
    using ok' left_idx(2) [OF w run(1,2) idx nd_fits] run suc by (auto simp: moves_on_def units_def)
  have move': "moves_on body reps nd t (Some ?a) ?w (?w\<lparr>w_idx := w_idx ?w + 1\<rparr>)"
    using move [of "w_msg ?w"] by simp
  show ?thesis
  proof (cases ?a)
    case (Push_to i)
    then have i: "0 \<le> i" "i < int nq" using in_range [OF t, of i] mem by auto
    then have q: "the_queue s i = Some (boost_queues s ! nat i)" "nat i < nq" "int (nat i) = i"
      using len by (auto simp: the_queue_def)
    show ?thesis
    proof (cases "q_push Q (w_msg ?w) (boost_queues s ! nat i)")
      case None
      then show ?thesis using s1 idx q same Push_to by (simp add: act_step_def Let_def)
    next
      case (Some q')
      show ?thesis
        by (rule push [where i = "nat i", OF q(2) Some _ run(1), of "?w\<lparr>w_idx := w_idx ?w + 1\<rparr>"])
          (use s1 idx q move' Push_to Some in \<open>simp_all add: act_step_def Let_def\<close>)
    qed
  next
    case (Pop_from i)
    then have i: "0 \<le> i" "i < int nq" using in_range [OF t, of i] mem by auto
    then have q: "the_queue s i = Some (boost_queues s ! nat i)" "nat i < nq" "int (nat i) = i"
      using len by (auto simp: the_queue_def)
    show ?thesis
    proof (cases "q_pop Q (boost_queues s ! nat i)")
      case None
      then show ?thesis using s1 idx q same Pop_from by (simp add: act_step_def Let_def)
    next
      case (Some mq)
      obtain m q' where mq: "mq = (m, q')" by (rule prod.exhaust)
      show ?thesis
        by (rule pop [where i = "nat i", OF q(2) Some [unfolded mq] _ run(1), of "?w\<lparr>w_idx := w_idx ?w + 1, w_msg := m\<rparr>"])
          (use s1 idx q move Pop_from Some mq in \<open>simp_all add: act_step_def Let_def\<close>)
    qed
  qed (use a in simp)
qed

lemma step_cases:
  assumes ok: "ok s" and t: "t < n" and s': "s' = ember_worker_step body reps nd Q t s"
  obtains (same) "s' = s"
  | (control) w' r where "s' = s\<lparr>workers := (workers s)[t := w'], ready := r\<rparr>"
      "r = ready s + (1 - arrived_at (workers s ! t))" "moves_on body reps nd t None (workers s ! t) w'"
  | (push) i q' w' where "i < nq" "q_push Q (w_msg (workers s ! t)) (boost_queues s ! i) = Some q'"
      "s' = s\<lparr>workers := (workers s)[t := w'], boost_queues := (boost_queues s)[i := q']\<rparr>"
      "w_at (workers s ! t) = Run" "moves_on body reps nd t (Some (Push_to (int i))) (workers s ! t) w'"
  | (pop) i m q' w' where "i < nq" "q_pop Q (boost_queues s ! i) = Some (m, q')"
      "s' = s\<lparr>workers := (workers s)[t := w'], boost_queues := (boost_queues s)[i := q']\<rparr>"
      "w_at (workers s ! t) = Run" "moves_on body reps nd t (Some (Pop_from (int i))) (workers s ! t) w'"
proof -
  let ?w = "workers s ! t"
  have w: "worker_ok body reps nd t ?w"
    using ok t by (simp add: ember_ok_def)
  show ?thesis
  proof (cases "w_at ?w = Run \<and> w_iter ?w < reps \<and> w_act ?w < length (body t)")
    case False
    with ok t s' show ?thesis by (cases rule: control_cases) (fact same, fact control)
  next
    case True
    then have run: "w_at ?w = Run" "w_iter ?w < reps" "w_act ?w < length (body t)" by simp_all
    let ?a = "body t ! w_act ?w"
    have s1: "s' = (let (qs, w') = act_step Q nd ?a s ?w in s\<lparr>workers := (workers s)[t := w'], boost_queues := qs\<rparr>)"
      using s' run by (simp add: ember_worker_step_def Let_def split: prod.splits)
    show ?thesis
    proof (cases "?a = Skip \<or> \<not> unat (w_idx ?w) < nd")
      case True
      then have a: "?a = Skip \<or> unat (w_idx ?w) = nd" using w by (auto simp: worker_ok_def)
      have "moves_on body reps nd t None ?w (next_act ?w)"
        using left_next [OF w run] units_next [where w = ?w and body = body and t = t, OF run(3) a] run w by (auto simp: moves_on_def worker_ok_def next_act_def)
      then show ?thesis
        using control [where w' = "next_act ?w" and r = "ready s"] s1 True run
        by (simp add: act_step_def Let_def arrived_at_def)
    next
      case False
      then have idx: "unat (w_idx ?w) < nd" and a: "?a \<noteq> Skip" by simp_all
      from ok t run idx a s1 show ?thesis by (cases rule: act_cases) (fact same, fact push, fact pop)
    qed
  qed
qed

lemma moved_on:
  assumes t: "t < length ws" and m: "moves_on body reps nd t x (ws ! t) w'"
  shows "(\<Sum>u < length ws. arrived_at (ws[t := w'] ! u)) =
      (\<Sum>u < length ws. arrived_at (ws ! u)) + (1 - arrived_at (ws ! t))"
    "a \<noteq> Skip \<Longrightarrow> total_units body nd a (ws[t := w']) = total_units body nd a ws + (if x = Some a then 1 else 0)"
    "(\<Sum>u < length ws. left_to_do body reps nd u (ws[t := w'] ! u)) < (\<Sum>u < length ws. left_to_do body reps nd u (ws ! u))"
proof -
  have "arrived_at w' = 1" "arrived_at (ws ! t) \<le> 1" using m by (simp_all add: moves_on_def arrived_at_def)
  then show "(\<Sum>u < length ws. arrived_at (ws[t := w'] ! u)) =
      (\<Sum>u < length ws. arrived_at (ws ! u)) + (1 - arrived_at (ws ! t))"
    using sum_update_worker [OF t, of "\<lambda>_. arrived_at" w'] by linarith
  show "total_units body nd a (ws[t := w']) = total_units body nd a ws + (if x = Some a then 1 else 0)" if "a \<noteq> Skip"
    using total_units_update [OF t, of body nd a w'] m that by (simp add: moves_on_def)
  have "left_to_do body reps nd t w' < left_to_do body reps nd t (ws ! t)" using m by (simp add: moves_on_def)
  then show "(\<Sum>u < length ws. left_to_do body reps nd u (ws[t := w'] ! u)) < (\<Sum>u < length ws. left_to_do body reps nd u (ws ! u))"
    using sum_update_worker [OF t, of "left_to_do body reps nd" w'] by linarith
qed

lemma step_keeps:
  assumes ok: "ok s" and t: "t < n"
  defines "s' \<equiv> ember_worker_step body reps nd Q t s"
  shows "ok s'" "s' = s \<or> ember_left body reps nd s' < ember_left body reps nd s"
proof -
  have len: "length (workers s) = n" "length (boost_queues s) = nq" using ok by (simp_all add: ember_ok_def)
  have tl: "t < length (workers s)" using t len by simp
  have wok: "\<forall>u < n. worker_ok body reps nd u ((workers s)[t := w'] ! u)"
    if "moves_on body reps nd t x (workers s ! t) w'" for x w'
    using ok that len t by (simp add: ember_ok_def moves_on_def nth_list_update)
  note eq = s'_def [THEN meta_eq_to_obj_eq]
  have "ok s' \<and> (s' = s \<or> ember_left body reps nd s' < ember_left body reps nd s)"
    using ok t eq
  proof (cases rule: step_cases)
    case same
    then show ?thesis using ok by simp
  next
    case (control w' r)
    note moved = moved_on [OF tl control(3)]
    show ?thesis
      using ok control(1,2) wok [OF control(3)] moved len by (simp add: ember_ok_def ember_left_def)
  next
    case (push i q' w')
    note moved = moved_on [OF tl push(5)]
    have "arrived_at (workers s ! t) = 1" using push(4) by (simp add: arrived_at_def)
    then show ?thesis
      using ok push(1-3) wok [OF push(5)] moved len size_push [OF push(2)]
      by (simp add: ember_ok_def ember_left_def nth_list_update)
  next
    case (pop i m q' w')
    note moved = moved_on [OF tl pop(5)]
    have "arrived_at (workers s ! t) = 1" using pop(4) by (simp add: arrived_at_def)
    moreover have "Suc (size (contents q')) + total_units body nd (Pop_from (int i)) (workers s) =
        total_units body nd (Push_to (int i)) (workers s)"
      using ok pop(1) size_pop [OF pop(2)] by (auto simp: ember_ok_def)
    ultimately show ?thesis
      using ok pop(1-3) wok [OF pop(5)] moved len
      by (simp add: ember_ok_def ember_left_def nth_list_update)
  qed
  then show "ok s'" "s' = s \<or> ember_left body reps nd s' < ember_left body reps nd s" by simp_all
qed

lemma turn_keeps:
  assumes "ok s"
  shows "ok (turn t s)" "turn t s = s \<or> ember_left body reps nd (turn t s) < ember_left body reps nd s"
  using assms step_keeps [of s t] by (auto simp: ember_turn_def ember_ok_def)

lemma run_keeps: "ok s \<Longrightarrow> ok (ember_run body reps nd Q \<sigma> s k)"
  by (induction k) (simp_all add: turn_keeps)

end

section \<open>Threads never block each other for good\<close>

text \<open>
  \<open>acts_begun\<close> also counts the act a thread is at. A thread is \<open>held\<close> if it is at a pop.
\<close>

definition acts_begun :: "(nat \<Rightarrow> act list) \<Rightarrow> nat \<Rightarrow> act \<Rightarrow> nat \<times> nat \<Rightarrow> nat" where
  "acts_begun body t a p = fst p * count_list (body t) a + count_list (take (Suc (snd p)) (body t)) a"

text \<open>Positions at which each thread is at its end or at a pop.\<close>

definition all_held :: "(nat \<Rightarrow> act list) \<Rightarrow> nat \<Rightarrow> nat \<Rightarrow> (nat \<Rightarrow> nat \<times> nat) \<Rightarrow> bool" where
  "all_held body reps n p \<longleftrightarrow>
     (\<forall>t < n. p t = (reps, 0) \<or>
       fst (p t) < reps \<and> snd (p t) < length (body t) \<and> (\<exists>q. body t ! snd (p t) = Pop_from q))"

definition started :: "(nat \<Rightarrow> act list) \<Rightarrow> nat \<Rightarrow> nat \<Rightarrow> act \<Rightarrow> nat \<times> nat \<Rightarrow> nat" where
  "started body reps t a p = (if fst p < reps then acts_begun body t a p else acts_done body t a p)"

text \<open>
  \<open>supplied\<close>: if every thread is at its end or at a pop, some thread is at a pop from a queue for which
  all that was begun to be popped has been pushed.
\<close>

locale ember_live = ember_net Q contents body n nq reps nd + unbounded_queue Q contents
  for Q :: "('q, 'm) queue_ops" and contents body n nq reps nd +
  assumes supplied: "\<lbrakk>all_held body reps n p; t < n; fst (p t) < reps\<rbrakk> \<Longrightarrow>
      \<exists>u q. u < n \<and> fst (p u) < reps \<and> body u ! snd (p u) = Pop_from q \<and>
        (\<Sum>v < n. started body reps v (Pop_from q) (p v)) \<le> (\<Sum>v < n. acts_done body v (Push_to q) (p v))"
    and balanced: "q < nq \<Longrightarrow>
      (\<Sum>t < n. count_list (body t) (Push_to (int q))) = (\<Sum>t < n. count_list (body t) (Pop_from (int q)))"
begin

text \<open>A thread that does not change when it has its turn is at its end, at the barrier or held.\<close>

lemma unchanged_run:
  assumes ok: "ok s" and t: "t < n" and same: "turn t s = s" and run: "w_at (workers s ! t) = Run"
  shows "w_iter (workers s ! t) < reps" "w_act (workers s ! t) < length (body t)"
    "\<exists>q. body t ! w_act (workers s ! t) = Pop_from q \<and> 0 \<le> q \<and> q < int nq \<and>
      unat (w_idx (workers s ! t)) < nd \<and> contents (boost_queues s ! nat q) = {#}"
proof -
  let ?w = "workers s ! t"
  have len: "length (workers s) = n" "length (boost_queues s) = nq" using ok by (simp_all add: ember_ok_def)
  have step: "ember_worker_step body reps nd Q t s = s" using same t len by (simp add: ember_turn_def)
  have eq: "w' = ?w" if "(workers s)[t := w'] = workers s" for w'
    using that t len by (metis nth_list_update_eq)
  show iter: "w_iter ?w < reps"
  proof (rule ccontr)
    assume "\<not> w_iter ?w < reps"
    then have "(workers s)[t := ?w\<lparr>w_at := Over\<rparr>] = workers s"
      using arg_cong [OF step, of workers] run by (simp add: ember_worker_step_def Let_def)
    from arg_cong [OF eq [OF this], of w_at] run show False by simp
  qed
  show act: "w_act ?w < length (body t)"
  proof (rule ccontr)
    assume "\<not> w_act ?w < length (body t)"
    then have "(workers s)[t := ?w\<lparr>w_iter := w_iter ?w + 1, w_act := 0\<rparr>] = workers s"
      using arg_cong [OF step, of workers] run iter by (simp add: ember_worker_step_def Let_def)
    from arg_cong [OF eq [OF this], of w_iter] show False by simp
  qed
  let ?a = "body t ! w_act ?w"
  obtain qs w' where st: "act_step Q nd ?a s ?w = (qs, w')" by (rule prod.exhaust)
  have "s\<lparr>workers := (workers s)[t := w'], boost_queues := qs\<rparr> = s"
    using step run iter act st by (simp add: ember_worker_step_def Let_def)
  from arg_cong [OF this, of workers] have w': "w' = ?w" using eq by simp
  have idx: "unat (w_idx ?w) < nd" "?a \<noteq> Skip"
    using st w' by (auto simp: act_step_def Let_def next_act_def dest: arg_cong [where f = w_act] split: if_splits)
  show "\<exists>q. ?a = Pop_from q \<and> 0 \<le> q \<and> q < int nq \<and> unat (w_idx ?w) < nd \<and> contents (boost_queues s ! nat q) = {#}"
  proof (cases ?a)
    case (Push_to i)
    have i: "0 \<le> i \<and> i < int nq" using in_range [OF t, of i] act Push_to by (metis nth_mem)
    then have q: "the_queue s i = Some (boost_queues s ! nat i)" using len by (simp add: the_queue_def)
    obtain q' where "q_push Q (w_msg ?w) (boost_queues s ! nat i) = Some q'" using push_succeeds by blast
    then have "w_idx w' = w_idx ?w + 1" using st idx q Push_to by (auto simp: act_step_def Let_def)
    then show ?thesis using w' by simp
  next
    case (Pop_from i)
    have i: "0 \<le> i \<and> i < int nq" using in_range [OF t, of i] act Pop_from by (metis nth_mem)
    then have q: "the_queue s i = Some (boost_queues s ! nat i)" using len by (simp add: the_queue_def)
    have "q_pop Q (boost_queues s ! nat i) = None"
    proof (rule ccontr)
      assume "\<not> ?thesis"
      then obtain m q' where "q_pop Q (boost_queues s ! nat i) = Some (m, q')" by auto
      then have "w_idx w' = w_idx ?w + 1" using st idx q Pop_from by (auto simp: act_step_def Let_def)
      then show False using w' by simp
    qed
    then show ?thesis using Pop_from i idx by (simp add: pop_empty)
  qed (use idx in simp)
qed

text \<open>The barrier lets everybody through.\<close>

lemma unchanged_at:
  assumes ok: "ok s" and n: "0 < n" and same: "\<And>t. t < n \<Longrightarrow> turn t s = s" and t: "t < n"
  shows "w_at (workers s ! t) \<in> {Run, Over}"
proof -
  have len: "length (workers s) = n" using ok by (simp add: ember_ok_def)
  have ready: "ready s = (\<Sum>t < n. arrived_at (workers s ! t))" using ok by (simp add: ember_ok_def)
  have step: "ember_worker_step body reps nd Q u s = s" if "u < n" for u
    using same [OF that] that len by (simp add: ember_turn_def)
  have far: "w_at (workers s ! u) \<noteq> Arrive" if "u < n" "0 < u" for u
    using arg_cong [OF step [OF that(1)], of ready] that(2) by (auto simp: ember_worker_step_def Let_def)
  have near: "w_at (workers s ! 0) \<noteq> Arrive"
  proof
    assume a: "w_at (workers s ! 0) = Arrive"
    have "(\<Sum>t < n. arrived_at (workers s ! t)) = arrived_at (workers s ! 0) + (\<Sum>t \<in> {..<n} - {0}. arrived_at (workers s ! t))"
      using n by (simp add: sum.remove [of _ 0])
    also have "\<dots> = n - 1" using far a n by (simp add: arrived_at_def)
    finally have "ready s = n - 1" using ready by simp
    then show False using arg_cong [OF step [OF n], of ready] a len by (simp add: ember_worker_step_def Let_def)
  qed
  have arrived: "arrived_at (workers s ! u) = 1" if "u < n" for u
    using far [OF that] near by (cases "u = 0") (auto simp: arrived_at_def)
  then have "ready s = n" using ready by simp
  then have "w_at (workers s ! t) \<noteq> Await"
    using arg_cong [OF arg_cong [OF step [OF t], of workers], of "\<lambda>ws. w_at (ws ! t)"] t len
    by (auto simp: ember_worker_step_def Let_def)
  moreover have "w_at (workers s ! t) \<noteq> Astray" using ok t by (simp add: ember_ok_def worker_ok_def)
  ultimately show ?thesis
    using far [OF t] near by (cases "w_at (workers s ! t)"; cases "t = 0") auto
qed

text \<open>When nobody can change anything, everybody has ended.\<close>

lemma unchanged_over:
  assumes ok: "ok s" and n: "0 < n" and same: "\<And>t. t < n \<Longrightarrow> turn t s = s" and t: "t < n"
  shows "w_at (workers s ! t) = Over"
proof (rule ccontr)
  let ?w = "\<lambda>u. workers s ! u"
  let ?p = "\<lambda>u. (w_iter (?w u), w_act (?w u))"
  assume "w_at (?w t) \<noteq> Over"
  then have "w_at (?w t) = Run" using unchanged_at [OF ok n same t] by simp
  then have go: "fst (?p t) < reps" using unchanged_run [OF ok t same [OF t]] by simp
  have len: "length (workers s) = n" using ok by (simp add: ember_ok_def)
  have wok: "worker_ok body reps nd u (?w u)" if "u < n" for u using ok that by (simp add: ember_ok_def)
  have pop: "?p u = (reps, 0) \<and> w_idx (?w u) = 0 \<or>
      fst (?p u) < reps \<and> snd (?p u) < length (body u) \<and> (\<exists>q. body u ! snd (?p u) = Pop_from q) \<and>
      unat (w_idx (?w u)) < nd" if u: "u < n" for u
    using unchanged_at [OF ok n same u] unchanged_run [OF ok u same [OF u]] wok [OF u]
    by (cases "w_at (?w u)") (auto simp: worker_ok_def)
  have held: "all_held body reps n ?p"
    unfolding all_held_def
  proof (intro allI impI)
    fix u assume "u < n"
    from pop [OF this] show "?p u = (reps, 0) \<or>
        fst (?p u) < reps \<and> snd (?p u) < length (body u) \<and> (\<exists>q. body u ! snd (?p u) = Pop_from q)"
      by blast
  qed
  obtain u i where u: "u < n" "w_iter (?w u) < reps" "body u ! w_act (?w u) = Pop_from i"
    and le: "(\<Sum>v < n. started body reps v (Pop_from i) (?p v)) \<le> (\<Sum>v < n. acts_done body v (Push_to i) (?p v))"
    using supplied [OF held t go] by auto
  have "w_at (?w u) = Run"
    using unchanged_at [OF ok n same u(1)] wok [OF u(1)] u(2) by (auto simp: worker_ok_def)
  from unchanged_run [OF ok u(1) same [OF u(1)] this] u(3)
  have i: "0 \<le> i" "i < int nq" "contents (boost_queues s ! nat i) = {#}" and a: "w_act (?w u) < length (body u)"
    and idx: "unat (w_idx (?w u)) < nd" by auto
  have pushed: "units body nd v (Push_to i) (?w v) = nd * acts_done body v (Push_to i) (?p v)" if "v < n" for v
    using pop [OF that] by (auto simp: units_def)
  have popped: "units body nd v (Pop_from i) (?w v) \<le> nd * started body reps v (Pop_from i) (?p v)" if "v < n" for v
    using pop [OF that]
    by (auto simp: units_def started_def acts_begun_def acts_done_def count_list_take_Suc distrib_left)
  have less: "units body nd u (Pop_from i) (?w u) < nd * started body reps u (Pop_from i) (?p u)"
    using u a idx by (simp add: units_def started_def acts_begun_def acts_done_def count_list_take_Suc distrib_left)
  have "total_units body nd (Pop_from i) (workers s) < (\<Sum>v < n. nd * started body reps v (Pop_from i) (?p v))"
    unfolding total_units_def len by (rule sum_strict_mono_ex1) (use popped less u(1) in auto)
  also have "\<dots> \<le> nd * (\<Sum>v < n. acts_done body v (Push_to i) (?p v))"
    using le by (simp flip: sum_distrib_left)
  also have "\<dots> = total_units body nd (Push_to i) (workers s)"
    using ok pushed by (simp add: total_units_def sum_distrib_left ember_ok_def)
  also have "\<dots> = size (contents (boost_queues s ! nat i)) + total_units body nd (Pop_from i) (workers s)"
    using ok i by (auto simp: ember_ok_def dest: spec [of _ "nat i"])
  finally show False using i(3) by simp
qed

lemma over_empty:
  assumes ok: "ok s" and over: "\<And>t. t < n \<Longrightarrow> w_at (workers s ! t) = Over" and q: "q < nq"
  shows "contents (boost_queues s ! q) = {#}"
proof -
  have len: "length (workers s) = n" using ok by (simp add: ember_ok_def)
  have "w_iter (workers s ! t) = reps \<and> w_act (workers s ! t) = 0 \<and> w_idx (workers s ! t) = 0" if "t < n" for t
    using ok over [OF that] that by (auto simp: ember_ok_def worker_ok_def)
  then have "units body nd t a (workers s ! t) = nd * (reps * count_list (body t) a)" if "t < n" for t a
    using that by (simp add: units_def acts_done_def)
  then have "total_units body nd a (workers s) = nd * (reps * (\<Sum>t < n. count_list (body t) a))" for a
    unfolding total_units_def len by (simp add: sum_distrib_left)
  then have "total_units body nd (Pop_from (int q)) (workers s) = total_units body nd (Push_to (int q)) (workers s)"
    using balanced [OF q] by simp
  then have "size (contents (boost_queues s ! q)) = 0" using ok q by (auto simp: ember_ok_def)
  then show ?thesis by simp
qed

lemma over_stays: "ok s \<Longrightarrow> (\<And>t. t < n \<Longrightarrow> w_at (workers s ! t) = Over) \<Longrightarrow> turn u s = s"
  by (cases "u < n") (simp_all add: ember_turn_def ember_worker_step_def Let_def ember_ok_def)

text \<open>Under a fair schedule the program ends.\<close>

lemma fair_ends:
  assumes "ok s" "0 < n" "\<forall>k. \<forall>t < n. \<exists>m \<ge> k. \<sigma> m = t"
  shows "\<exists>k. \<forall>t < n. w_at (workers (ember_run body reps nd Q \<sigma> s k) ! t) = Over"
  using assms(1,3)
proof (induction "ember_left body reps nd s" arbitrary: s \<sigma> rule: less_induct)
  case less
  let ?r = "ember_run body reps nd Q \<sigma> s"
  show ?case
  proof (cases "\<forall>k. ?r (Suc k) = ?r k")
    case True
    have st: "?r k = s" for k
    proof (induction k)
      case (Suc k)
      then show ?case using True by metis
    qed simp
    have "turn t s = s" if t: "t < n" for t
    proof -
      obtain m where "\<sigma> m = t" using less.prems(2) t by blast
      then show ?thesis using st [of "Suc m"] st [of m] by simp
    qed
    then have "\<forall>t < n. w_at (workers s ! t) = Over" using unchanged_over [OF less.prems(1) assms(2)] by blast
    then show ?thesis by (intro exI [of _ 0]) simp
  next
    case False
    then obtain k where k: "?r (Suc k) \<noteq> ?r k" "\<forall>j < k. ?r (Suc j) = ?r j"
      using exists_least_iff [of "\<lambda>k. ?r (Suc k) \<noteq> ?r k"] by auto
    have "?r j = s" if "j \<le> k" for j
      using that
    proof (induction j)
      case (Suc j)
      then show ?case using k(2) by (metis Suc_le_lessD less_imp_le)
    qed simp
    then have at: "?r k = s" by simp
    have run: "ember_run body reps nd Q \<sigma> s (Suc k + j) = ember_run body reps nd Q (\<lambda>i. \<sigma> (Suc k + i)) (?r (Suc k)) j" for j
      by (induction j) simp_all
    have less: "ember_left body reps nd (?r (Suc k)) < ember_left body reps nd s"
      using k(1) turn_keeps(2) [OF less.prems(1), of "\<sigma> k"] at by auto
    have ok': "ok (?r (Suc k))" using less.prems(1) by (rule run_keeps)
    have fair: "\<forall>j. \<forall>t < n. \<exists>m \<ge> j. \<sigma> (Suc k + m) = t"
    proof (intro allI impI)
      fix j t assume "t < n"
      then obtain m where "Suc k + j \<le> m" "\<sigma> m = t" using less.prems(2) by blast
      then show "\<exists>m \<ge> j. \<sigma> (Suc k + m) = t" by (intro exI [of _ "m - Suc k"]) auto
    qed
    from less.hyps [OF less ok' fair] show ?thesis unfolding run [symmetric] by blast
  qed
qed

end

end
