(* ===== verification/Ember_Grid.thy ===== *)
theory Ember_Grid
  imports Ember
begin

text \<open>
  The wiring of the grid of \<^verbatim>\<open>apps/ember/ember.cpp\<close>: the neighbour in a direction has this thread
  as its neighbour in the opposite direction, the queue a thread sends on is the one its neighbour
  receives on, each queue has one sender and one direction, and its number is in range.
\<close>

section \<open>Numbering of pairs\<close>

lemma pair_code_range:
  fixes a b m k :: int
  assumes "0 \<le> a" "a < m" "0 \<le> b" "b < k"
  shows "0 \<le> a + b * m" "a + b * m < k * m"
proof -
  show "0 \<le> a + b * m" using assms by simp
  have "(b + 1) * m \<le> k * m" using assms by (intro mult_right_mono) simp_all
  then show "a + b * m < k * m" using assms(2) by (simp add: distrib_right)
qed

lemma pair_code_inj:
  fixes a b m :: int
  assumes "a + b * m = a' + b' * m" "0 \<le> a" "a < m" "0 \<le> a'" "a' < m"
  shows "a = a' \<and> b = b'"
proof -
  have "(a + b * m) div m = b" "(a' + b' * m) div m = b'" using assms(2-5) by simp_all
  then have "b = b'" using assms(1) by simp
  then show ?thesis using assms(1) by simp
qed

section \<open>Threads and their neighbours\<close>

definition opp :: "dir \<Rightarrow> dir" where
  "opp d = (case d of XUp \<Rightarrow> XDn | XDn \<Rightarrow> XUp | YUp \<Rightarrow> YDn | YDn \<Rightarrow> YUp)"

lemma opp_opp [simp]: "opp (opp d) = d"
  by (cases d) (simp_all add: opp_def)

definition grid_near :: "nat \<Rightarrow> nat \<Rightarrow> nat \<Rightarrow> dir \<Rightarrow> int" where
  "grid_near pex pey t =
     (let (x, y) = get_position (int t) (int pex) in get_neighbor (int t) (int pex) (int pey) x y)"

definition grid_rx :: "nat \<Rightarrow> nat \<Rightarrow> nat \<Rightarrow> dir \<Rightarrow> int" where
  "grid_rx pex pey t = (let (x, y) = get_position (int t) (int pex) in fst (get_queue_id x y (int pex) (int pey)))"

definition grid_tx :: "nat \<Rightarrow> nat \<Rightarrow> nat \<Rightarrow> dir \<Rightarrow> int" where
  "grid_tx pex pey t = (let (x, y) = get_position (int t) (int pex) in snd (get_queue_id x y (int pex) (int pey)))"

definition edge :: "nat \<Rightarrow> nat \<Rightarrow> nat \<Rightarrow> dir \<Rightarrow> bool" where
  "edge pex pey t d \<longleftrightarrow> -1 < grid_near pex pey t d"

definition nbr :: "nat \<Rightarrow> nat \<Rightarrow> nat \<Rightarrow> dir \<Rightarrow> nat" where
  "nbr pex pey t d = nat (grid_near pex pey t d)"

text \<open>A thread by its coordinates.\<close>

definition cell :: "nat \<Rightarrow> nat \<Rightarrow> nat \<Rightarrow> nat" where
  "cell pex x y = y * pex + x"

lemma cell_position: "x < pex \<Longrightarrow> get_position (int (cell pex x y)) (int pex) = (int x, int y)"
  by (simp add: get_position_def cell_def)

lemma cell_less: "x < pex \<Longrightarrow> y < pey \<Longrightarrow> cell pex x y < pex * pey"
proof -
  assume "x < pex" "y < pey"
  then have "y * pex + x < y * pex + pex" "(y + 1) * pex \<le> pey * pex"
    using mult_le_mono1 [of "y + 1" pey pex] by simp_all
  then show ?thesis by (simp add: cell_def mult.commute)
qed

lemma cell_exhaust:
  assumes "t < pex * pey"
  obtains x y where "t = cell pex x y" "x < pex" "y < pey"
proof
  have "0 < pex" using assms by (cases pex) simp_all
  then show "t = cell pex (t mod pex) (t div pex)" "t mod pex < pex" by (simp_all add: cell_def)
  show "t div pex < pey" using assms by (simp add: less_mult_imp_div_less mult.commute)
qed

definition step_x :: "dir \<Rightarrow> nat \<Rightarrow> nat" where
  "step_x d x = (case d of XUp \<Rightarrow> x + 1 | XDn \<Rightarrow> x - 1 | _ \<Rightarrow> x)"

definition step_y :: "dir \<Rightarrow> nat \<Rightarrow> nat" where
  "step_y d y = (case d of YUp \<Rightarrow> y + 1 | YDn \<Rightarrow> y - 1 | _ \<Rightarrow> y)"

lemma cell_near:
  "x < pex \<Longrightarrow> grid_near pex pey (cell pex x y) d =
    get_neighbor (int (cell pex x y)) (int pex) (int pey) (int x) (int y) d"
  by (simp add: grid_near_def cell_position)

lemma cell_edge:
  assumes "x < pex" "y < pey"
  shows "edge pex pey (cell pex x y) d \<longleftrightarrow>
    (case d of XUp \<Rightarrow> x + 1 < pex | XDn \<Rightarrow> 0 < x | YUp \<Rightarrow> y + 1 < pey | YDn \<Rightarrow> 0 < y)"
proof -
  have "0 < int (cell pex x y)" if "0 < x"
  proof -
    have "0 < cell pex x y" using that by (simp add: cell_def)
    then show ?thesis by simp
  qed
  moreover have "int pex \<le> int (cell pex x y)" if "0 < y"
  proof -
    have "pex \<le> cell pex x y" using that by (simp add: cell_def trans_le_add1)
    then show ?thesis by simp
  qed
  ultimately show ?thesis
    using assms by (auto simp: edge_def cell_near get_neighbor_def split: dir.splits)
qed

lemma cell_nbr:
  assumes "x < pex" "y < pey" "edge pex pey (cell pex x y) d"
  shows "nbr pex pey (cell pex x y) d = cell pex (step_x d x) (step_y d y)" "step_x d x < pex" "step_y d y < pey"
proof -
  note e = assms(3) [unfolded cell_edge [OF assms(1,2)]]
  have "grid_near pex pey (cell pex x y) d = int (cell pex (step_x d x) (step_y d y))"
    unfolding cell_near [OF assms(1)] using e
    by (cases d) (simp_all add: get_neighbor_def step_x_def step_y_def cell_def of_nat_diff left_diff_distrib)
  then show "nbr pex pey (cell pex x y) d = cell pex (step_x d x) (step_y d y)" by (simp add: nbr_def)
  show "step_x d x < pex" "step_y d y < pey"
    using assms(1,2) e by (auto simp: step_x_def step_y_def split: dir.splits)
qed

section \<open>Queues\<close>

lemma cell_tx:
  assumes "x < pex"
  shows "grid_tx pex pey (cell pex x y) d =
    (let h = int pey * (int pex - 1); v = int pex * (int pey - 1) in
     case d of XUp \<Rightarrow> int x + int y * (int pex - 1) + 1
     | XDn \<Rightarrow> int x + int y * (int pex - 1) + h
     | YUp \<Rightarrow> int y + int x * (int pey - 1) + 2 * h + 1
     | YDn \<Rightarrow> int y + int x * (int pey - 1) + 2 * h + v)"
  using assms by (cases d) (simp_all add: grid_tx_def cell_position get_queue_id_def Let_def)

lemma cell_rx:
  assumes "x < pex"
  shows "grid_rx pex pey (cell pex x y) d =
    (let h = int pey * (int pex - 1); v = int pex * (int pey - 1) in
     case d of XUp \<Rightarrow> int x + int y * (int pex - 1) + 1 + h
     | XDn \<Rightarrow> int x + int y * (int pex - 1)
     | YUp \<Rightarrow> int y + int x * (int pey - 1) + 2 * h + 1 + v
     | YDn \<Rightarrow> int y + int x * (int pey - 1) + 2 * h)"
  using assms by (cases d) (simp_all add: grid_rx_def cell_position get_queue_id_def Let_def)

lemma edge_back:
  assumes "t < pex * pey" "edge pex pey t d"
  shows "nbr pex pey t d < pex * pey" "edge pex pey (nbr pex pey t d) (opp d)"
    "nbr pex pey (nbr pex pey t d) (opp d) = t" "grid_rx pex pey (nbr pex pey t d) (opp d) = grid_tx pex pey t d"
proof -
  from assms(1) obtain x y where t: "t = cell pex x y" "x < pex" "y < pey" by (rule cell_exhaust)
  note e = assms(2) [unfolded t(1)] and e' = assms(2) [unfolded t(1) cell_edge [OF t(2,3)]]
  note n = cell_nbr [OF t(2,3) e]
  show "nbr pex pey t d < pex * pey" using n by (simp add: t(1) cell_less)
  show b: "edge pex pey (nbr pex pey t d) (opp d)"
    using e' unfolding t(1) n(1) cell_edge [OF n(2,3)] by (cases d) (simp_all add: opp_def step_x_def step_y_def t)
  show "nbr pex pey (nbr pex pey t d) (opp d) = t"
    using cell_nbr(1) [OF n(2,3), of "opp d"] b e' unfolding t(1) n(1)
    by (cases d) (simp_all add: opp_def step_x_def step_y_def)
  show "grid_rx pex pey (nbr pex pey t d) (opp d) = grid_tx pex pey t d"
    using e' unfolding t(1) n(1) cell_rx [OF n(2)] cell_tx [OF t(2)]
    by (cases d) (simp_all add: opp_def step_x_def step_y_def Let_def of_nat_diff algebra_simps)
qed

text \<open>The four kinds of queues have consecutive ranges, and within each the number is a pair code.\<close>

lemma tx_ranges:
  assumes "x < pex" "y < pey" "edge pex pey (cell pex x y) d"
  defines "h \<equiv> int pey * (int pex - 1)" and "v \<equiv> int pex * (int pey - 1)"
  shows "case d of
      XUp \<Rightarrow> 1 \<le> grid_tx pex pey (cell pex x y) d \<and> grid_tx pex pey (cell pex x y) d \<le> h
    | XDn \<Rightarrow> h + 1 \<le> grid_tx pex pey (cell pex x y) d \<and> grid_tx pex pey (cell pex x y) d \<le> 2 * h
    | YUp \<Rightarrow> 2 * h + 1 \<le> grid_tx pex pey (cell pex x y) d \<and> grid_tx pex pey (cell pex x y) d \<le> 2 * h + v
    | YDn \<Rightarrow> 2 * h + v + 1 \<le> grid_tx pex pey (cell pex x y) d \<and> grid_tx pex pey (cell pex x y) d \<le> 2 * h + 2 * v"
proof -
  note e = assms(3) [unfolded cell_edge [OF assms(1,2)]]
  have x: "0 \<le> int x + int y * (int pex - 1)" "int x + int y * (int pex - 1) < h" if "x + 1 < pex"
    using pair_code_range [of "int x" "int pex - 1" "int y" "int pey"] that assms(2) by (simp_all add: h_def)
  have x': "0 \<le> int x - 1 + int y * (int pex - 1)" "int x - 1 + int y * (int pex - 1) < h" if "0 < x"
    using pair_code_range [of "int x - 1" "int pex - 1" "int y" "int pey"] that assms(1,2) by (simp_all add: h_def)
  have y: "0 \<le> int y + int x * (int pey - 1)" "int y + int x * (int pey - 1) < v" if "y + 1 < pey"
    using pair_code_range [of "int y" "int pey - 1" "int x" "int pex"] that assms(1) by (simp_all add: v_def)
  have y': "0 \<le> int y - 1 + int x * (int pey - 1)" "int y - 1 + int x * (int pey - 1) < v" if "0 < y"
    using pair_code_range [of "int y - 1" "int pey - 1" "int x" "int pex"] that assms(1,2) by (simp_all add: v_def)
  show ?thesis
  proof (cases d)
    case XUp
    then show ?thesis using x e unfolding XUp cell_tx [OF assms(1)] Let_def dir.case h_def [symmetric] by linarith
  next
    case XDn
    then show ?thesis using x' e unfolding XDn cell_tx [OF assms(1)] Let_def dir.case h_def [symmetric] by linarith
  next
    case YUp
    then show ?thesis
      using y e unfolding YUp cell_tx [OF assms(1)] Let_def dir.case h_def [symmetric] v_def [symmetric] by linarith
  next
    case YDn
    then show ?thesis
      using y' e unfolding YDn cell_tx [OF assms(1)] Let_def dir.case h_def [symmetric] v_def [symmetric] by linarith
  qed
qed

lemma tx_in_range:
  assumes "t < pex * pey" "edge pex pey t d"
  shows "1 \<le> grid_tx pex pey t d" "grid_tx pex pey t d \<le> int pex * int pey * 4 - (int pex + int pey) * 2"
proof -
  from assms(1) obtain x y where t: "t = cell pex x y" "x < pex" "y < pey" by (rule cell_exhaust)
  have nn: "0 \<le> int pey * (int pex - 1)" "0 \<le> int pex * (int pey - 1)" using t by simp_all
  have sum: "int pex * int pey * 4 - (int pex + int pey) * 2 =
      2 * (int pey * (int pex - 1)) + 2 * (int pex * (int pey - 1))" by (simp add: algebra_simps)
  note r = tx_ranges [OF t(2,3) assms(2) [unfolded t(1)], folded t(1)]
  show "1 \<le> grid_tx pex pey t d" using r nn by (cases d) simp_all
  show "grid_tx pex pey t d \<le> int pex * int pey * 4 - (int pex + int pey) * 2"
    unfolding sum using r nn by (cases d) simp_all
qed

lemma tx_inj:
  assumes t: "t < pex * pey" "edge pex pey t d" and u: "u < pex * pey" "edge pex pey u e"
    and eq: "grid_tx pex pey t d = grid_tx pex pey u e"
  shows "t = u \<and> d = e"
proof -
  from t(1) obtain x y where c: "t = cell pex x y" "x < pex" "y < pey" by (rule cell_exhaust)
  from u(1) obtain x' y' where c': "u = cell pex x' y'" "x' < pex" "y' < pey" by (rule cell_exhaust)
  have nn: "0 \<le> int pey * (int pex - 1)" "0 \<le> int pex * (int pey - 1)" using c by simp_all
  note r = tx_ranges [OF c(2,3) t(2) [unfolded c(1)], folded c(1)]
  note r' = tx_ranges [OF c'(2,3) u(2) [unfolded c'(1)], folded c'(1)]
  have d: "d = e" using r r' eq nn by (cases d; cases e) simp_all
  note e1 = t(2) [unfolded c(1) cell_edge [OF c(2,3)]]
  note e2 = u(2) [unfolded c'(1) cell_edge [OF c'(2,3)]]
  have "x = x' \<and> y = y'"
  proof (cases d)
    case XUp
    then show ?thesis
      using eq d e1 e2 c(2,3) c'(2,3) pair_code_inj [of "int x" "int y" "int pex - 1" "int x'" "int y'"]
      by (simp add: c(1) c'(1) cell_tx Let_def)
  next
    case XDn
    then show ?thesis
      using eq d e1 e2 c(2,3) c'(2,3) pair_code_inj [of "int x - 1" "int y" "int pex - 1" "int x' - 1" "int y'"]
      by (simp add: c(1) c'(1) cell_tx Let_def)
  next
    case YUp
    then show ?thesis
      using eq d e1 e2 c(2,3) c'(2,3) pair_code_inj [of "int y" "int x" "int pey - 1" "int y'" "int x'"]
      by (simp add: c(1) c'(1) cell_tx Let_def)
  next
    case YDn
    then show ?thesis
      using eq d e1 e2 c(2,3) c'(2,3) pair_code_inj [of "int y - 1" "int x" "int pey - 1" "int y' - 1" "int x'"]
      by (simp add: c(1) c'(1) cell_tx Let_def)
  qed
  then show ?thesis using d c(1) c'(1) by simp
qed

lemma rx_is_tx:
  assumes "t < pex * pey" "edge pex pey t d"
  shows "grid_rx pex pey t d = grid_tx pex pey (nbr pex pey t d) (opp d)"
  using edge_back(4) [OF edge_back(1,2) [OF assms]] by (simp add: edge_back(3) [OF assms])

lemma rx_inj:
  assumes t: "t < pex * pey" "edge pex pey t d" and u: "u < pex * pey" "edge pex pey u e"
    and eq: "grid_rx pex pey t d = grid_rx pex pey u e"
  shows "t = u \<and> d = e"
proof -
  have "nbr pex pey t d = nbr pex pey u e \<and> opp d = opp e"
    using eq unfolding rx_is_tx [OF t] rx_is_tx [OF u]
    by (rule tx_inj [OF edge_back(1,2) [OF t] edge_back(1,2) [OF u]])
  then show ?thesis using edge_back(3) [OF t] edge_back(3) [OF u] by (metis opp_opp)
qed

end
