(* ===== verification/Ember_Ends.thy ===== *)
theory Ember_Ends
  imports Ember_Flow Ember_Grid
begin

text \<open>
  The four patterns of \<^verbatim>\<open>apps/ember/ember.cpp\<close> as instances of \<open>Ember_Flow\<close>: no queue outside
  \<^verbatim>\<open>boost_queues\<close> is accessed, and the program ends, with empty queues, whatever the
  order of the turns. In the grid a time is given to each act such that the send a receive waits for
  has an earlier one: the wavefronts of the four sweeps, the two phases of the exchange with the
  neighbours.
\<close>

section \<open>The grid patterns\<close>

datatype move = Recv dir | Send dir

definition sweep_moves :: "move list" where
  "sweep_moves =
     [Recv XDn, Recv YDn, Send XUp, Send YUp,
      Recv XUp, Recv YUp, Send XDn, Send YDn,
      Recv XUp, Recv YDn, Send XDn, Send YUp,
      Recv XDn, Recv YUp, Send XUp, Send YDn]"

definition halo_moves :: "move list" where
  "halo_moves = [Send XUp, Send XDn, Send YUp, Send YDn, Recv XUp, Recv XDn, Recv YUp, Recv YDn]"

definition move_act :: "nat \<Rightarrow> nat \<Rightarrow> nat \<Rightarrow> move \<Rightarrow> act" where
  "move_act pex pey t m =
     (case m of
        Recv d \<Rightarrow> if edge pex pey t d then Pop_from (grid_rx pex pey t d) else Skip
      | Send d \<Rightarrow> if edge pex pey t d then Push_to (grid_tx pex pey t d) else Skip)"

lemma worker_sweep: "worker_body Sweep2d pex pey t = map (move_act pex pey t) sweep_moves"
  by (simp add: worker_body_def sweep_def sweep_moves_def move_act_def recv_dir_def send_dir_def edge_def
      grid_near_def grid_rx_def grid_tx_def Let_def split: prod.splits)

lemma worker_halo: "worker_body Halo2d pex pey t = map (move_act pex pey t) halo_moves"
  by (simp add: worker_body_def halo_def halo_moves_def move_act_def recv_dir_def send_dir_def edge_def
      grid_near_def grid_rx_def grid_tx_def Let_def split: prod.splits)

lemma move_act_pop:
  assumes "t < pex * pey" "edge pex pey t d"
  shows "move_act pex pey t m = Pop_from (grid_rx pex pey t d) \<longleftrightarrow> m = Recv d"
  using assms rx_inj [OF assms(1) _ assms] by (auto simp: move_act_def split: move.splits)

lemma move_act_push:
  assumes "t < pex * pey" "edge pex pey t d"
  shows "move_act pex pey t m = Push_to (grid_tx pex pey t d) \<longleftrightarrow> m = Send d"
  using assms tx_inj [OF assms(1) _ assms] by (auto simp: move_act_def split: move.splits)

lemma count_map_iff: "(\<And>x. f x = b \<longleftrightarrow> x = a) \<Longrightarrow> count_list (map f xs) b = count_list xs a"
  by (induction xs) auto

lemma pops_of:
  assumes "t < pex * pey" "edge pex pey t d"
  shows "count_list (map (move_act pex pey t) ms) (Pop_from (grid_rx pex pey t d)) = count_list ms (Recv d)"
  by (rule count_map_iff) (rule move_act_pop [OF assms])

lemma pushes_of:
  assumes "t < pex * pey" "edge pex pey t d"
  shows "count_list (map (move_act pex pey t) ms) (Push_to (grid_tx pex pey t d)) = count_list ms (Send d)"
  by (rule count_map_iff) (rule move_act_push [OF assms])

lemma other_pops:
  assumes t: "t < pex * pey" "edge pex pey t d" and u: "u < pex * pey" "u \<noteq> t"
  shows "count_list (map (move_act pex pey u) ms) (Pop_from (grid_rx pex pey t d)) = 0"
proof -
  have "Pop_from (grid_rx pex pey t d) \<noteq> move_act pex pey u m" for m
    using u(2) by (auto simp: move_act_def split: move.splits dest: rx_inj [OF u(1) _ t, OF _ sym])
  then show ?thesis by (auto simp: count_list_0_iff)
qed

lemma other_pushes:
  assumes t: "t < pex * pey" "edge pex pey t d" and u: "u < pex * pey" "u \<noteq> t"
  shows "count_list (map (move_act pex pey u) ms) (Push_to (grid_tx pex pey t d)) = 0"
proof -
  have "Push_to (grid_tx pex pey t d) \<noteq> move_act pex pey u m" for m
    using u(2) by (auto simp: move_act_def split: move.splits dest: tx_inj [OF u(1) _ t, OF _ sym])
  then show ?thesis by (auto simp: count_list_0_iff)
qed

text \<open>
  A list of moves with a time for each: times do not go back, and the send that answers the
  \<open>k\<close>-th receive in a direction comes from an earlier time of the neighbour.
\<close>

locale timed_moves =
  fixes moves :: "move list" and pex pey :: nat and time :: "nat \<Rightarrow> nat \<times> nat \<Rightarrow> nat"
  assumes time_mono: "\<lbrakk>u < pex * pey; i < j \<or> i = j \<and> k \<le> l; k < length moves; l < length moves\<rbrakk> \<Longrightarrow>
      time u (i, k) \<le> time u (j, l)"
    and answered: "\<lbrakk>t < pex * pey; edge pex pey t d; k < length moves; moves ! k = Recv d\<rbrakk> \<Longrightarrow>
      \<exists>l < length moves. moves ! l = Send (opp d) \<and>
        count_list (take l moves) (Send (opp d)) = count_list (take k moves) (Recv d) \<and>
        time (nbr pex pey t d) (i, l) < time t (i, k)"
    and as_many: "count_list moves (Send (opp d)) = count_list moves (Recv d)"
begin

abbreviation "grid_body \<equiv> \<lambda>t. map (move_act pex pey t) moves"

lemma grid_supplied:
  assumes held: "all_held grid_body reps (pex * pey) p" and t0: "t0 < pex * pey" "fst (p t0) < reps"
  shows "\<exists>u q. u < pex * pey \<and> fst (p u) < reps \<and> grid_body u ! snd (p u) = Pop_from q \<and>
    (\<Sum>v < pex * pey. started grid_body reps v (Pop_from q) (p v)) \<le>
      (\<Sum>v < pex * pey. acts_done grid_body v (Push_to q) (p v))"
proof -
  let ?late = "\<lambda>u. u < pex * pey \<and> fst (p u) < reps"
  obtain t where t: "?late t" "\<forall>u. ?late u \<longrightarrow> time t (p t) \<le> time u (p u)"
    using ex_has_least_nat [of ?late t0 "\<lambda>u. time u (p u)"] t0 by blast
  obtain i k where p: "p t = (i, k)" by (rule prod.exhaust)
  obtain q where k: "k < length moves" "grid_body t ! k = Pop_from q" "i < reps"
    using held t(1) p unfolding all_held_def by fastforce
  obtain d where d: "moves ! k = Recv d" "edge pex pey t d" "q = grid_rx pex pey t d"
    using k(1,2) by (auto simp: move_act_def split: move.splits if_splits)
  let ?u = "nbr pex pey t d"
  have tn: "t < pex * pey" using t(1) by simp
  note bk = edge_back [OF tn d(2)]
  have q: "q = grid_tx pex pey ?u (opp d)" using rx_is_tx [OF tn d(2)] d(3) by simp
  obtain l where l: "l < length moves" "moves ! l = Send (opp d)"
      "count_list (take l moves) (Send (opp d)) = count_list (take k moves) (Recv d)"
      "time ?u (i, l) < time t (i, k)"
    using answered [OF tn d(2) k(1) d(1)] by blast
  let ?c = "count_list moves (Recv d)"
  have begun: "started grid_body reps t (Pop_from q) (p t) = i * ?c + Suc (count_list (take k moves) (Recv d))"
    using k d(1) p
    by (simp add: started_def acts_begun_def d(3) take_map pops_of [OF tn d(2)] count_list_take_Suc)
  have others: "started grid_body reps v (Pop_from q) (p v) = 0" if "v < pex * pey" "v \<noteq> t" for v
    using other_pops [OF tn d(2) that] by (simp add: started_def acts_begun_def acts_done_def d(3) take_map)
  have "(\<Sum>v < pex * pey. started grid_body reps v (Pop_from q) (p v)) = started grid_body reps t (Pop_from q) (p t)"
    using others tn by (subst sum.remove [of _ t]) auto
  moreover have "i * ?c + Suc (count_list (take k moves) (Recv d)) \<le> acts_done grid_body ?u (Push_to q) (p ?u)"
  proof -
    obtain j m where pu: "p ?u = (j, m)" by (rule prod.exhaust)
    have sent: "acts_done grid_body ?u (Push_to q) (p ?u) = j * ?c + count_list (take m moves) (Send (opp d))"
      by (simp add: acts_done_def q take_map pushes_of [OF bk(1,2)] as_many pu)
    have lc: "Suc (count_list (take k moves) (Recv d)) = count_list (take (Suc l) moves) (Send (opp d))"
      using l by (simp add: count_list_take_Suc)
    have "count_list (take (Suc l) moves) (Send (opp d)) \<le> ?c"
      using count_list_take_le [of "Suc l" "length moves" moves "Send (opp d)"] l(1) by (simp add: as_many [of d])
    then have over: "i * ?c + count_list (take (Suc l) moves) (Send (opp d)) \<le> j * ?c" if "i < j"
      using mult_le_mono1 [of "Suc i" j ?c] that by simp
    show ?thesis
    proof (cases "j < reps")
      case True
      then have m: "m < length moves" using held bk(1) pu unfolding all_held_def by fastforce
      have "time t (p t) \<le> time ?u (j, m)" using t(2) bk(1) True pu by (metis fst_conv)
      then have "time ?u (i, l) < time ?u (j, m)" using l(4) p by simp
      then have "i < j \<or> i = j \<and> l < m"
        using time_mono [OF bk(1), of j i m l] m l(1) by (meson leD le_less_linear not_less_iff_gr_or_eq)
      then show ?thesis
        unfolding sent lc using over count_list_take_le [of "Suc l" m moves "Send (opp d)"] by auto
    next
      case False
      then have "i < j" using k(3) by simp
      then show ?thesis unfolding sent lc using over by simp
    qed
  qed
  moreover have "acts_done grid_body ?u (Push_to q) (p ?u) \<le> (\<Sum>v < pex * pey. acts_done grid_body v (Push_to q) (p v))"
    using bk(1) by (intro member_le_sum) auto
  ultimately show ?thesis using tn k p begun by (intro exI [of _ t] exI [of _ q]) auto
qed

lemma grid_in_range:
  assumes "t < pex * pey" "Push_to i \<in> set (grid_body t) \<or> Pop_from i \<in> set (grid_body t)"
  shows "0 \<le> i \<and> i < int (nat (int pex * int pey * 4 - (int pex + int pey) * 2 + 1))"
proof -
  obtain u d where "u < pex * pey" "edge pex pey u d" "i = grid_tx pex pey u d"
  proof -
    from assms(2) obtain d where "edge pex pey t d" "i = grid_tx pex pey t d \<or> i = grid_rx pex pey t d"
      by (auto simp: move_act_def split: move.splits if_splits)
    then show thesis
      using that [of t d] that [of "nbr pex pey t d" "opp d"] assms(1) edge_back(1,2) [OF assms(1)] rx_is_tx [OF assms(1)]
      by auto
  qed
  then show ?thesis using tx_in_range [of u pex pey d] by simp
qed

lemma grid_balanced:
  "(\<Sum>t < pex * pey. count_list (grid_body t) (Push_to q)) = (\<Sum>t < pex * pey. count_list (grid_body t) (Pop_from q))"
proof (cases "\<exists>t d. t < pex * pey \<and> edge pex pey t d \<and> grid_tx pex pey t d = q")
  case True
  then obtain t d where t: "t < pex * pey" "edge pex pey t d" and q: "grid_tx pex pey t d = q" by blast
  let ?u = "nbr pex pey t d"
  note bk = edge_back [OF t]
  have "count_list (grid_body v) (Push_to q) = 0" if "v < pex * pey" "v \<noteq> t" for v
    using other_pushes [OF t that] q by simp
  then have "(\<Sum>v < pex * pey. count_list (grid_body v) (Push_to q)) = count_list moves (Send d)"
    using t(1) pushes_of [OF t] q by (subst sum.remove [of _ t]) auto
  moreover have "count_list (grid_body v) (Pop_from q) = 0" if "v < pex * pey" "v \<noteq> ?u" for v
    using other_pops [OF bk(1,2) that] bk(4) q by simp
  then have "(\<Sum>v < pex * pey. count_list (grid_body v) (Pop_from q)) = count_list moves (Recv (opp d))"
    using bk(1) pops_of [OF bk(1,2)] bk(4) q by (subst sum.remove [of _ ?u]) auto
  ultimately show ?thesis using as_many [of "opp d"] by simp
next
  case False
  have "Push_to q \<notin> set (grid_body t) \<and> Pop_from q \<notin> set (grid_body t)" if t: "t < pex * pey" for t
    using False t edge_back(1,2) [OF t] rx_is_tx [OF t]
    by (auto simp: move_act_def split: move.splits if_splits) blast+
  then have "count_list (grid_body t) (Push_to q) = 0 \<and> count_list (grid_body t) (Pop_from q) = 0" if "t < pex * pey" for t
    using that by (simp add: count_list_0_iff)
  then show ?thesis by simp
qed

end

section \<open>Sweep and halo\<close>

text \<open>The distance of a thread from the corner where a sweep starts.\<close>

definition wave :: "nat \<Rightarrow> nat \<Rightarrow> nat \<Rightarrow> nat \<Rightarrow> nat" where
  "wave pex pey phase u =
     (let x = u mod pex; y = u div pex in
      if phase = 0 then x + y
      else if phase = 1 then (pex - 1 - x) + (pey - 1 - y)
      else if phase = 2 then (pex - 1 - x) + y
      else x + (pey - 1 - y))"

definition sweep_time :: "nat \<Rightarrow> nat \<Rightarrow> nat \<Rightarrow> nat \<times> nat \<Rightarrow> nat" where
  "sweep_time pex pey u p =
     (fst p * 4 + snd p div 4) * (2 * (pex + pey)) + 2 * wave pex pey (snd p div 4) u +
     (if snd p mod 4 < 2 then 0 else 1)"

definition halo_time :: "nat \<Rightarrow> nat \<times> nat \<Rightarrow> nat" where
  "halo_time u p = 2 * fst p + (if snd p < 4 then 0 else 1)"

lemma cell_mod [simp]: "x < pex \<Longrightarrow> cell pex x y mod pex = x"
  and cell_div [simp]: "x < pex \<Longrightarrow> cell pex x y div pex = y"
  by (simp_all add: cell_def)

lemma wave_bound:
  assumes "u < pex * pey"
  shows "2 * wave pex pey phase u + 1 < 2 * (pex + pey)"
proof -
  from assms obtain x y where "u = cell pex x y" "x < pex" "y < pey" by (rule cell_exhaust)
  then show ?thesis by (auto simp: wave_def Let_def)
qed

lemma wave_step:
  assumes u: "u < pex * pey" "edge pex pey u d"
    and d: "d \<in> set ([[XDn, YDn], [XUp, YUp], [XUp, YDn], [XDn, YUp]] ! phase)" "phase < 4"
  shows "Suc (wave pex pey phase (nbr pex pey u d)) = wave pex pey phase u"
proof -
  from u(1) obtain x y where c: "u = cell pex x y" "x < pex" "y < pey" by (rule cell_exhaust)
  note n = cell_nbr [OF c(2,3) u(2) [unfolded c(1)]] and e = u(2) [unfolded c(1) cell_edge [OF c(2,3)]]
  have "phase = 0 \<or> phase = 1 \<or> phase = 2 \<or> phase = 3" using d(2) by auto
  then show ?thesis
    using d(1) e c n(2,3) unfolding c(1) n(1)
    by (elim disjE) (auto simp: wave_def Let_def step_x_def step_y_def)
qed

lemma sweep_mono:
  assumes u: "u < pex * pey" and le: "i < j \<or> i = j \<and> k \<le> l" and kl: "k < 16" "l < 16"
  shows "sweep_time pex pey u (i, k) \<le> sweep_time pex pey u (j, l)"
proof (cases "i * 4 + k div 4 < j * 4 + l div 4")
  case True
  let ?P = "2 * (pex + pey)"
  have "Suc (i * 4 + k div 4) * ?P \<le> (j * 4 + l div 4) * ?P" using True by (intro mult_le_mono1) simp
  then show ?thesis
    using wave_bound [OF u, of "k div 4"] by (simp add: sweep_time_def split: if_splits)
next
  case False
  have "k div 4 \<le> l div 4" if "k \<le> l" using that by (rule div_le_mono)
  moreover have "k div 4 < 4" using kl by auto
  ultimately have eq: "i = j" "k div 4 = l div 4" "k \<le> l" using le False by auto
  have "k = 4 * (k div 4) + k mod 4" "l = 4 * (l div 4) + l mod 4" by simp_all
  then have "k mod 4 \<le> l mod 4" using eq by linarith
  then show ?thesis using eq by (simp add: sweep_time_def)
qed

lemma sweep_recv:
  assumes "k < 16" "sweep_moves ! k = Recv d"
  shows "(k, d) \<in> {(0, XDn), (1, YDn), (4, XUp), (5, YUp), (8, XUp), (9, YDn), (12, XDn), (13, YUp)}"
proof -
  have all: "list_all (\<lambda>k. case sweep_moves ! k of Send d \<Rightarrow> True
      | Recv d \<Rightarrow> (k, d) \<in> set [(0, XDn), (1, YDn), (4, XUp), (5, YUp), (8, XUp), (9, YDn), (12, XDn), (13, YUp)]) [0..<16]"
    by code_simp
  have "k \<in> set [0..<16]" using assms(1) by (simp only: set_upt atLeastLessThan_iff) simp
  from bspec [OF all [unfolded list_all_iff] this] show ?thesis by (simp add: assms(2))
qed

interpretation sweeping: timed_moves sweep_moves pex pey "sweep_time pex pey" for pex pey
proof
  show "sweep_time pex pey u (i, k) \<le> sweep_time pex pey u (j, l)"
    if "u < pex * pey" "i < j \<or> i = j \<and> k \<le> l" "k < length sweep_moves" "l < length sweep_moves" for u i j k l
    using that by (intro sweep_mono) (simp_all add: sweep_moves_def)
  show "count_list sweep_moves (Send (opp d)) = count_list sweep_moves (Recv d)" for d
    by (cases d) (simp_all add: sweep_moves_def opp_def)
  show "\<exists>l < length sweep_moves. sweep_moves ! l = Send (opp d) \<and>
      count_list (take l sweep_moves) (Send (opp d)) = count_list (take k sweep_moves) (Recv d) \<and>
      sweep_time pex pey (nbr pex pey t d) (i, l) < sweep_time pex pey t (i, k)"
    if t: "t < pex * pey" "edge pex pey t d" and k: "k < length sweep_moves" "sweep_moves ! k = Recv d" for t d k i
  proof (intro exI [of _ "k + 2"] conjI)
    have r: "(k, d) \<in> {(0, XDn), (1, YDn), (4, XUp), (5, YUp), (8, XUp), (9, YDn), (12, XDn), (13, YUp)}"
      using k by (intro sweep_recv) (simp_all add: sweep_moves_def)
    then show "k + 2 < length sweep_moves" "sweep_moves ! (k + 2) = Send (opp d)"
      "count_list (take (k + 2) sweep_moves) (Send (opp d)) = count_list (take k sweep_moves) (Recv d)"
      by (auto simp: sweep_moves_def opp_def)
    have "(k + 2) div 4 = k div 4" "k mod 4 < 2" "\<not> (k + 2) mod 4 < 2" "k div 4 < 4"
      "d \<in> set ([[XDn, YDn], [XUp, YUp], [XUp, YDn], [XDn, YUp]] ! (k div 4))"
      using r by auto
    then show "sweep_time pex pey (nbr pex pey t d) (i, k + 2) < sweep_time pex pey t (i, k)"
      using wave_step [OF t, of "k div 4"] by (simp add: sweep_time_def)
  qed
qed

interpretation haloing: timed_moves halo_moves pex pey halo_time for pex pey
proof
  show "halo_time u (i, k) \<le> halo_time u (j, l)"
    if "u < pex * pey" "i < j \<or> i = j \<and> k \<le> l" "k < length halo_moves" "l < length halo_moves" for u i j k l
    using that by (auto simp: halo_time_def)
  show "count_list halo_moves (Send (opp d)) = count_list halo_moves (Recv d)" for d
    by (cases d) (simp_all add: halo_moves_def opp_def)
  show "\<exists>l < length halo_moves. halo_moves ! l = Send (opp d) \<and>
      count_list (take l halo_moves) (Send (opp d)) = count_list (take k halo_moves) (Recv d) \<and>
      halo_time (nbr pex pey t d) (i, l) < halo_time t (i, k)"
    if k: "k < length halo_moves" "halo_moves ! k = Recv d" for t d k i
  proof -
    have "k \<in> {0, 1, 2, 3, 4, 5, 6, 7}" using k(1) by (auto simp: halo_moves_def)
    then have "(k, d) \<in> {(4, XUp), (5, XDn), (6, YUp), (7, YDn)}" using k(2) by (auto simp: halo_moves_def)
    then show ?thesis
      by (intro exI [of _ "case d of XUp \<Rightarrow> 1 | XDn \<Rightarrow> 0 | YUp \<Rightarrow> 3 | YDn \<Rightarrow> 2"])
        (auto simp: halo_moves_def opp_def halo_time_def)
  qed
qed

section \<open>Incast and outcast\<close>

lemma sum_first:
  fixes n :: nat
  assumes "0 < n"
  shows "(\<Sum>v < n. f v) = f 0 + (\<Sum>v \<in> {..<n} - {0}. f v :: nat)"
  using assms by (intro sum.remove) simp_all

lemma count_list_replicate [simp]: "count_list (replicate k a) b = (if a = b then k else 0)"
  by (induction k) auto

lemma incast_supplied:
  assumes held: "all_held (\<lambda>t. incast (0 = t) n) reps n p" and t: "t < n" "fst (p t) < reps"
  shows "\<exists>u q. u < n \<and> fst (p u) < reps \<and> incast (0 = u) n ! snd (p u) = Pop_from q \<and>
    (\<Sum>v < n. started (\<lambda>t. incast (0 = t) n) reps v (Pop_from q) (p v)) \<le>
      (\<Sum>v < n. acts_done (\<lambda>t. incast (0 = t) n) v (Push_to q) (p v))"
proof -
  let ?b = "\<lambda>t. incast (0 = t) n"
  have ended: "p v = (reps, 0)" if "v < n" "0 < v" for v
    using held that unfolding all_held_def by (auto simp: incast_def split: if_splits)
  then have t0: "t = 0" using t by (cases t) fastforce+
  then have k: "snd (p 0) < n - 1" using held t unfolding all_held_def by (auto simp: incast_def)
  have n: "0 < n" using t by simp
  have "started ?b reps 0 (Pop_from 0) (p 0) = fst (p 0) * (n - 1) + Suc (snd (p 0))"
    using t t0 k by (simp add: started_def acts_begun_def incast_def count_list_replicate min_def)
  also have "\<dots> \<le> Suc (fst (p 0)) * (n - 1)" using k by simp
  also have "\<dots> \<le> reps * (n - 1)" using t t0 by (intro mult_le_mono1) simp
  finally have "(\<Sum>v < n. started ?b reps v (Pop_from 0) (p v)) \<le> reps * (n - 1)"
    using ended by (simp add: sum_first [OF n] started_def acts_done_def incast_def)
  moreover have "(\<Sum>v < n. acts_done ?b v (Push_to 0) (p v)) = reps * (n - 1)"
    using ended n by (simp add: sum_first [OF n] acts_done_def incast_def count_list_replicate take_replicate card_Diff_singleton)
  moreover have "?b 0 ! snd (p 0) = Pop_from 0" using k by (simp add: incast_def)
  ultimately show ?thesis using n t t0 by (intro exI [of _ 0]) simp
qed

lemma outcast_supplied:
  assumes held: "all_held (\<lambda>t. outcast (0 = t) n) reps n p" and t: "t < n" "fst (p t) < reps"
  shows "\<exists>u q. u < n \<and> fst (p u) < reps \<and> outcast (0 = u) n ! snd (p u) = Pop_from q \<and>
    (\<Sum>v < n. started (\<lambda>t. outcast (0 = t) n) reps v (Pop_from q) (p v)) \<le>
      (\<Sum>v < n. acts_done (\<lambda>t. outcast (0 = t) n) v (Push_to q) (p v))"
proof -
  let ?b = "\<lambda>t. outcast (0 = t) n"
  have n: "0 < n" using t by simp
  have master: "p 0 = (reps, 0)"
    using held n unfolding all_held_def by (auto simp: outcast_def)
  then have t0: "0 < t" using t by (cases t) auto
  have le: "started ?b reps v (Pop_from 0) (p v) \<le> reps" if "v < n" "0 < v" for v
    using held that unfolding all_held_def by (auto simp: started_def acts_begun_def acts_done_def outcast_def)
  have "(\<Sum>v \<in> {..<n} - {0}. started ?b reps v (Pop_from 0) (p v)) \<le> (\<Sum>v \<in> {..<n} - {0}. reps)"
    using le by (intro sum_mono) auto
  then have "(\<Sum>v < n. started ?b reps v (Pop_from 0) (p v)) \<le> reps * (n - 1)"
    using master n by (simp add: sum_first [OF n] started_def acts_done_def outcast_def count_list_replicate mult.commute)
  moreover have "(\<Sum>v < n. acts_done ?b v (Push_to 0) (p v)) = reps * (n - 1)"
  proof -
    have "acts_done ?b v (Push_to 0) (p v) = 0" if "0 < v" for v
      using that by (simp add: acts_done_def outcast_def take_Cons split: nat.splits)
    then show ?thesis using master by (simp add: sum_first [OF n] acts_done_def outcast_def count_list_replicate)
  qed
  moreover have "?b t ! snd (p t) = Pop_from 0"
    using held t t0 unfolding all_held_def by (auto simp: outcast_def)
  ultimately show ?thesis using t by (intro exI [of _ t] exI [of _ 0]) simp
qed

section \<open>The programs\<close>

lemma body_in_range:
  assumes "t < pex * pey"
    and "Push_to i \<in> set (worker_body pat pex pey t) \<or> Pop_from i \<in> set (worker_body pat pex pey t)"
  shows "0 \<le> i \<and> i < int (queue_count pat pex pey)"
proof (cases pat)
  case Sweep2d
  then show ?thesis using sweeping.grid_in_range [of t pex pey i] assms by (simp add: worker_sweep queue_count_def)
next
  case Halo2d
  then show ?thesis using haloing.grid_in_range [of t pex pey i] assms by (simp add: worker_halo queue_count_def)
next
  case Incast
  then have "i = 0"
    using assms(2) by (auto simp: worker_body_def incast_def Let_def split: prod.splits if_splits)
  then show ?thesis using Incast by (simp add: queue_count_def)
next
  case Outcast
  then have "i = 0"
    using assms(2) by (auto simp: worker_body_def outcast_def Let_def split: prod.splits if_splits)
  moreover have "0 \<le> int pex * int pey * 4 - (int pex + int pey) * 2"
  proof -
    have "0 < pex" "0 < pey" using assms(1) by (auto intro: gr0I)
    then have "0 \<le> int pey * (int pex - 1)" "0 \<le> int pex * (int pey - 1)" by simp_all
    then show ?thesis by (simp add: algebra_simps)
  qed
  ultimately show ?thesis using Outcast by (simp add: queue_count_def)
qed

lemma body_incast: "worker_body Incast pex pey = (\<lambda>t. incast (0 = t) (pex * pey))"
  by (rule ext) (simp add: worker_body_def Let_def split: prod.splits)

lemma body_outcast: "worker_body Outcast pex pey = (\<lambda>t. outcast (0 = t) (pex * pey))"
  by (rule ext) (simp add: worker_body_def Let_def split: prod.splits)

lemma body_sweep: "worker_body Sweep2d pex pey = (\<lambda>t. map (move_act pex pey t) sweep_moves)"
  by (rule ext) (rule worker_sweep)

lemma body_halo: "worker_body Halo2d pex pey = (\<lambda>t. map (move_act pex pey t) halo_moves)"
  by (rule ext) (rule worker_halo)

lemma ember_is_net:
  assumes "message_queue Q C" "nd < 2 ^ 16"
  shows "ember_net Q C (worker_body pat pex pey) (pex * pey) (queue_count pat pex pey) nd"
  using assms body_in_range by (simp add: ember_net_def ember_net_axioms_def)

lemma body_balanced:
  assumes "0 < pex * pey"
  shows "(\<Sum>t < pex * pey. count_list (worker_body pat pex pey t) (Push_to q)) =
    (\<Sum>t < pex * pey. count_list (worker_body pat pex pey t) (Pop_from q))"
proof (cases pat)
  case Sweep2d
  then show ?thesis using sweeping.grid_balanced by (simp add: body_sweep)
next
  case Halo2d
  then show ?thesis using haloing.grid_balanced by (simp add: body_halo)
next
  case Incast
  then show ?thesis using assms by (simp add: body_incast incast_def sum_first [OF assms])
next
  case Outcast
  then show ?thesis using assms by (simp add: body_outcast outcast_def sum_first [OF assms])
qed

lemma ember_is_live:
  assumes "unbounded_queue Q C" "nd < 2 ^ 16" "0 < pex * pey"
  shows "ember_live Q C (worker_body pat pex pey) (pex * pey) (queue_count pat pex pey) reps nd"
proof -
  have "\<exists>u q. u < pex * pey \<and> fst (p u) < reps \<and> worker_body pat pex pey u ! snd (p u) = Pop_from q \<and>
      (\<Sum>v < pex * pey. started (worker_body pat pex pey) reps v (Pop_from q) (p v)) \<le>
        (\<Sum>v < pex * pey. acts_done (worker_body pat pex pey) v (Push_to q) (p v))"
    if "all_held (worker_body pat pex pey) reps (pex * pey) p" "t < pex * pey" "fst (p t) < reps" for p t
  proof (cases pat)
    case Sweep2d
    then show ?thesis using sweeping.grid_supplied that by (simp add: body_sweep)
  next
    case Halo2d
    then show ?thesis using haloing.grid_supplied that by (simp add: body_halo)
  next
    case Incast
    then show ?thesis using incast_supplied that by (simp add: body_incast)
  next
    case Outcast
    then show ?thesis using outcast_supplied that by (simp add: body_outcast)
  qed
  moreover have "ember_net Q C (worker_body pat pex pey) (pex * pey) (queue_count pat pex pey) nd"
    using assms(1,2) by (intro ember_is_net) (simp_all add: unbounded_queue_def)
  ultimately show ?thesis
    using assms(1) body_balanced [OF assms(3)] by (simp add: ember_live_def ember_live_axioms_def)
qed

lemma start_ok:
  assumes "message_queue Q C"
  shows "ember_ok C (worker_body pat pex pey) reps nd (pex * pey) (queue_count pat pex pey)
    (ember_start pat pex pey Q msgs)"
proof -
  have "units (worker_body pat pex pey) nd t a (workers (ember_start pat pex pey Q msgs) ! t) = 0" if "t < pex * pey" for t a
    using that by (simp add: ember_start_def units_def acts_done_def)
  then have "total_units (worker_body pat pex pey) nd a (workers (ember_start pat pex pey Q msgs)) = 0" for a
    by (simp add: total_units_def) (simp add: ember_start_def)
  moreover have "C (q_empty Q) = {#}" using assms by (simp add: message_queue_def)
  ultimately show ?thesis
    by (simp add: ember_ok_def) (simp add: ember_start_def worker_ok_def arrived_at_def)
qed

section \<open>Properties\<close>

definition fair_turns :: "nat \<Rightarrow> (nat \<Rightarrow> nat) \<Rightarrow> bool" where
  "fair_turns n \<sigma> \<longleftrightarrow> (\<forall>k. \<forall>t < n. \<exists>m \<ge> k. \<sigma> m = t)"

text \<open>
  C8: Each of the four patterns ends, on a grid of any size and for any number of iterations, with all
  messages delivered, whatever the order of the turns, as long as each thread gets its turn again and
  again: the threads never block each other for good, all queues are empty at the end, and no thread
  ever accesses a queue outside \<open>boost_queues\<close>. A message has fewer than \<open>2 ^ 16\<close> doubles, and the queues take every message.
\<close>

theorem ember_terminates:
  assumes "unbounded_queue Q C" "0 < pex" "0 < pey" "nd < 2 ^ 16" "fair_turns (pex * pey) \<sigma>"
  shows "\<exists>k. let s = ember_run (worker_body pat pex pey) reps nd Q \<sigma> (ember_start pat pex pey Q msgs) k in
    (\<forall>w \<in> set (workers s). w_at w = Over \<and> w_iter w = reps) \<and> (\<forall>q \<in> set (boost_queues s). C q = {#}) \<and>
    (\<forall>j. \<forall>w \<in> set (workers (ember_run (worker_body pat pex pey) reps nd Q \<sigma> (ember_start pat pex pey Q msgs) j)).
       w_at w \<noteq> Astray)"
proof -
  let ?b = "worker_body pat pex pey" and ?n = "pex * pey" and ?nq = "queue_count pat pex pey"
  let ?s = "\<lambda>k. ember_run ?b reps nd Q \<sigma> (ember_start pat pex pey Q msgs) k"
  have n: "0 < ?n" using assms(2,3) by simp
  have q: "message_queue Q C" using assms(1) by (simp add: unbounded_queue_def)
  note live = ember_is_live [OF assms(1,4) n, of pat reps] and start = start_ok [OF q, of pat pex pey reps nd msgs]
  obtain k where over: "\<forall>t < ?n. w_at (workers (?s k) ! t) = Over"
    using ember_live.fair_ends [OF live start n] assms(5) unfolding fair_turns_def by blast
  have ok: "ember_ok C ?b reps nd ?n ?nq (?s j)" for j by (rule ember_net.run_keeps [OF ember_is_net [OF q assms(4)] start])
  then have "\<forall>j. \<forall>w \<in> set (workers (?s j)). w_at w \<noteq> Astray"
    by (auto simp: ember_ok_def worker_ok_def in_set_conv_nth)
  moreover from ok [of k] have len: "length (workers (?s k)) = ?n" "length (boost_queues (?s k)) = ?nq" by (simp_all add: ember_ok_def)
  have "w_iter (workers (?s k) ! t) = reps" if "t < ?n" for t
    using ok [of k] over that by (simp add: ember_ok_def worker_ok_def)
  then have "\<forall>w \<in> set (workers (?s k)). w_at w = Over \<and> w_iter w = reps"
    using over len by (auto simp: in_set_conv_nth)
  moreover have "\<forall>x \<in> set (boost_queues (?s k)). C x = {#}"
    using ember_live.over_empty [OF live ok] over len by (auto simp: in_set_conv_nth)
  ultimately show ?thesis by (intro exI [of _ k]) (simp add: Let_def)
qed

lemma round_turns_fair: "0 < n \<Longrightarrow> fair_turns n (\<lambda>i. i mod n)"
  unfolding fair_turns_def
proof (intro allI impI)
  fix k t assume "t < n"
  then show "\<exists>m \<ge> k. m mod n = t" by (intro exI [of _ "k * n + t"]) (auto simp: trans_le_add1)
qed

theorem ember_terminates_witness:
  "\<exists>k. let s = ember_run (worker_body Sweep2d 3 2) 7 7 std_queue (\<lambda>i. i mod 6)
      (ember_start Sweep2d 3 2 std_queue (\<lambda>i. i)) k in
    (\<forall>w \<in> set (workers s). w_at w = Over \<and> w_iter w = 7) \<and> (\<forall>q \<in> set (boost_queues s). mset q = {#}) \<and>
    (\<forall>j. \<forall>w \<in> set (workers (ember_run (worker_body Sweep2d 3 2) 7 7 std_queue (\<lambda>i. i mod 6)
       (ember_start Sweep2d 3 2 std_queue (\<lambda>i. i)) j)). w_at w \<noteq> Astray)"
  by (rule ember_terminates [OF std.unbounded_queue_axioms]) (simp_all add: round_turns_fair)

text \<open>
  C21: The queue on which a thread of the grid sends to a neighbour is the one from which that neighbour
  receives in the opposite direction; no other thread or direction sends on it, and its number is
  between 1 and the number of directed links, which is below the number of queues.
\<close>

theorem grid_wiring:
  assumes "t < pex * pey" "edge pex pey t d"
  shows "nbr pex pey t d < pex * pey \<and> edge pex pey (nbr pex pey t d) (opp d) \<and>
    nbr pex pey (nbr pex pey t d) (opp d) = t \<and>
    grid_rx pex pey (nbr pex pey t d) (opp d) = grid_tx pex pey t d \<and>
    1 \<le> grid_tx pex pey t d \<and> nat (grid_tx pex pey t d) < queue_count Sweep2d pex pey \<and>
    (\<forall>u e. u < pex * pey \<and> edge pex pey u e \<and> grid_tx pex pey u e = grid_tx pex pey t d \<longrightarrow> u = t \<and> e = d)"
  using edge_back [OF assms] tx_in_range [OF assms] tx_inj [OF _ _ assms] by (auto simp: queue_count_def)

theorem grid_wiring_witness:
  "nbr 3 2 1 YUp = 4 \<and> grid_rx 3 2 4 YDn = grid_tx 3 2 1 YUp"
proof -
  have "edge 3 2 1 YUp" by code_simp
  moreover have "nbr 3 2 1 YUp = 4" by code_simp
  ultimately show ?thesis using grid_wiring [of 1 3 2 YUp] by (simp add: opp_def)
qed

section \<open>Long messages\<close>

text \<open>A thread that cannot get past the act at \<open>j\<close>.\<close>

definition short_of :: "nat \<Rightarrow> 'm ember_worker \<Rightarrow> bool" where
  "short_of j w \<longleftrightarrow> w_iter w = 0 \<and> w_act w \<le> j \<and> w_at w \<noteq> Over"

lemma act_step_stays:
  assumes "a \<noteq> Skip" "unat (w_idx w) < nd" "act_step Q nd a s w = (qs, w')"
  shows "w_iter w' = w_iter w \<and> w_act w' = w_act w \<and> (w_at w' = w_at w \<or> w_at w' = Astray)"
  using assms by (auto simp: act_step_def Let_def split: act.splits option.splits)

lemma step_short:
  assumes "pid < length (workers s)" "0 < reps" "2 ^ 16 \<le> nd" "j < length (body pid)" "body pid ! j \<noteq> Skip"
    and "short_of j (workers s ! pid)"
  shows "short_of j (workers (ember_worker_step body reps nd Q pid s) ! pid)"
proof -
  have idx: "unat (x :: u16) < nd" for x
  proof -
    have "unat x < 2 ^ LENGTH(16)" by (rule unsigned_less)
    then show ?thesis using assms(3) by simp
  qed
  have nx: "Suc (w_act (workers s ! pid)) \<le> j" if "body pid ! w_act (workers s ! pid) = Skip"
    using assms(5,6) that by (cases "w_act (workers s ! pid) = j") (auto simp: short_of_def)
  obtain qs w' where step: "act_step Q nd (body pid ! w_act (workers s ! pid)) s (workers s ! pid) = (qs, w')"
    by (rule prod.exhaust)
  have w': "short_of j w'"
  proof (cases "body pid ! w_act (workers s ! pid) = Skip")
    case True
    then have "w' = next_act (workers s ! pid)" using step by (simp add: act_step_def Let_def)
    then show ?thesis using nx [OF True] assms(6) by (simp add: next_act_def short_of_def)
  next
    case False
    from act_step_stays [OF False idx step] show ?thesis using assms(6) by (auto simp: short_of_def)
  qed
  show ?thesis
  proof (cases "w_at (workers s ! pid) = Run")
    case True
    have "w_iter (workers s ! pid) < reps" "w_act (workers s ! pid) < length (body pid)"
      using assms(2,4,6) by (auto simp: short_of_def)
    then have "workers (ember_worker_step body reps nd Q pid s) ! pid = w'"
      using True step assms(1) by (simp add: ember_worker_step_def Let_def)
    then show ?thesis using w' by simp
  next
    case False
    then show ?thesis
      using assms(1,6) by (cases "w_at (workers s ! pid)"; cases "pid = 0") (simp_all add: ember_worker_step_def Let_def short_of_def nth_update_if)
  qed
qed

lemma step_other: "t \<noteq> pid \<Longrightarrow> workers (ember_worker_step body reps nd Q pid s) ! t = workers s ! t"
  by (auto simp: ember_worker_step_def Let_def split: at_worker.splits prod.splits)

lemma step_length [simp]: "length (workers (ember_worker_step body reps nd Q pid s)) = length (workers s)"
  by (auto simp: ember_worker_step_def Let_def split: at_worker.splits prod.splits)

text \<open>
  C39: The counter of the doubles has 16 bits. With a message of \<open>2 ^ 16\<close> doubles or more, a thread that
  has anything to send or to receive never ends, whatever the schedule and the queues.
\<close>

theorem long_message_never_ends:
  assumes "2 ^ 16 \<le> nd" "0 < reps" "pid < pex * pey" "\<exists>a \<in> set (worker_body pat pex pey pid). a \<noteq> Skip"
  shows "w_at (workers (ember_run (worker_body pat pex pey) reps nd Q \<sigma> (ember_start pat pex pey Q msgs) k) ! pid) \<noteq> Over"
proof -
  let ?b = "worker_body pat pex pey"
  let ?s = "\<lambda>k. ember_run ?b reps nd Q \<sigma> (ember_start pat pex pey Q msgs) k"
  obtain j where j: "j < length (?b pid)" "?b pid ! j \<noteq> Skip" using assms(4) by (auto simp: in_set_conv_nth)
  have "length (workers (?s k)) = pex * pey \<and> short_of j (workers (?s k) ! pid)"
  proof (induction k)
    case 0
    then show ?case using assms(3) by (simp add: ember_start_def short_of_def)
  next
    case (Suc k)
    then show ?case
      using step_short [where body = ?b and Q = Q, OF _ assms(2,1) j] step_other [of pid "\<sigma> k" ?b reps nd Q "?s k"] assms(3)
      by (cases "\<sigma> k = pid") (auto simp: ember_turn_def)
  qed
  then show ?thesis by (simp add: short_of_def)
qed

theorem long_message_never_ends_witness:
  "\<forall>k. w_at (workers (ember_run (worker_body Halo2d 2 2) 7 65536 std_queue (\<lambda>i. i mod 4)
    (ember_start Halo2d 2 2 std_queue (\<lambda>i. i)) k) ! 0) \<noteq> Over"
proof -
  have "worker_body Halo2d 2 2 0 = halo (get_neighbor 0 2 2 0 0) (fst (get_queue_id 0 0 2 2)) (snd (get_queue_id 0 0 2 2))"
    by (simp add: worker_body_def get_position_def Let_def split: prod.splits)
  then have "\<exists>a \<in> set (worker_body Halo2d 2 2 0). a \<noteq> Skip"
    by (simp add: halo_def send_dir_def get_neighbor_def Let_def)
  then show ?thesis by (intro allI long_message_never_ends) simp_all
qed

end
