(* ===== verification/Spec2Isabelle.thy ===== *)
theory Spec2Isabelle
  imports Hash_Little Std_Map Text_Stream Phish_Items Phish_Init Phish_Bait Phish_Launch
    Phish_Receive Phish_Shutdown Phish_Transmit Minnow_Count Minnow_Sort Minnow_Files
    Bitonic_Fair Bitonic_Correct Firewall_Flow Pipeline_Flow Pipeline_Safe Ember_Ends
begin

text \<open>
  \<^bold>\<open>A verification development for the program cores of VL_uBMK\<close>

  VL_uBMK is a collection of benchmarks for message queues between cores. This development covers
  those of its programs that have logic of their own: the PHISH stream library with its word
  count minnows, the parallel bitonic sorts, the network firewall and pipeline, and the communication
  patterns of ember.

  \<^bold>\<open>The PHISH library\<close> (\<^verbatim>\<open>src/phish\<close>, \<^verbatim>\<open>include/phish\<close>). A launcher describes a network
  of schools of minnows and the hooks between their ports (bait), starts one process per minnow and
  tells each by its command line where its connections are. A minnow receives messages on input
  ports, unpacks values, packs others and sends them from output ports; when everything it receives
  from has closed, it stops. The process is one record \<^verbatim>\<open>phish\<close>, whose fields are the globals of
  \<^verbatim>\<open>phish-common.cpp\<close> and \<^verbatim>\<open>phish-zmq.cpp\<close>; a function of the C interface is a function of the
  same name from state to result, where the result (\<^verbatim>\<open>Prelude\<close>) is a value with the new state, an
  exit of the process, or a fault (an access outside an object, a call of a null pointer). Calls of
  the ZeroMQ library are entries of a log in the state, what its sockets deliver is an argument.
    \<^item> \<open>Hash_Little\<close>: \<^verbatim>\<open>hashlittle.cpp\<close>; the three ways to read a key compute one function, and
      the mixing step is injective.
    \<^item> \<open>Std_Map\<close>, \<open>Text_Stream\<close>: what the code uses of \<^verbatim>\<open>std::map\<close> and of the streams.
    \<^item> \<open>Phish_State\<close>, \<open>Phish_Pack\<close>, \<open>Phish_Items\<close>: errors and the abort callback, the pool of
      datums, packing and unpacking; the buffers as lists of items (an abstraction), overflow
      without and with a callback that cancels the abort.
    \<^item> \<open>Phish_Send\<close>, \<open>Phish_Transmit\<close>: output connections, the send patterns, closing; what a
      send puts on the wire.
    \<^item> \<open>Phish_Loop\<close>, \<open>Phish_Receive\<close>: ports, checks, \<^verbatim>\<open>phish_loop\<close>, \<^verbatim>\<open>phish_probe\<close>,
      \<^verbatim>\<open>phish_recv\<close>, \<^verbatim>\<open>phish_exit\<close>. The locale \<open>minnow\<close> states what a minnow's handlers must
      keep; its lemmas say that the loop runs over any well-formed input and stops with the last
      close. The minnows below are its interpretations.
    \<^item> \<open>Phish_Init\<close>: the command line and the handshake of \<^verbatim>\<open>phish_init\<close>.
    \<^item> \<open>Phish_Bait\<close>, \<open>Phish_Launch\<close>: describing a network, and what the launcher makes of the
      description; every reachable description is consistent, and \<^verbatim>\<open>phish_init\<close> reads back what
      the launcher wrote.
    \<^item> \<open>Phish_Shutdown\<close>: the closes sent over a launched network are those the loops wait for.
    \<^item> \<open>Minnow_Kit\<close>, \<open>Minnow_Count\<close>, \<open>Minnow_Sort\<close>, \<open>Minnow_Words\<close>, \<open>Minnow_Files\<close>:
      \<^verbatim>\<open>count.cpp\<close>, \<^verbatim>\<open>sort.cpp\<close>, \<^verbatim>\<open>file2words.cpp\<close>, \<^verbatim>\<open>filegen.cpp\<close> and \<^verbatim>\<open>print.cpp\<close> of
      \<^verbatim>\<open>apps/phish/minnow\<close>: what each does with all of its input, and where it leaves its
      memory.

  \<^bold>\<open>The bitonic sorts\<close> (\<^verbatim>\<open>apps/bitonic\<close>). A master cuts an array whose length is a power of two
  into tasks, slaves run them on the shared array, and the master pairs what came back. The threads
  are interleaved at single queue operations and single exchanges. The queue is a parameter: the
  locales of \<open>Queues\<close> say that it neither loses nor doubles a message; nothing is said of its order.
    \<^item> \<open>Bitonic_Ops\<close>: \<^verbatim>\<open>utils.hpp\<close> and the loops of a slave as sequences of exchanges; by the
      zero-one principle it suffices to look at arrays of booleans.
    \<^item> \<open>Bitonic_Boost\<close>: \<^verbatim>\<open>boost.cpp\<close>; the invariant is that the handed-out and the waiting
      segments tile the array that was fed in.
    \<^item> \<open>Bitonic_Live\<close>, \<open>Bitonic_Fair\<close>: from every reachable state the sort can still end,
      and under a fair schedule it does, with all its slaves.
    \<^item> \<open>Bitonic_Counts\<close>, \<open>Bitonic_Chunks\<close>, \<open>Bitonic_Merge\<close>: \<^verbatim>\<open>utils.cpp\<close> and
      \<^verbatim>\<open>bitonic.cpp\<close>, where a merge is cut into chunks; the counters recognise the last chunk of a
      swap, the chunks of a swap have its effect in every interleaving, and initial tasks sort.
    \<^item> \<open>Bitonic_Pieces\<close>, \<open>Bitonic_Status\<close>, \<open>Bitonic_Moves\<close>, \<open>Bitonic_Tally\<close>,
      \<open>Bitonic_Correct\<close>: the whole of \<^verbatim>\<open>bitonic.cpp\<close>. Each chunk has a status (unfed, being
      sorted, part of a merge at some level, part of a sorted run); the exchanges of a level
      commute because they lie in disjoint pieces, the master moves the statuses, the counters are
      what the statuses say, and from these parts follows the invariant of the run, with every
      access in bounds and a sorted array at the end.

  \<^bold>\<open>The firewall\<close> (\<^verbatim>\<open>apps/network/firewall.cpp\<close>). Headers move from the main thread through
  classifying and counting stages, and back to the pool. \<open>Firewall\<close> models the threads,
  \<open>Firewall_Flow\<close> shows that every packet is accounted for in every interleaving.

  \<^bold>\<open>The pipeline\<close> (\<^verbatim>\<open>apps/network/pipeline.cpp\<close>). One thread fills headers in, two stages of
  several threads inspect them, the main thread counts them and gives them back. \<open>Pipeline\<close> models
  the threads, \<open>Pipeline_Safe\<close> shows that every queue and array holds headers of the pool and no
  cursor leaves its array, \<open>Pipeline_Flow\<close> where each packet is, that exactly the packets asked for
  are sent and received, and that stage 1 takes every packet for corrupted, its checksum being cut
  to 16 bits.

  \<^bold>\<open>Ember\<close> (\<^verbatim>\<open>apps/ember/ember.cpp\<close>). Threads on a grid exchange messages with their
  neighbours (sweep, halo), or a master and slaves share one queue (incast, outcast). \<open>Ember\<close>
  models the numbering of the queues, what a thread does in one iteration, the barrier and the loops;
  \<open>Ember_Grid\<close> shows that the numbers wire each thread to its neighbours. \<open>Ember_Flow\<close> has the
  locales for threads that repeat lists of pushes and pops: if whoever waits is supplied, a fair run
  ends. \<open>Ember_Ends\<close> discharges them for the four patterns, with the wavefronts of the sweeps as
  times, and shows that messages too long for the 16-bit counter never end.

  \<^bold>\<open>Numbers and bounds\<close>. Machine integers are words where they can wrap (the hash, message types,
  counters of bytes, \<^verbatim>\<open>uint64_t\<close> counts of the threads); indices and lengths are natural numbers,
  and each access is checked against the object it goes to. The shifts of an \<open>int\<close> by a sorted
  exponent are checked in \<open>Bitonic_Chunks\<close>; the other shifts of the sorts (\<open>1 << cnt\<close> of
  \<^verbatim>\<open>utils.cpp\<close>, \<open>1 << task_exp\<close>) are unbounded powers of two in the model, which they are in
  C++ for exponents below 31, as they are for the arrays below \<open>2 ^ 31\<close> elements of
  \<open>chunk_sort_correct\<close>. The firewall and the pipeline are accounted for with at least as many packets
  as there are headers; with fewer, as in the default of 16, a count of theirs wraps around. No
  function runs on fuel: loops end by structural recursion or by the measures given with them, and
  the receiving loop is a recursion over the messages that arrive, so that the theorems on whole
  loops include that they end.

  \<^bold>\<open>Not modelled\<close>. The builds of the sorts, the firewall, the pipeline and ember for
  Virtual-Link, CAF and ZeroMQ send the same messages through libraries that are not in the
  repository. Thread creation, core affinity,
  random input and time measurement are left out, as are memory-model effects below single
  accesses. \<^verbatim>\<open>seq.cpp\<close>, \<^verbatim>\<open>zmq.cpp\<close> and \<^verbatim>\<open>vl.cpp\<close> repeat the scheme of \<^verbatim>\<open>boost.cpp\<close>; the
  RaftLib versions of the network programs are kernels of that library. The PARSEC and graphBIG ports are floating-point or vendored
  code, lockhammer is vendored assembly, the micro-benchmarks time hardware.
\<close>

end
